(* ===== verification/Prelude.thy ===== *)
theory Prelude
  imports Main "HOL-Library.Word"
begin

text \<open>
  Shared vocabulary of the development: machine-integer types, the exceptions the library throws,
  results of calls that may throw, and a small theory of labelled transition systems (a state, a
  step relation and its reachable states) that the concurrent components share.
\<close>

unbundle bit_operations_syntax

section \<open>Machine integers\<close>

type_synonym byte = "8 word"
type_synonym u16 = "16 word"
type_synonym u32 = "32 word"
type_synonym u64 = "64 word"

lemma unat_byte_less [simp]: "unat (b :: byte) < 256"
  by (rule order_less_le_trans [OF unsigned_less]) simp

section \<open>Exceptions as values\<close>

text \<open>
  One constructor per exception class the modelled code throws. \<open>System_error\<close> carries the error
  code of a \<open>boost::system::system_error\<close>, \<open>User_exn\<close> is whatever a user callback throws.
\<close>

datatype exn =
    Runtime_error
  | Logic_error
  | Invalid_argument
  | Out_of_range
  | Bad_alloc
  | Time_out
  | Host_not_found
  | Network_unreachable
  | Session_not_found
  | Buffer_full
  | Net_other
  | System_error nat
  | User_exn nat

type_synonym 'a res = "exn + 'a"

definition bind_res :: "'a res \<Rightarrow> ('a \<Rightarrow> 'b res) \<Rightarrow> 'b res" where
  "bind_res r f = (case r of Inl e \<Rightarrow> Inl e | Inr x \<Rightarrow> f x)"

lemma bind_res_simps [simp]:
  "bind_res (Inl e) f = Inl e"
  "bind_res (Inr x) f = f x"
  by (simp_all add: bind_res_def)

lemma bind_res_Inr_iff:
  "bind_res r f = Inr y \<longleftrightarrow> (\<exists>x. r = Inr x \<and> f x = Inr y)"
  by (cases r) auto

section \<open>Transition systems\<close>

text \<open>
  The states that a machine with initial states \<open>init\<close> and labelled steps \<open>step\<close> can reach.
\<close>

inductive reach :: "('s \<Rightarrow> bool) \<Rightarrow> ('s \<Rightarrow> 'e \<Rightarrow> 's \<Rightarrow> bool) \<Rightarrow> 's \<Rightarrow> bool"
  for init :: "'s \<Rightarrow> bool" and step :: "'s \<Rightarrow> 'e \<Rightarrow> 's \<Rightarrow> bool" where
  reach_init [intro]: "init s \<Longrightarrow> reach init step s"
| reach_step [intro]: "reach init step s \<Longrightarrow> step s e s' \<Longrightarrow> reach init step s'"

text \<open>A run: the labels of the steps taken, in order.\<close>

inductive run :: "('s \<Rightarrow> 'e \<Rightarrow> 's \<Rightarrow> bool) \<Rightarrow> 's \<Rightarrow> 'e list \<Rightarrow> 's \<Rightarrow> bool"
  for step :: "'s \<Rightarrow> 'e \<Rightarrow> 's \<Rightarrow> bool" where
  run_Nil [intro]: "run step s [] s"
| run_Cons [intro]: "step s e s' \<Longrightarrow> run step s' es s'' \<Longrightarrow> run step s (e # es) s''"

inductive_cases run_NilE: "run step s [] s'"
inductive_cases run_ConsE: "run step s (e # es) s'"

text \<open>
  The contract of a component whose operations keep an invariant: every initial state satisfies it
  and every step preserves it. What follows holds of every reachable state and along every run.
\<close>

locale invariant_system =
  fixes init :: "'s \<Rightarrow> bool"
    and step :: "'s \<Rightarrow> 'e \<Rightarrow> 's \<Rightarrow> bool"
    and inv :: "'s \<Rightarrow> bool"
  assumes inv_init: "init s \<Longrightarrow> inv s"
    and inv_step: "inv s \<Longrightarrow> step s e s' \<Longrightarrow> inv s'"
begin

lemma reach_inv: "reach init step s \<Longrightarrow> inv s"
  by (induction rule: reach.induct) (auto intro: inv_init inv_step)

lemma run_inv: "run step s es s' \<Longrightarrow> inv s \<Longrightarrow> inv s'"
  by (induction rule: run.induct) (auto intro: inv_step)

end

lemma reach_run: "reach init step s \<Longrightarrow> run step s es s' \<Longrightarrow> reach init step s'"
  by (rotate_tac, induction rule: run.induct) auto

text \<open>Relations every step respects are respected by whole runs.\<close>

lemma run_preserves:
  assumes "run step s es s'"
    and "\<And>a e b. step a e b \<Longrightarrow> rel a b"
    and "\<And>a. rel a a" and "\<And>a b c. rel a b \<Longrightarrow> rel b c \<Longrightarrow> rel a c"
  shows "rel s s'"
  using assms(1) by (induction rule: run.induct) (auto intro: assms)

text \<open>Runs computed with an executable step function.\<close>

fun exec_run :: "('e \<Rightarrow> 's \<Rightarrow> 's option) \<Rightarrow> 'e list \<Rightarrow> 's \<Rightarrow> 's option" where
  "exec_run f [] s = Some s"
| "exec_run f (e # es) s = (case f e s of None \<Rightarrow> None | Some s' \<Rightarrow> exec_run f es s')"

lemma exec_run_sound:
  assumes "\<And>e s s'. f e s = Some s' \<Longrightarrow> step s e s'"
  shows "exec_run f es s = Some s' \<Longrightarrow> run step s es s'"
  by (induction es arbitrary: s) (auto intro: assms split: option.splits)

text \<open>A step that is only possible in some states.\<close>

definition guarded :: "bool \<Rightarrow> 'a \<Rightarrow> 'a option" where
  "guarded b x = (if b then Some x else None)"

lemma guarded_Some_iff [simp]: "guarded b x = Some y \<longleftrightarrow> b \<and> x = y"
  by (simp add: guarded_def)

section \<open>Lists\<close>

lemma take_append_drop [simp]: "take n xs @ drop n xs @ ys = xs @ ys"
  by (simp flip: append_assoc)

text \<open>The last \<open>n\<close> elements of a list.\<close>

definition last_n :: "nat \<Rightarrow> 'a list \<Rightarrow> 'a list" where
  "last_n n xs = drop (length xs - n) xs"

lemma length_last_n [simp]: "length (last_n n xs) = min n (length xs)"
  by (auto simp: last_n_def)

lemma last_n_all: "length xs \<le> n \<Longrightarrow> last_n n xs = xs"
  by (simp add: last_n_def)

lemma last_n_0 [simp]: "last_n 0 xs = []"
  by (simp add: last_n_def)

lemma last_n_last_n: "m \<le> n \<Longrightarrow> last_n m (last_n n xs) = last_n m xs"
  by (auto simp: last_n_def intro!: arg_cong [where f = "\<lambda>k. drop k xs"])

lemma last_n_append:
  "last_n n (xs @ ys) = last_n (n - length ys) xs @ last_n n ys"
proof (cases "n \<le> length ys")
  case False
  then have "length xs + length ys - n = length xs - (n - length ys)" by simp
  with False show ?thesis by (simp add: last_n_def)
qed (simp add: last_n_def)

lemma last_n_append_last_n: "last_n n (last_n n xs @ ys) = last_n n (xs @ ys)"
  by (simp add: last_n_append last_n_last_n)

lemma last_n_append_trim:
  "last_n n (xs @ last_n n ys) = last_n n (xs @ ys)"
proof (cases "length ys \<le> n")
  case False
  then show ?thesis by (simp add: last_n_append last_n_last_n min_def)
qed (simp add: last_n_all)

end
