(* ===== verification/Bytes.thy ===== *)
theory Bytes
  imports Prelude
begin

text \<open>
  Byte-level helpers of \<open>common/include/sg/bytes.h\<close> and the bit tricks of \<open>common/include/sg/math.h\<close>.

  An unsigned integer of the source is an \<open>'a word\<close>; \<open>sizeof(T)\<close> is \<open>LENGTH('a) div 8\<close>. The byte
  order of the machine (\<open>std::endian::native\<close>) is a parameter. A floating-point value is its object
  representation, since the code only moves its bytes.
\<close>

section \<open>Object representation\<close>

datatype endian = Little | Big

text \<open>The bytes of a word from the least significant one, and the word such bytes denote.\<close>

definition le_bytes :: "'a::len word \<Rightarrow> byte list" where
  "le_bytes w = map (\<lambda>i. ucast (drop_bit (8 * i) w)) [0..<LENGTH('a) div 8]"

fun le_word :: "byte list \<Rightarrow> 'a::len word" where
  "le_word [] = 0"
| "le_word (b # bs) = ucast b OR push_bit 8 (le_word bs)"

lemma length_le_bytes [simp]: "length (le_bytes (w :: 'a::len word)) = LENGTH('a) div 8"
  by (simp add: le_bytes_def)

lemma bit_le_word:
  "bit (le_word bs :: 'a::len word) n \<longleftrightarrow>
     n < LENGTH('a) \<and> n div 8 < length bs \<and> bit (bs ! (n div 8)) (n mod 8)"
proof (induction bs arbitrary: n)
  case (Cons b bs)
  show ?case
  proof (cases "n < 8")
    case True
    then show ?thesis
      by (auto simp: bit_or_iff bit_push_bit_iff bit_unsigned_iff dest: bit_imp_le_length)
  next
    case False
    then have "n div 8 = Suc ((n - 8) div 8)" "n mod 8 = (n - 8) mod 8"
      by (simp_all add: le_div_geq le_mod_geq)
    with False show ?thesis
      by (auto simp: bit_or_iff bit_push_bit_iff bit_unsigned_iff Cons.IH dest: bit_imp_le_length)
  qed
qed simp

lemma bit_le_bytes:
  assumes "i < LENGTH('a::len) div 8"
  shows "bit (le_bytes (w :: 'a word) ! i) n \<longleftrightarrow> n < 8 \<and> bit w (8 * i + n)"
  using assms by (simp add: le_bytes_def bit_unsigned_iff bit_drop_bit_eq)

lemma le_word_le_bytes:
  assumes "8 dvd LENGTH('a::len)"
  shows "le_word (le_bytes w) = (w :: 'a word)"
proof (rule bit_word_eqI)
  fix n assume n: "n < LENGTH('a)"
  with assms have "n div 8 < LENGTH('a) div 8" by (auto elim!: dvdE)
  with n show "bit (le_word (le_bytes w) :: 'a word) n = bit w n"
    by (simp add: bit_le_word bit_le_bytes)
qed

lemma le_bytes_le_word:
  assumes "length bs = LENGTH('a::len) div 8"
  shows "le_bytes (le_word bs :: 'a word) = bs"
proof (rule nth_equalityI)
  fix i assume i: "i < length (le_bytes (le_word bs :: 'a word))"
  then have i': "i < LENGTH('a) div 8" by simp
  have "bit (le_bytes (le_word bs :: 'a word) ! i) n = bit (bs ! i) n" if "n < 8" for n
  proof -
    have "8 * i + n < LENGTH('a)" using i' that by linarith
    then show ?thesis using i' that assms by (simp add: bit_le_bytes bit_le_word)
  qed
  then show "le_bytes (le_word bs :: 'a word) ! i = bs ! i"
    by (intro bit_word_eqI) simp
qed (use assms in simp)

text \<open>\<open>std::bit_cast\<close> between an integer and its array of bytes, on a machine of either order.\<close>

definition bit_cast_bytes :: "endian \<Rightarrow> 'a::len word \<Rightarrow> byte list" where
  "bit_cast_bytes native w = (if native = Little then le_bytes w else rev (le_bytes w))"

definition bit_cast_word :: "endian \<Rightarrow> byte list \<Rightarrow> 'a::len word" where
  "bit_cast_word native bs = (if native = Little then le_word bs else le_word (rev bs))"

lemma length_bit_cast_bytes [simp]:
  "length (bit_cast_bytes native (w :: 'a::len word)) = LENGTH('a) div 8"
  by (simp add: bit_cast_bytes_def)

lemma bit_cast_word_bytes [simp]:
  "8 dvd LENGTH('a::len) \<Longrightarrow> bit_cast_word native (bit_cast_bytes native w) = (w :: 'a word)"
  by (simp add: bit_cast_bytes_def bit_cast_word_def le_word_le_bytes)

lemma bit_cast_bytes_word [simp]:
  "length bs = LENGTH('a::len) div 8 \<Longrightarrow>
     bit_cast_bytes native (bit_cast_word native bs :: 'a word) = bs"
  by (simp add: bit_cast_bytes_def bit_cast_word_def le_bytes_le_word)

section \<open>byteswap, to_bytes, to_numeric\<close>

definition byteswap :: "endian \<Rightarrow> 'a::len word \<Rightarrow> 'a word" where
  "byteswap native value = bit_cast_word native (rev (bit_cast_bytes native value))"

text \<open>The swap does not depend on the byte order of the machine.\<close>

lemma byteswap_le: "byteswap native w = le_word (rev (le_bytes w))"
  by (simp add: byteswap_def bit_cast_bytes_def bit_cast_word_def)

lemma le_bytes_byteswap: "le_bytes (byteswap native w) = rev (le_bytes (w :: 'a::len word))"
  by (simp add: byteswap_le le_bytes_le_word)

definition to_bytes :: "endian \<Rightarrow> 'a::len word \<Rightarrow> byte list" where
  "to_bytes native input = bit_cast_bytes native input"

definition to_bytes_endian :: "endian \<Rightarrow> 'a::len word \<Rightarrow> endian \<Rightarrow> byte list" where
  "to_bytes_endian native input dst =
     (let input = (if dst \<noteq> native then byteswap native input else input) in to_bytes native input)"

definition to_bytes_floating :: "endian \<Rightarrow> 'a::len word \<Rightarrow> endian \<Rightarrow> byte list" where
  "to_bytes_floating native input dst =
     (let bytes = bit_cast_bytes native input
      in if native \<noteq> dst then rev bytes else bytes)"

fun to_bytes_range :: "endian \<Rightarrow> 'a::len word list \<Rightarrow> byte list" where
  "to_bytes_range native [] = []"
| "to_bytes_range native (item # items) = to_bytes native item @ to_bytes_range native items"

definition to_object :: "endian \<Rightarrow> byte list \<Rightarrow> 'a::len word" where
  "to_object native buff = bit_cast_word native (take (LENGTH('a) div 8) buff)"

definition to_numeric :: "endian \<Rightarrow> byte list \<Rightarrow> endian \<Rightarrow> 'a::len word" where
  "to_numeric native buff src =
     (let val = bit_cast_word native (take (LENGTH('a) div 8) buff)
      in if native \<noteq> src then byteswap native val else val)"

text \<open>
  The floating-point branch copies byte by byte, in reverse when the orders differ:
  \<open>ptr[i] = buff[size - i - 1]\<close>.
\<close>

definition to_numeric_floating :: "endian \<Rightarrow> byte list \<Rightarrow> endian \<Rightarrow> 'a::len word" where
  "to_numeric_floating native buff src =
     (let size = LENGTH('a) div 8
      in if native = src then bit_cast_word native (take size buff)
         else bit_cast_word native (map (\<lambda>i. buff ! (size - i - 1)) [0..<size]))"

text \<open>
  The checked readers take positions \<open>it\<close> and \<open>end\<close> in a byte sequence \<open>mem\<close>; the advancing ones
  also return the moved position.
\<close>

definition to_numeric_it :: "endian \<Rightarrow> byte list \<Rightarrow> nat \<Rightarrow> nat \<Rightarrow> endian \<Rightarrow> 'a::len word res" where
  "to_numeric_it native mem it stop src =
     (if it + LENGTH('a) div 8 > stop then Inl Runtime_error
      else Inr (to_numeric native (drop it mem) src))"

definition to_object_and_advance_ptr :: "endian \<Rightarrow> byte list \<Rightarrow> nat \<Rightarrow> 'a::len word \<times> nat" where
  "to_object_and_advance_ptr native mem ptr =
     (let val = to_object native (drop ptr mem) in (val, ptr + LENGTH('a) div 8))"

definition to_numeric_and_advance_ptr ::
    "endian \<Rightarrow> byte list \<Rightarrow> nat \<Rightarrow> endian \<Rightarrow> 'a::len word \<times> nat" where
  "to_numeric_and_advance_ptr native mem ptr src =
     (let val = to_numeric native (drop ptr mem) src in (val, ptr + LENGTH('a) div 8))"

definition to_numeric_and_advance_iterator ::
    "endian \<Rightarrow> byte list \<Rightarrow> nat \<Rightarrow> nat \<Rightarrow> endian \<Rightarrow> ('a::len word \<times> nat) res" where
  "to_numeric_and_advance_iterator native mem it stop src =
     bind_res (to_numeric_it native mem it stop src) (\<lambda>val. Inr (val, it + LENGTH('a) div 8))"

subsection \<open>Lemmas\<close>

lemma to_bytes_endian_le:
  "to_bytes_endian native w dst = (if dst = Little then le_bytes w else rev (le_bytes w))"
  by (cases native; cases dst)
    (simp_all add: to_bytes_endian_def to_bytes_def bit_cast_bytes_def le_bytes_byteswap)

lemma to_numeric_le:
  assumes "LENGTH('a::len) div 8 \<le> length buff"
  shows "(to_numeric native buff src :: 'a word) =
     (let bs = take (LENGTH('a) div 8) buff in if src = Little then le_word bs else le_word (rev bs))"
  using assms
  by (cases native; cases src)
    (simp_all add: to_numeric_def bit_cast_word_def byteswap_le le_bytes_le_word)

lemma length_to_bytes_range:
  "length (to_bytes_range native (ws :: 'a::len word list)) = length ws * (LENGTH('a) div 8)"
  by (induction ws) (simp_all add: to_bytes_def)

lemma to_bytes_range_append:
  "to_bytes_range native (xs @ ys) = to_bytes_range native xs @ to_bytes_range native ys"
  by (induction xs) simp_all

lemma length_to_bytes_endian [simp]:
  "length (to_bytes_endian native (w :: 'a::len word) dst) = LENGTH('a) div 8"
  by (simp add: to_bytes_endian_le)

lemma to_numeric_roundtrip:
  assumes "8 dvd LENGTH('a::len)"
  shows "to_numeric native (to_bytes_endian native w e @ rest) e = (w :: 'a word)"
  using assms by (simp add: to_numeric_le to_bytes_endian_le le_word_le_bytes)

section \<open>Bit tricks\<close>

definition exact_factor_of_two :: "'a::len word \<Rightarrow> 'a word" where
  "exact_factor_of_two number = number AND (NOT number + 1)"

text \<open>The loop \<open>for (i = 1; i <= sizeof(T)*8/2; i *= 2) number |= number >> i\<close>.\<close>

function smear_loop :: "nat \<Rightarrow> 'a::len word \<Rightarrow> 'a word" where
  "smear_loop i number =
     (if 0 < i \<and> i \<le> LENGTH('a) div 8 * 8 div 2
      then smear_loop (i * 2) (number OR drop_bit i number) else number)"
  by pat_completeness auto
termination
  by (relation "measure (\<lambda>(i, number :: 'a word). LENGTH('a) + 1 - i)") auto

declare smear_loop.simps [simp del]

definition largest_power_of_two :: "'a::len word \<Rightarrow> 'a word" where
  "largest_power_of_two number =
     (let number = smear_loop 1 number in number - drop_bit 1 number)"

subsection \<open>What the bit tricks compute\<close>

text \<open>\<open>smeared i w v\<close>: bit \<open>j\<close> of \<open>v\<close> says that \<open>w\<close> has a bit set among \<open>j, ..., j + i - 1\<close>.\<close>

definition smeared :: "nat \<Rightarrow> 'a::len word \<Rightarrow> 'a word \<Rightarrow> bool" where
  "smeared i w v \<longleftrightarrow> (\<forall>j. bit v j \<longleftrightarrow> (\<exists>d<i. bit w (j + d)))"

lemma smeared_1: "smeared (Suc 0) w w"
  by (simp add: smeared_def)

lemma smeared_step:
  assumes "smeared i w v"
  shows "smeared (i * 2) w (v OR drop_bit i v)"
proof -
  have "(\<exists>d<i. bit w (j + d)) \<or> (\<exists>d<i. bit w (i + j + d)) \<longleftrightarrow> (\<exists>d<i * 2. bit w (j + d))" for j
  proof (intro iffI)
    assume "\<exists>d<i * 2. bit w (j + d)"
    then obtain d where d: "d < i * 2" "bit w (j + d)" by blast
    show "(\<exists>d<i. bit w (j + d)) \<or> (\<exists>d<i. bit w (i + j + d))"
    proof (cases "d < i")
      case False
      with d have "d - i < i" "i + j + (d - i) = j + d" by auto
      with d(2) show ?thesis by metis
    qed (use d in blast)
  next
    assume "(\<exists>d<i. bit w (j + d)) \<or> (\<exists>d<i. bit w (i + j + d))"
    then show "\<exists>d<i * 2. bit w (j + d)"
    proof
      assume "\<exists>d<i. bit w (i + j + d)"
      then obtain d where "d < i" "bit w (j + (i + d))" by (metis add.assoc add.commute)
      then show ?thesis by (intro exI [of _ "i + d"]) simp
    qed (metis less_le_trans mult_2_right le_add1)
  qed
  with assms show ?thesis
    by (simp add: smeared_def bit_or_iff bit_drop_bit_eq)
qed

lemma bits_half:
  assumes "3 \<le> m"
  shows "(2 ^ m :: nat) div 8 * 8 div 2 = 2 ^ (m - 1)"
proof -
  have "(2 ^ m :: nat) div 8 * 8 = 2 ^ m"
    using assms le_imp_power_dvd [of 3 m "2 :: nat"] by simp
  moreover have "(2 :: nat) ^ m = 2 * 2 ^ (m - 1)" using assms by (cases m) auto
  ultimately show ?thesis by simp
qed

lemma smear_loop_smeared:
  assumes "smeared (2 ^ k) w v" and "LENGTH('a::len) = 2 ^ m" and "3 \<le> m" and "k \<le> m"
  shows "smeared (2 ^ m) w (smear_loop (2 ^ k) (v :: 'a word))"
  using assms(1,4)
proof (induction "m - k" arbitrary: k v)
  case 0
  then have "k = m" by simp
  moreover have "\<not> (2 ^ m :: nat) \<le> 2 ^ (m - 1)" using assms(3) by simp
  ultimately show ?case
    using 0 assms(2,3) bits_half [of m] by (simp add: smear_loop.simps [of "2 ^ m"])
next
  case (Suc d)
  then have k: "k < m" by simp
  then have "(2 :: nat) ^ k \<le> 2 ^ (m - 1)" by (intro power_increasing) auto
  then have "smear_loop (2 ^ k) v = smear_loop (2 ^ k * 2) (v OR drop_bit (2 ^ k) v)"
    using assms(2,3) bits_half [of m] by (subst smear_loop.simps) simp
  moreover have "smeared (2 ^ Suc k) w (v OR drop_bit (2 ^ k) v)"
    using smeared_step [OF Suc.prems(1)] by (simp add: mult.commute)
  ultimately show ?case
    using Suc.hyps(1) [of "Suc k" "v OR drop_bit (2 ^ k) v"] Suc.hyps(2) k
    by (simp add: mult.commute)
qed

lemma mask_minus_half: "(mask (Suc k) :: 'a::len word) - mask k = push_bit k 1"
  by (simp add: mask_eq_exp_minus_1 push_bit_eq_mult)

lemma highest_bit:
  assumes "(w :: 'a::len word) \<noteq> 0"
  obtains k where "bit w k" and "\<And>j. bit w j \<Longrightarrow> j \<le> k"
proof -
  let ?S = "{j. bit w j}"
  have "?S \<noteq> {}"
  proof
    assume "?S = {}"
    then have "\<not> bit w n" for n by blast
    then have "w = 0" by (intro bit_word_eqI) simp
    then show False using assms by simp
  qed
  moreover have fin: "finite ?S"
    by (rule finite_subset [of _ "{..<LENGTH('a)}"]) (use bit_imp_le_length in blast, simp)
  ultimately have "Max ?S \<in> ?S" by (intro Max_in)
  moreover have "j \<le> Max ?S" if "bit w j" for j using fin that by (intro Max_ge) simp_all
  ultimately show ?thesis by (intro that [of "Max ?S"]) simp_all
qed

lemma lowest_bit:
  assumes "(w :: 'a::len word) \<noteq> 0"
  obtains k where "bit w k" and "\<And>j. j < k \<Longrightarrow> \<not> bit w j"
proof -
  obtain j where "bit w j" using highest_bit [OF assms] by blast
  then show ?thesis
    using that [of "LEAST j. bit w j"] LeastI [of "bit w" j] not_less_Least [of _ "bit w"] by blast
qed

lemma unat_push_bit_1:
  assumes "k < LENGTH('a::len)"
  shows "unat (push_bit k 1 :: 'a word) = 2 ^ k"
proof -
  have "unat (of_nat (2 ^ k) :: 'a word) = 2 ^ k"
    using assms by (simp only: unat_of_nat) (simp add: take_bit_nat_eq_self_iff flip: take_bit_eq_mod)
  then show ?thesis by (simp add: push_bit_eq_mult)
qed

lemma largest_power_of_two_highest:
  assumes "LENGTH('a::len) = 2 ^ m" and "3 \<le> m"
    and "bit (w :: 'a word) k" and "\<And>j. bit w j \<Longrightarrow> j \<le> k"
  shows "largest_power_of_two w = push_bit k 1"
proof -
  have kl: "k < 2 ^ m" using assms(1) bit_imp_le_length [OF assms(3)] by simp
  have smear: "smeared (2 ^ m) w (smear_loop 1 w)"
    using smear_loop_smeared [of 0 w w m] assms(1,2) smeared_1 [of w] by simp
  have "bit (smear_loop 1 w) j \<longleftrightarrow> j \<le> k" for j
  proof -
    have "bit (smear_loop 1 w) j \<longleftrightarrow> (\<exists>d<2 ^ m. bit w (j + d))"
      using smear [unfolded smeared_def] by blast
    also have "\<dots> \<longleftrightarrow> j \<le> k"
    proof
      assume "\<exists>d<2 ^ m. bit w (j + d)"
      then obtain d where "bit w (j + d)" by blast
      from assms(4) [OF this] show "j \<le> k" by simp
    next
      assume "j \<le> k"
      then have "k - j < 2 ^ m" and "bit w (j + (k - j))" using kl assms(3) by auto
      then show "\<exists>d<2 ^ m. bit w (j + d)" by blast
    qed
    finally show ?thesis .
  qed
  then have "smear_loop 1 w = mask (Suc k)"
    by (intro bit_word_eqI) (simp add: bit_mask_iff less_Suc_eq_le)
  moreover have "drop_bit 1 (mask (Suc k) :: 'a word) = mask k"
    using kl assms(1)
    by (intro bit_word_eqI) (auto simp: bit_mask_iff bit_drop_bit_eq dest: bit_imp_le_length)
  ultimately show ?thesis
    by (simp only: largest_power_of_two_def mask_minus_half Let_def)
qed

lemma exact_factor_of_two_lowest:
  assumes "bit (w :: 'a::len word) k" and "\<And>j. j < k \<Longrightarrow> \<not> bit w j"
  shows "exact_factor_of_two w = push_bit k 1"
proof -
  define u where "u = drop_bit k w"
  have w: "w = push_bit k u"
  proof (rule bit_word_eqI)
    fix n assume "n < LENGTH('a)"
    then show "bit w n = bit (push_bit k u) n"
      using assms(2) [of n] by (cases "n < k") (auto simp: u_def bit_push_bit_iff bit_drop_bit_eq)
  qed
  have "bit u 0" using assms(1) by (simp add: u_def bit_drop_bit_eq)
  then have u: "NOT u + 1 = NOT u OR 1"
    by (subst disjunctive_add) (auto simp: bit_1_iff bit_not_iff)
  have "NOT w + 1 = push_bit k (NOT u + 1)"
    by (simp add: w push_bit_eq_mult minus_eq_not_plus_1 [symmetric])
  then have "exact_factor_of_two w = push_bit k (u AND (NOT u OR 1))"
    by (simp add: exact_factor_of_two_def w u)
  also have "u AND (NOT u OR 1) = 1"
    using \<open>bit u 0\<close> by (intro bit_word_eqI) (auto simp: bit_and_iff bit_or_iff bit_not_iff bit_1_iff)
  finally show ?thesis .
qed

lemma bit_unat: "bit (unat (w :: 'a::len word)) n = bit w n"
  by (simp add: bit_unsigned_iff)

lemma unat_ge_bit: "bit (w :: 'a::len word) k \<Longrightarrow> 2 ^ k \<le> unat w"
  using bit_unat [of w k] by (auto simp: bit_iff_odd intro: ccontr)

lemma unat_less_bit:
  assumes "\<And>j. bit (w :: 'a::len word) j \<Longrightarrow> j \<le> k"
  shows "unat w < 2 ^ Suc k"
proof -
  have "take_bit (Suc k) (unat w) = unat w"
    using assms by (intro bit_eqI) (auto simp: bit_take_bit_iff bit_unat less_Suc_eq_le)
  then show ?thesis by (metis take_bit_nat_less_exp)
qed

section \<open>Properties\<close>

text \<open>An integer serialised with \<open>to_bytes(x, e)\<close> on one machine is read back by
  \<open>to_numeric(buff, e)\<close> on another, whatever the native byte orders of the two machines, and whatever
  bytes follow it in the buffer.\<close>

lemma to_numeric_to_bytes:
  assumes "8 dvd LENGTH('a::len)"
  shows "to_numeric native2 (to_bytes_endian native1 w e @ rest) e = (w :: 'a word)"
  using to_numeric_roundtrip [OF assms] by (simp add: to_bytes_endian_le)

lemma to_numeric_to_bytes_example:
  "to_numeric Big (to_bytes_endian Little (0x01020304 :: u32) Big @ [7]) Big = (0x01020304 :: u32)"
  by (rule to_numeric_to_bytes) simp

text \<open>reading a field out of a serialised sequence of integers: at the offset of item \<open>k\<close> the
  checked reader returns exactly that item and moves the iterator past it; where fewer than
  \<open>sizeof(T)\<close> bytes are left before the end it throws and does not read.\<close>

theorem to_numeric_and_advance_stream:
  fixes ws :: "'a::len word list"
  assumes "8 dvd LENGTH('a)" and "k < length ws" and "it = k * (LENGTH('a) div 8)"
  shows "to_numeric_and_advance_iterator native (to_bytes_range native ws) it stop native =
     (if stop < Suc k * (LENGTH('a) div 8) then Inl Runtime_error
      else Inr (ws ! k, Suc k * (LENGTH('a) div 8)))"
proof -
  have "to_bytes_range native ws = to_bytes_range native (take k ws) @
      to_bytes_range native (ws ! k # drop (Suc k) ws)"
    using arg_cong [OF id_take_nth_drop [OF assms(2)], of "to_bytes_range native"]
    by (simp only: to_bytes_range_append)
  moreover have "length (to_bytes_range native (take k ws)) = it"
    using assms(2,3) by (simp add: length_to_bytes_range)
  ultimately have "drop it (to_bytes_range native ws) =
      to_bytes native (ws ! k) @ to_bytes_range native (drop (Suc k) ws)"
    by simp
  then have "to_numeric native (drop it (to_bytes_range native ws)) native = ws ! k"
    using to_numeric_roundtrip [OF assms(1), of native "ws ! k" native]
    by (simp add: to_bytes_endian_def)
  moreover have "it + LENGTH('a) div 8 = Suc k * (LENGTH('a) div 8)" using assms(3) by simp
  ultimately show ?thesis
    unfolding to_numeric_and_advance_iterator_def to_numeric_it_def
    by (cases "stop < Suc k * (LENGTH('a) div 8)") simp_all
qed

theorem to_numeric_and_advance_stream_witness:
  "to_numeric_and_advance_iterator Little (to_bytes_range Little [5, 6 :: u16]) 2 4 Little =
     Inr (6 :: u16, 4)"
proof -
  have "to_numeric_and_advance_iterator Little (to_bytes_range Little [5, 6 :: u16]) 2 4 Little =
      (if 4 < Suc 1 * (LENGTH(16) div 8) then Inl Runtime_error
       else Inr ([5, 6 :: u16] ! 1, Suc 1 * (LENGTH(16) div 8)))"
    by (rule to_numeric_and_advance_stream) simp_all
  also have "\<dots> = Inr (6, 4)" by simp
  finally show ?thesis .
qed

text \<open>for a non-zero number \<open>largest_power_of_two\<close> returns the largest power of two that is not
  greater than it (the loop over shifts 1, 2, 4, ... terminates and smears the top bit over all lower
  ones).\<close>

theorem largest_power_of_two_correct:
  fixes number :: "'a::len word"
  assumes "LENGTH('a) = 2 ^ m" and "3 \<le> m" and "number \<noteq> 0"
  shows "\<exists>k. unat (largest_power_of_two number) = 2 ^ k \<and>
             2 ^ k \<le> unat number \<and> unat number < 2 ^ Suc k"
proof -
  obtain k where k: "bit number k" "\<And>j. bit number j \<Longrightarrow> j \<le> k"
    using highest_bit [OF assms(3)] by blast
  then have "unat (largest_power_of_two number) = 2 ^ k"
    using largest_power_of_two_highest [OF assms(1,2) k] bit_imp_le_length [OF k(1)]
    by (simp only: unat_push_bit_1)
  with unat_ge_bit [OF k(1)] unat_less_bit [OF k(2)] show ?thesis by blast
qed

theorem largest_power_of_two_correct_witness:
  "\<exists>k. unat (largest_power_of_two (9 :: u32)) = 2 ^ k \<and> 2 ^ k \<le> unat (9 :: u32) \<and>
       unat (9 :: u32) < 2 ^ Suc k"
  by (rule largest_power_of_two_correct [of 5]) simp_all

lemma exact_factor_of_two_correct:
  fixes number :: "'a::len word"
  assumes "number \<noteq> 0"
  shows "\<exists>k. unat (exact_factor_of_two number) = 2 ^ k \<and> 2 ^ k dvd unat number \<and>
             \<not> 2 ^ Suc k dvd unat number"
proof -
  obtain k where k: "bit number k" "\<And>j. j < k \<Longrightarrow> \<not> bit number j"
    using lowest_bit [OF assms] by blast
  have "take_bit k (unat number) = 0"
    using k(2) by (intro bit_eqI) (auto simp: bit_take_bit_iff bit_unat)
  moreover have "take_bit (Suc k) (unat number) \<noteq> 0"
  proof
    assume "take_bit (Suc k) (unat number) = 0"
    then have "\<not> bit (take_bit (Suc k) (unat number)) k" by (simp only:) simp
    then show False using k(1) by (simp add: bit_take_bit_iff bit_unat)
  qed
  moreover have "unat (exact_factor_of_two number) = 2 ^ k"
    using exact_factor_of_two_lowest [OF k] bit_imp_le_length [OF k(1)]
    by (simp only: unat_push_bit_1)
  ultimately show ?thesis by (metis take_bit_eq_0_iff)
qed

text \<open>The header comment gives 8 for input 9 as "the largest factor of 2 that the input is divisible
  by"; 8 is the largest power of two below 9, and does not divide it.\<close>

lemma largest_power_of_two_is_no_factor:
  "largest_power_of_two (9 :: u32) = 8" "\<not> unat (8 :: u32) dvd unat (9 :: u32)"
  by (simp_all add: largest_power_of_two_def smear_loop.simps Let_def)

end
