(* ===== verification/Crc.thy ===== *)
theory Crc
  imports Bytes
begin

text \<open>
  The table-driven CRC-32 of \<open>common/src/include/crc32c_tabular.h\<close>, the instruction-based loops of
  \<open>crc32c_hardware_32bit.h\<close>, \<open>crc32c_hardware_armv7.h\<close>, \<open>crc32_hardware_armv7.h\<close>,
  \<open>crc32c_hardware_armv8.h\<close> and \<open>crc32c_hardware_intel.h\<close>, and the entry points of \<open>common/src/crc.cpp\<close>.
  The proofs about the last two are in theory \<open>CrcFolding\<close>.

  The message is a byte list \<open>M\<close> and a count, as the pointer and length of the source. The CRC
  instructions of the processor are parameters (\<open>crc_intrinsics\<close>); what the vendors document of them
  is the predicate \<open>intrinsics_ok\<close>. The reference is the bit-by-bit division \<open>crc_update\<close>.
\<close>

section \<open>The code\<close>

text \<open>\<open>n\<close> rounds of \<open>R = R & 1 ? (R >> 1) ^ polynomial : R >> 1\<close>.\<close>

fun crc_bits :: "u32 \<Rightarrow> nat \<Rightarrow> u32 \<Rightarrow> u32" where
  "crc_bits poly 0 R = R"
| "crc_bits poly (Suc n) R =
     crc_bits poly n (if R AND 1 \<noteq> 0 then drop_bit 1 R XOR poly else drop_bit 1 R)"

definition compute_table0 :: "u32 \<Rightarrow> u32 list" where
  "compute_table0 poly =
     foldl (\<lambda>tbl i. tbl[i := crc_bits poly 8 (word_of_nat i)]) (replicate (256 * 16) 0) [0..<256]"

definition compute_tabular_method_tables :: "u32 \<Rightarrow> u32 list" where
  "compute_tabular_method_tables poly =
     foldl (\<lambda>tbl i. let R = tbl ! (i - 256)
                   in tbl[i := drop_bit 8 R XOR tbl ! unat (ucast R :: byte)])
       (compute_table0 poly) [256..<16 * 256]"

text \<open>\<open>uint8_t(R >> n)\<close> and a typed load from the message.\<close>

definition byte_at :: "u32 \<Rightarrow> nat \<Rightarrow> byte" where
  "byte_at R n = ucast (drop_bit n R)"

definition load :: "endian \<Rightarrow> byte list \<Rightarrow> 'a::len word" where
  "load native M = bit_cast_word native (take (LENGTH('a) div 8) M)"

definition crc32_tabular_1_byte :: "byte list \<Rightarrow> nat \<Rightarrow> u32 \<Rightarrow> u32 list \<Rightarrow> u32" where
  "crc32_tabular_1_byte M bytes prev tbl =
     foldl (\<lambda>R b. drop_bit 8 R XOR tbl ! unat ((R XOR ucast b) AND 0xFF)) prev (take bytes M)"

definition tabular_2_step :: "endian \<Rightarrow> u32 list \<Rightarrow> u32 \<Rightarrow> u16 \<Rightarrow> u32" where
  "tabular_2_step native tbl R m =
     (if native = Big then
        let R = ucast m XOR byteswap native R
        in tbl ! (0 * 256 + unat (byte_at R 0)) XOR
           tbl ! (1 * 256 + unat (byte_at R 8))
      else
        let R = R XOR ucast m
        in drop_bit 16 R XOR
           tbl ! (0 * 256 + unat (byte_at R 8)) XOR
           tbl ! (1 * 256 + unat (byte_at R 0)))"

definition crc32_tabular_2_bytes :: "endian \<Rightarrow> byte list \<Rightarrow> nat \<Rightarrow> u32 \<Rightarrow> u32 list \<Rightarrow> u32" where
  "crc32_tabular_2_bytes native M bytes prev tbl =
     (let n = bytes div 2;
          R = foldl (\<lambda>R i. tabular_2_step native tbl R (load native (drop (2 * i) M))) prev [0..<n]
      in crc32_tabular_1_byte (drop (2 * n) M) (bytes - 2 * n) R tbl)"

definition tabular_4_step :: "endian \<Rightarrow> u32 list \<Rightarrow> u32 \<Rightarrow> u32 \<Rightarrow> u32" where
  "tabular_4_step native tbl R m =
     (if native = Big then
        let R = m XOR byteswap native R
        in tbl ! (0 * 256 + unat (byte_at R 0)) XOR
           tbl ! (1 * 256 + unat (byte_at R 8)) XOR
           tbl ! (2 * 256 + unat (byte_at R 16)) XOR
           tbl ! (3 * 256 + unat (byte_at R 24))
      else
        let R = R XOR m
        in tbl ! (0 * 256 + unat (byte_at R 24)) XOR
           tbl ! (1 * 256 + unat (byte_at R 16)) XOR
           tbl ! (2 * 256 + unat (byte_at R 8)) XOR
           tbl ! (3 * 256 + unat (byte_at R 0)))"

definition crc32_tabular_4_bytes :: "endian \<Rightarrow> byte list \<Rightarrow> nat \<Rightarrow> u32 \<Rightarrow> u32 list \<Rightarrow> u32" where
  "crc32_tabular_4_bytes native M bytes prev tbl =
     (let n = bytes div 4;
          R = foldl (\<lambda>R i. tabular_4_step native tbl R (load native (drop (4 * i) M))) prev [0..<n]
      in crc32_tabular_2_bytes native (drop (4 * n) M) (bytes - 4 * n) R tbl)"

definition tabular_8_step :: "endian \<Rightarrow> u32 list \<Rightarrow> u32 \<Rightarrow> u32 \<Rightarrow> u32 \<Rightarrow> u32" where
  "tabular_8_step native tbl R m R2 =
     (if native = Big then
        let R = m XOR byteswap native R
        in tbl ! (0 * 256 + unat (byte_at R2 0)) XOR
           tbl ! (1 * 256 + unat (byte_at R2 8)) XOR
           tbl ! (2 * 256 + unat (byte_at R2 16)) XOR
           tbl ! (3 * 256 + unat (byte_at R2 24)) XOR
           tbl ! (4 * 256 + unat (byte_at R 0)) XOR
           tbl ! (5 * 256 + unat (byte_at R 8)) XOR
           tbl ! (6 * 256 + unat (byte_at R 16)) XOR
           tbl ! (7 * 256 + unat (byte_at R 24))
      else
        let R = R XOR m
        in tbl ! (0 * 256 + unat (byte_at R2 24)) XOR
           tbl ! (1 * 256 + unat (byte_at R2 16)) XOR
           tbl ! (2 * 256 + unat (byte_at R2 8)) XOR
           tbl ! (3 * 256 + unat (byte_at R2 0)) XOR
           tbl ! (4 * 256 + unat (byte_at R 24)) XOR
           tbl ! (5 * 256 + unat (byte_at R 16)) XOR
           tbl ! (6 * 256 + unat (byte_at R 8)) XOR
           tbl ! (7 * 256 + unat (byte_at R 0)))"

fun crc32_tabular_8_bytes :: "endian \<Rightarrow> byte list \<Rightarrow> nat \<Rightarrow> u32 \<Rightarrow> u32 list \<Rightarrow> u32" where
  "crc32_tabular_8_bytes native M bytes R tbl =
     (if bytes \<ge> 8 then
        crc32_tabular_8_bytes native (drop 8 M) (bytes - 8)
          (tabular_8_step native tbl R (load native M) (load native (drop 4 M))) tbl
      else crc32_tabular_4_bytes native M bytes R tbl)"

definition tabular_16_step ::
    "endian \<Rightarrow> u32 list \<Rightarrow> u32 \<Rightarrow> u32 \<Rightarrow> u32 \<Rightarrow> u32 \<Rightarrow> u32 \<Rightarrow> u32" where
  "tabular_16_step native tbl R m R2 R3 R4 =
     (if native = Big then
        let R = m XOR byteswap native R
        in tbl ! (0 * 256 + unat (byte_at R4 0)) XOR
           tbl ! (1 * 256 + unat (byte_at R4 8)) XOR
           tbl ! (2 * 256 + unat (byte_at R4 16)) XOR
           tbl ! (3 * 256 + unat (byte_at R4 24)) XOR
           tbl ! (4 * 256 + unat (byte_at R3 0)) XOR
           tbl ! (5 * 256 + unat (byte_at R3 8)) XOR
           tbl ! (6 * 256 + unat (byte_at R3 16)) XOR
           tbl ! (7 * 256 + unat (byte_at R3 24)) XOR
           tbl ! (8 * 256 + unat (byte_at R2 0)) XOR
           tbl ! (9 * 256 + unat (byte_at R2 8)) XOR
           tbl ! (10 * 256 + unat (byte_at R2 16)) XOR
           tbl ! (11 * 256 + unat (byte_at R2 24)) XOR
           tbl ! (12 * 256 + unat (byte_at R 0)) XOR
           tbl ! (13 * 256 + unat (byte_at R 8)) XOR
           tbl ! (14 * 256 + unat (byte_at R 16)) XOR
           tbl ! (15 * 256 + unat (byte_at R 24))
      else
        let R = R XOR m
        in tbl ! (0 * 256 + unat (byte_at R4 24)) XOR tbl ! (1 * 256 + unat (byte_at R4 16)) XOR
           tbl ! (2 * 256 + unat (byte_at R4 8)) XOR tbl ! (3 * 256 + unat (byte_at R4 0)) XOR
           tbl ! (4 * 256 + unat (byte_at R3 24)) XOR tbl ! (5 * 256 + unat (byte_at R3 16)) XOR
           tbl ! (6 * 256 + unat (byte_at R3 8)) XOR tbl ! (7 * 256 + unat (byte_at R3 0)) XOR
           tbl ! (8 * 256 + unat (byte_at R2 24)) XOR tbl ! (9 * 256 + unat (byte_at R2 16)) XOR
           tbl ! (10 * 256 + unat (byte_at R2 8)) XOR tbl ! (11 * 256 + unat (byte_at R2 0)) XOR
           tbl ! (12 * 256 + unat (byte_at R 24)) XOR tbl ! (13 * 256 + unat (byte_at R 16)) XOR
           tbl ! (14 * 256 + unat (byte_at R 8)) XOR tbl ! (15 * 256 + unat (byte_at R 0)))"

fun crc32_tabular_16_bytes :: "endian \<Rightarrow> byte list \<Rightarrow> nat \<Rightarrow> u32 \<Rightarrow> u32 list \<Rightarrow> u32" where
  "crc32_tabular_16_bytes native M bytes R tbl =
     (if bytes \<ge> 16 then
        crc32_tabular_16_bytes native (drop 16 M) (bytes - 16)
          (tabular_16_step native tbl R (load native M) (load native (drop 4 M))
             (load native (drop 8 M)) (load native (drop 12 M))) tbl
      else crc32_tabular_8_bytes native M bytes R tbl)"

declare crc32_tabular_8_bytes.simps [simp del] crc32_tabular_16_bytes.simps [simp del]

definition crc32c_tabular :: "endian \<Rightarrow> byte list \<Rightarrow> nat \<Rightarrow> u32 \<Rightarrow> u32 list \<Rightarrow> u32" where
  "crc32c_tabular native data no_of_bytes initial_remainder tbl =
     (if no_of_bytes \<ge> 16 then crc32_tabular_16_bytes native data no_of_bytes initial_remainder tbl
      else if no_of_bytes \<ge> 8 then crc32_tabular_8_bytes native data no_of_bytes initial_remainder tbl
      else if no_of_bytes \<ge> 4 then crc32_tabular_4_bytes native data no_of_bytes initial_remainder tbl
      else if no_of_bytes \<ge> 2 then crc32_tabular_2_bytes native data no_of_bytes initial_remainder tbl
      else crc32_tabular_1_byte data no_of_bytes initial_remainder tbl)"

text \<open>The CRC instructions: \<open>_mm_crc32_u8/u16/u32/u64\<close> on x86, \<open>__crc32cb/h/w/d\<close> on ARM.\<close>

record crc_intrinsics =
  crc_u8 :: "u32 \<Rightarrow> byte \<Rightarrow> u32"
  crc_u16 :: "u32 \<Rightarrow> u16 \<Rightarrow> u32"
  crc_u32 :: "u32 \<Rightarrow> u32 \<Rightarrow> u32"
  crc_u64 :: "u32 \<Rightarrow> u64 \<Rightarrow> u32"

fun hardware_32bit_words :: "crc_intrinsics \<Rightarrow> byte list \<Rightarrow> nat \<Rightarrow> u32 \<Rightarrow> byte list \<times> nat \<times> u32" where
  "hardware_32bit_words I M no_of_bytes R =
     (if no_of_bytes \<ge> 4
      then hardware_32bit_words I (drop 4 M) (no_of_bytes - 4) (crc_u32 I R (load Little M))
      else (M, no_of_bytes, R))"

definition crc32c_hardware_32bit :: "crc_intrinsics \<Rightarrow> byte list \<Rightarrow> u32 \<Rightarrow> u32 \<Rightarrow> u32" where
  "crc32c_hardware_32bit I data no_of_bytes prev =
     (let (M, n, R) = hardware_32bit_words I data (unat no_of_bytes) prev;
          (M, n, R) = (if n \<ge> 2 then (drop 2 M, n - 2, crc_u16 I R (load Little M)) else (M, n, R))
      in if n = 1 then crc_u8 I R (M ! 0) else R)"

fun hardware_armv7_words :: "crc_intrinsics \<Rightarrow> byte list \<Rightarrow> nat \<Rightarrow> u32 \<Rightarrow> byte list \<times> nat \<times> u32" where
  "hardware_armv7_words I M no_of_bytes R =
     (if no_of_bytes \<ge> 8
      then hardware_armv7_words I (drop 8 M) (no_of_bytes - 8) (crc_u64 I R (load Little M))
      else (M, no_of_bytes, R))"

definition crc32c_hardware_armv7 :: "crc_intrinsics \<Rightarrow> byte list \<Rightarrow> u32 \<Rightarrow> u32 \<Rightarrow> u32" where
  "crc32c_hardware_armv7 I data no_of_bytes prev =
     (let (M, n, R) = hardware_armv7_words I data (unat no_of_bytes) prev;
          (M, n, R) = (if n \<ge> 4 then (drop 4 M, n - 4, crc_u32 I R (load Little M)) else (M, n, R));
          (M, n, R) = (if n \<ge> 2 then (drop 2 M, n - 2, crc_u16 I R (load Little M)) else (M, n, R))
      in if n = 1 then crc_u8 I R (M ! 0) else R)"

text \<open>\<open>crc32_hardware_armv7\<close> is the same code over the CRC-32 instructions \<open>__crc32b/h/w/d\<close>.\<close>

definition crc32_hardware_armv7 :: "crc_intrinsics \<Rightarrow> byte list \<Rightarrow> u32 \<Rightarrow> u32 \<Rightarrow> u32" where
  "crc32_hardware_armv7 I data no_of_bytes prev =
     (let (M, n, R) = hardware_armv7_words I data (unat no_of_bytes) prev;
          (M, n, R) = (if n \<ge> 4 then (drop 4 M, n - 4, crc_u32 I R (load Little M)) else (M, n, R));
          (M, n, R) = (if n \<ge> 2 then (drop 2 M, n - 2, crc_u16 I R (load Little M)) else (M, n, R))
      in if n = 1 then crc_u8 I R (M ! 0) else R)"

text \<open>
  The versions that work on several parts of the message at once: \<open>crc32c_hardware_armv8\<close> and
  \<open>crc32c_impl\<close>. A carry-less multiplication (\<open>vmull_p64\<close>, \<open>_mm_clmulepi64_si128\<close>) of two 64-bit words is
  the parameter \<open>clmul\<close>. The macros of the source that update variables in place give the tuple of them.
\<close>

type_synonym u128 = "128 word"

definition crc32c_32_bytes ::
    "crc_intrinsics \<Rightarrow> byte list \<Rightarrow> nat \<Rightarrow> u32 \<times> u32 \<times> u32 \<times> u32 \<Rightarrow> u32 \<times> u32 \<times> u32 \<times> u32" where
  "crc32c_32_bytes I P ind = (\<lambda>(crc0, crc1, crc2, crc3).
     let crc1 = crc_u64 I crc1 (load Little (drop (256 * 1 + ind * 8) P));
         crc2 = crc_u64 I crc2 (load Little (drop (256 * 2 + ind * 8) P));
         crc3 = crc_u64 I crc3 (load Little (drop (256 * 3 + ind * 8) P));
         crc0 = crc_u64 I crc0 (load Little (drop (256 * 0 + ind * 8) P))
     in (crc0, crc1, crc2, crc3))"

definition crc32c_256_bytes ::
    "crc_intrinsics \<Rightarrow> byte list \<Rightarrow> nat \<Rightarrow> u32 \<times> u32 \<times> u32 \<times> u32 \<Rightarrow> u32 \<times> u32 \<times> u32 \<times> u32" where
  "crc32c_256_bytes I P ind crcs = foldl (\<lambda>crcs i. crc32c_32_bytes I P (ind * 8 + i) crcs) crcs [0..<8]"

definition crc32c_1024_bytes ::
    "crc_intrinsics \<Rightarrow> byte list \<Rightarrow> u32 \<times> u32 \<times> u32 \<times> u32 \<Rightarrow> byte list \<times> u32 \<times> u32 \<times> u32 \<times> u32" where
  "crc32c_1024_bytes I P crcs =
     (drop (4 * 256) P, foldl (\<lambda>crcs i. crc32c_256_bytes I P i crcs) crcs [0..<4])"

fun armv8_blocks ::
    "crc_intrinsics \<Rightarrow> (u64 \<Rightarrow> u64 \<Rightarrow> u128) \<Rightarrow> byte list \<Rightarrow> nat \<Rightarrow> u32 \<Rightarrow> byte list \<times> nat \<times> u32" where
  "armv8_blocks I clmul M no_of_bytes crc =
     (if no_of_bytes \<ge> 1032 then
        let (M, crc0, crc1, crc2, crc3) = crc32c_1024_bytes I M (crc, 0, 0, 0);
            t2 = ucast (clmul (ucast crc2) 0xdcb17aa4) :: u64;
            t1 = ucast (clmul (ucast crc1) 0xbd6f81f8) :: u64;
            t0 = ucast (clmul (ucast crc0) 0x8d96551c) :: u64;
            crc = crc_u64 I crc3 (load Little M);
            M = drop 8 M;
            crc = crc XOR crc_u64 I 0 t2;
            crc = crc XOR crc_u64 I 0 t1;
            crc = crc XOR crc_u64 I 0 t0
        in armv8_blocks I clmul M (no_of_bytes - 1032) crc
      else (M, no_of_bytes, crc))"

definition crc32c_hardware_armv8 ::
    "crc_intrinsics \<Rightarrow> (u64 \<Rightarrow> u64 \<Rightarrow> u128) \<Rightarrow> byte list \<Rightarrow> u32 \<Rightarrow> u32 \<Rightarrow> u32" where
  "crc32c_hardware_armv8 I clmul data no_of_bytes prev =
     (let (M, n, crc) = armv8_blocks I clmul data (unat no_of_bytes) prev;
          (M, n, crc) = hardware_armv7_words I M n crc;
          (M, crc) = (if n AND 4 \<noteq> 0 then (drop 4 M, crc_u32 I crc (load Little M)) else (M, crc));
          (M, crc) = (if n AND 2 \<noteq> 0 then (drop 2 M, crc_u16 I crc (load Little M)) else (M, crc))
      in if n AND 1 \<noteq> 0 then crc_u8 I crc (M ! 0) else crc)"

text \<open>The halves of a vector, and \<open>_mm_setr_epi32\<close>.\<close>

definition vec_lo :: "u128 \<Rightarrow> u64" where "vec_lo x = ucast x"
definition vec_hi :: "u128 \<Rightarrow> u64" where "vec_hi x = ucast (drop_bit 64 x)"

definition setr_epi32 :: "u32 \<Rightarrow> u32 \<Rightarrow> u32 \<Rightarrow> u32 \<Rightarrow> u128" where
  "setr_epi32 a b c d = ucast a OR push_bit 32 (ucast b) OR push_bit 64 (ucast c) OR push_bit 96 (ucast d)"

definition clmul_lo :: "(u64 \<Rightarrow> u64 \<Rightarrow> u128) \<Rightarrow> u128 \<Rightarrow> u128 \<Rightarrow> u128" where
  "clmul_lo clmul a b = clmul (vec_lo a) (vec_lo b)"

definition clmul_hi :: "(u64 \<Rightarrow> u64 \<Rightarrow> u128) \<Rightarrow> u128 \<Rightarrow> u128 \<Rightarrow> u128" where
  "clmul_hi clmul a b = clmul (vec_hi a) (vec_hi b)"

definition clmul_scalar :: "(u64 \<Rightarrow> u64 \<Rightarrow> u128) \<Rightarrow> u32 \<Rightarrow> u32 \<Rightarrow> u128" where
  "clmul_scalar clmul a b = clmul_lo clmul (ucast a) (ucast b)"

text \<open>\<open>xnmodp\<close>: the loop that pushes the bits of \<open>n\<close>, and the loop that pops them.\<close>

lemma unat_half: "unat (drop_bit 1 s :: u64) = unat s div 2"
  by (simp only: drop_bit_eq_div power_one_right) (simp add: unat_div_distrib)

lemma unat_half_16: "191 < n \<Longrightarrow> unat (drop_bit 1 n - 16 :: u64) = unat n div 2 - 16"
proof -
  assume n: "191 < n"
  then have "191 < unat n" by (simp add: word_less_nat_alt)
  then show ?thesis by (subst unat_sub) (simp_all only: word_le_nat_alt unat_half, simp_all)
qed

function xnmodp_push :: "u64 \<Rightarrow> u64 \<Rightarrow> u64 \<times> u64" where
  "xnmodp_push stack n =
     (if n > 191 then xnmodp_push (push_bit 1 stack + (n AND 1)) (drop_bit 1 n - 16) else (stack, n))"
  by pat_completeness auto

termination by (relation "measure (\<lambda>(stack, n). unat n)") (simp_all only: in_measure wf_measure case_prod_conv unat_half_16, simp add: word_less_nat_alt)

function xnmodp_pop :: "crc_intrinsics \<Rightarrow> (u64 \<Rightarrow> u64 \<Rightarrow> u128) \<Rightarrow> u64 \<Rightarrow> u32 \<Rightarrow> u32" where
  "xnmodp_pop I clmul stack acc =
     (let low = stack AND 1; stack = drop_bit 1 stack
      in if stack = 0 then acc
         else
           let x = ucast acc; y = vec_lo (clmul_lo clmul x x)
           in xnmodp_pop I clmul stack (crc_u64 I 0 (push_bit (unat low) y)))"
  by pat_completeness auto

termination
proof (relation "measure (\<lambda>(I, clmul, stack, acc). unat stack)", simp, clarsimp)
  fix s :: u64 assume "drop_bit (Suc 0) s \<noteq> 0"
  then have "s \<noteq> 0" by auto
  then have "0 < unat s" by (simp add: unat_gt_0)
  then show "unat (drop_bit (Suc 0) s) < unat s" using unat_half [of s] by simp
qed

declare xnmodp_push.simps [simp del] xnmodp_pop.simps [simp del] armv8_blocks.simps [simp del]

definition xnmodp :: "crc_intrinsics \<Rightarrow> (u64 \<Rightarrow> u64 \<Rightarrow> u128) \<Rightarrow> u64 \<Rightarrow> u32" where
  "xnmodp I clmul n =
     (let (stack, n) = xnmodp_push (NOT 1) n;
          stack = NOT stack;
          acc = drop_bit (unat (n AND 31)) 0x80000000;
          acc = ((\<lambda>acc. crc_u32 I acc 0) ^^ unat (drop_bit 5 n)) acc
      in xnmodp_pop I clmul stack acc)"

definition crc_shift :: "crc_intrinsics \<Rightarrow> (u64 \<Rightarrow> u64 \<Rightarrow> u128) \<Rightarrow> u32 \<Rightarrow> u64 \<Rightarrow> u128" where
  "crc_shift I clmul crc nbytes = clmul_scalar clmul crc (xnmodp I clmul (nbytes * 8 - 33))"

text \<open>One vector is multiplied by \<open>k\<close> and the next is added; the main loop does it to four.\<close>

definition fold_by :: "(u64 \<Rightarrow> u64 \<Rightarrow> u128) \<Rightarrow> u128 \<Rightarrow> u128 \<Rightarrow> u128 \<Rightarrow> u128" where
  "fold_by clmul k x m = (let y = clmul_lo clmul x k; x = clmul_hi clmul x k; y = y XOR m in x XOR y)"

definition fold_chunk ::
    "(u64 \<Rightarrow> u64 \<Rightarrow> u128) \<Rightarrow> u128 \<Rightarrow> byte list \<Rightarrow> u128 \<times> u128 \<times> u128 \<times> u128 \<Rightarrow> u128 \<times> u128 \<times> u128 \<times> u128" where
  "fold_chunk clmul k buf2 = (\<lambda>(x0, x1, x2, x3).
     (fold_by clmul k x0 (load Little buf2), fold_by clmul k x1 (load Little (drop 16 buf2)),
      fold_by clmul k x2 (load Little (drop 32 buf2)), fold_by clmul k x3 (load Little (drop 48 buf2))))"

definition scalar_chunk ::
    "crc_intrinsics \<Rightarrow> byte list \<Rightarrow> nat \<Rightarrow> u32 \<times> u32 \<times> u32 \<Rightarrow> u32 \<times> u32 \<times> u32" where
  "scalar_chunk I buf klen = (\<lambda>(crc0, crc1, crc2).
     let crc0 = crc_u64 I crc0 (load Little buf);
         crc1 = crc_u64 I crc1 (load Little (drop klen buf));
         crc2 = crc_u64 I crc2 (load Little (drop (klen * 2) buf));
         crc0 = crc_u64 I crc0 (load Little (drop 8 buf));
         crc1 = crc_u64 I crc1 (load Little (drop (klen + 8) buf));
         crc2 = crc_u64 I crc2 (load Little (drop (klen * 2 + 8) buf));
         crc0 = crc_u64 I crc0 (load Little (drop 16 buf));
         crc1 = crc_u64 I crc1 (load Little (drop (klen + 16) buf));
         crc2 = crc_u64 I crc2 (load Little (drop (klen * 2 + 16) buf))
     in (crc0, crc1, crc2))"

fun intel_loop ::
    "crc_intrinsics \<Rightarrow> (u64 \<Rightarrow> u64 \<Rightarrow> u128) \<Rightarrow> nat \<Rightarrow> byte list \<Rightarrow> byte list \<Rightarrow> nat \<Rightarrow>
      u128 \<times> u128 \<times> u128 \<times> u128 \<Rightarrow> u32 \<times> u32 \<times> u32 \<Rightarrow>
      byte list \<times> nat \<times> (u128 \<times> u128 \<times> u128 \<times> u128) \<times> u32 \<times> u32 \<times> u32" where
  "intel_loop I clmul klen buf buf2 len xs crcs =
     (if len \<ge> 144 then
        let xs = fold_chunk clmul (setr_epi32 0x740eef02 0 0x9e4addf8 0) buf2 xs;
            crcs = scalar_chunk I buf klen crcs
        in intel_loop I clmul klen (drop 24 buf) (drop 64 buf2) (len - 136) xs crcs
      else (buf, len, xs, crcs))"

declare intel_loop.simps [simp del]

definition reduce_four :: "(u64 \<Rightarrow> u64 \<Rightarrow> u128) \<Rightarrow> u128 \<times> u128 \<times> u128 \<times> u128 \<Rightarrow> u128" where
  "reduce_four clmul = (\<lambda>(x0, x1, x2, x3).
     let k = setr_epi32 0xf20c0dfe 0 0x493c7d27 0;
         x0 = fold_by clmul k x0 x1;
         x2 = fold_by clmul k x2 x3;
         k = setr_epi32 0x3da6d0cb 0 0xba4fc28e 0
     in fold_by clmul k x0 x2)"

text \<open>The branch for 144 bytes and more, and the whole function; \<open>address\<close> is where the buffer starts.\<close>

definition intel_blocks ::
    "crc_intrinsics \<Rightarrow> (u64 \<Rightarrow> u64 \<Rightarrow> u128) \<Rightarrow> byte list \<Rightarrow> nat \<Rightarrow> u32 \<Rightarrow> byte list \<times> nat \<times> u32" where
  "intel_blocks I clmul buf len crc0 =
     (let blk = (len - 8) div 136;
          klen = blk * 24;
          buf2 = buf;
          x0 = load Little buf2;
          x1 = load Little (drop 16 buf2);
          x2 = load Little (drop 32 buf2);
          x3 = load Little (drop 48 buf2);
          x0 = ucast crc0 XOR x0;
          buf2 = drop 64 buf2;
          len = len - 136;
          buf = drop (blk * 64) buf;
          (buf, len, xs, crcs) = intel_loop I clmul klen buf buf2 len (x0, x1, x2, x3) (0, 0, 0);
          x0 = reduce_four clmul xs;
          (crc0, crc1, crc2) = scalar_chunk I buf klen crcs;
          buf = drop 24 buf;
          vc0 = crc_shift I clmul crc0 (of_nat (klen * 2 + 8));
          vc1 = crc_shift I clmul crc1 (of_nat (klen + 8));
          vc = vec_lo (vc0 XOR vc1);
          vc = vc XOR vec_lo (crc_shift I clmul (crc_u64 I (crc_u64 I 0 (vec_lo x0)) (vec_hi x0))
                 (of_nat (klen * 3 + 8)));
          buf = drop (klen * 2) buf;
          crc0 = crc_u64 I crc2 (load Little buf XOR vc)
      in (drop 8 buf, len - 8, crc0))"

fun intel_align ::
    "crc_intrinsics \<Rightarrow> u64 \<Rightarrow> byte list \<Rightarrow> nat \<Rightarrow> u32 \<Rightarrow> u64 \<times> byte list \<times> nat \<times> u32" where
  "intel_align I address buf 0 crc0 = (address, buf, 0, crc0)"
| "intel_align I address buf (Suc len) crc0 =
     (if address AND 7 \<noteq> 0 then intel_align I (address + 1) (drop 1 buf) len (crc_u8 I crc0 (buf ! 0))
      else (address, buf, Suc len, crc0))"

definition crc32c_impl ::
    "crc_intrinsics \<Rightarrow> (u64 \<Rightarrow> u64 \<Rightarrow> u128) \<Rightarrow> u64 \<Rightarrow> u32 \<Rightarrow> byte list \<Rightarrow> nat \<Rightarrow> u32" where
  "crc32c_impl I clmul address crc0 buf len =
     (let crc0 = NOT crc0;
          (address, buf, len, crc0) = intel_align I address buf len crc0;
          (buf, len, crc0) = (if address AND 8 \<noteq> 0 \<and> len \<ge> 8
             then (drop 8 buf, len - 8, crc_u64 I crc0 (load Little buf)) else (buf, len, crc0));
          (buf, len, crc0) = (if len \<ge> 144 then intel_blocks I clmul buf len crc0 else (buf, len, crc0));
          (buf, len, crc0) = hardware_armv7_words I buf len crc0
      in NOT (foldl (crc_u8 I) crc0 (take len buf)))"

text \<open>
  The implementation \<open>crc32c\<close> and \<open>crc32\<close> are compiled to. The instruction-based loops take a
  \<open>uint32_t\<close> count, so the \<open>std::size_t\<close> length is converted (reduced modulo 2 to the 32) at the call.
\<close>

datatype crc_backend =
    Hardware_64 crc_intrinsics "u64 \<Rightarrow> u64 \<Rightarrow> u128" u64
  | Hardware_32 crc_intrinsics
  | Hardware_armv8 crc_intrinsics "u64 \<Rightarrow> u64 \<Rightarrow> u128"
  | Hardware_armv7 crc_intrinsics
  | Tabular endian

definition polynomial_crc32c :: u32 where "polynomial_crc32c = 0x82f63b78"
definition polynomial_crc32 :: u32 where "polynomial_crc32 = 0xEDB88320"

fun crc32c :: "crc_backend \<Rightarrow> byte list \<Rightarrow> nat \<Rightarrow> u32 \<Rightarrow> u32" where
  "crc32c (Hardware_64 I clmul address) data len remainder =
     crc32c_impl I clmul address remainder data len"
| "crc32c (Hardware_32 I) data len remainder =
     NOT (crc32c_hardware_32bit I data (word_of_nat len) (NOT remainder))"
| "crc32c (Hardware_armv8 I clmul) data len remainder =
     NOT (crc32c_hardware_armv8 I clmul data (word_of_nat len) (NOT remainder))"
| "crc32c (Hardware_armv7 I) data len remainder =
     NOT (crc32c_hardware_armv7 I data (word_of_nat len) (NOT remainder))"
| "crc32c (Tabular native) data len remainder =
     NOT (crc32c_tabular native data len (NOT remainder)
            (compute_tabular_method_tables polynomial_crc32c))"

text \<open>\<open>crc32\<close> has an instruction-based version on ARM only; the other targets use the tables.\<close>

datatype crc32_backend = Crc32_armv7 crc_intrinsics | Crc32_tabular endian

fun crc32 :: "crc32_backend \<Rightarrow> byte list \<Rightarrow> nat \<Rightarrow> u32 \<Rightarrow> u32" where
  "crc32 (Crc32_armv7 I) data len remainder =
     NOT (crc32_hardware_armv7 I data (word_of_nat len) (NOT remainder))"
| "crc32 (Crc32_tabular native) data len remainder =
     NOT (crc32c_tabular native data len (NOT remainder)
            (compute_tabular_method_tables polynomial_crc32))"

section \<open>The reference\<close>

text \<open>One byte at a time, one bit at a time.\<close>

definition crc_update :: "u32 \<Rightarrow> u32 \<Rightarrow> byte list \<Rightarrow> u32" where
  "crc_update poly R bs = foldl (\<lambda>R b. crc_bits poly 8 (R XOR ucast b)) R bs"

text \<open>What the processor manuals promise: each instruction advances the remainder over the bytes of
  its operand, least significant first.\<close>

definition intrinsics_ok :: "u32 \<Rightarrow> crc_intrinsics \<Rightarrow> bool" where
  "intrinsics_ok poly I \<longleftrightarrow>
     (\<forall>R m. crc_u8 I R m = crc_update poly R (le_bytes m)) \<and>
     (\<forall>R m. crc_u16 I R m = crc_update poly R (le_bytes m)) \<and>
     (\<forall>R m. crc_u32 I R m = crc_update poly R (le_bytes m)) \<and>
     (\<forall>R m. crc_u64 I R m = crc_update poly R (le_bytes m))"

section \<open>Linearity of the bit-wise division\<close>

declare hardware_32bit_words.simps [simp del] hardware_armv7_words.simps [simp del]

lemma crc_bits_Suc_bit:
  "crc_bits poly (Suc n) R =
     crc_bits poly n (if bit R 0 then drop_bit 1 R XOR poly else drop_bit 1 R)"
  by (simp add: and_one_eq odd_iff_mod_2_eq_one bit_0)

declare crc_bits.simps(2) [simp del]

lemma xor_cancel: "(x :: 'a::len word) XOR (x XOR y) = y"
  by (simp flip: xor.assoc)

lemmas xor_ac = xor.assoc xor.commute xor.left_commute

lemma crc_bits_xor: "crc_bits poly n (a XOR b) = crc_bits poly n a XOR crc_bits poly n b"
proof (induction n arbitrary: a b)
  case (Suc n)
  let ?A = "crc_bits poly n (drop_bit 1 a)" and ?B = "crc_bits poly n (drop_bit 1 b)"
  have "crc_bits poly n (drop_bit 1 (a XOR b)) = ?A XOR ?B"
    by (simp only: drop_bit_xor Suc.IH)
  then show ?case
    by (cases "bit a 0"; cases "bit b 0")
      (simp_all add: crc_bits_Suc_bit bit_xor_iff Suc.IH xor_ac xor_cancel del: drop_bit_xor)
qed simp

lemma crc_bits_add: "crc_bits poly (m + n) R = crc_bits poly n (crc_bits poly m R)"
  by (induction m arbitrary: R) (simp_all add: crc_bits_Suc_bit)

lemma crc_bits_0 [simp]: "crc_bits poly n 0 = 0"
  by (induction n) (simp_all add: crc_bits_Suc_bit)

text \<open>Rounds over trailing zero bits are plain shifts.\<close>

lemma crc_bits_zeros:
  assumes "\<And>j. j < n \<Longrightarrow> \<not> bit R j"
  shows "crc_bits poly n R = drop_bit n R"
  using assms
proof (induction n arbitrary: R)
  case (Suc n)
  have "crc_bits poly n (drop_bit 1 R) = drop_bit n (drop_bit 1 R)"
    using Suc.prems by (intro Suc.IH) (simp add: bit_drop_bit_eq)
  then show ?case using Suc.prems [of 0] by (simp add: crc_bits_Suc_bit)
qed simp

lemma crc_bits_shifted:
  assumes "\<And>j. j < k \<Longrightarrow> \<not> bit R j"
  shows "crc_bits poly (k + n) R = crc_bits poly n (drop_bit k R)"
  using assms by (simp add: crc_bits_add crc_bits_zeros)

lemma le_word_Cons_xor: "(le_word (b # bs) :: 'a::len word) = ucast b XOR push_bit 8 (le_word bs)"
  by (rule bit_word_eqI)
    (auto simp: bit_or_iff bit_xor_iff bit_push_bit_iff bit_unsigned_iff dest: bit_imp_le_length)

lemma crc_bits_push_8:
  assumes "length bs \<le> 3"
  shows "crc_bits poly 8 (push_bit 8 (le_word bs)) = le_word bs"
proof -
  have "drop_bit 8 (push_bit 8 (le_word bs)) = (le_word bs :: u32)"
    using assms
    by (intro bit_word_eqI) (auto simp: bit_drop_bit_eq bit_push_bit_iff bit_le_word)
  then show ?thesis by (simp add: crc_bits_zeros bit_push_bit_iff)
qed

lemma crc_update_Nil [simp]: "crc_update poly R [] = R"
  by (simp add: crc_update_def)

lemma crc_update_Cons:
  "crc_update poly R (b # bs) = crc_update poly (crc_bits poly 8 (R XOR ucast b)) bs"
  by (simp add: crc_update_def)

lemma crc_update_append:
  "crc_update poly R (as @ bs) = crc_update poly (crc_update poly R as) bs"
  by (simp add: crc_update_def)

text \<open>Up to four bytes can be fed in at once.\<close>

lemma crc_update_word:
  "length bs \<le> 4 \<Longrightarrow> crc_update poly R bs = crc_bits poly (8 * length bs) (R XOR le_word bs)"
proof (induction bs arbitrary: R)
  case (Cons b bs)
  let ?w = "le_word bs :: u32"
  have "crc_update poly R (b # bs) =
      crc_bits poly (8 * length bs) (crc_bits poly 8 (R XOR ucast b) XOR ?w)"
    using Cons by (simp add: crc_update_Cons)
  also have "crc_bits poly 8 (R XOR ucast b) XOR ?w = crc_bits poly 8 (R XOR le_word (b # bs))"
    using Cons.prems crc_bits_push_8 [of bs poly]
    by (simp only: le_word_Cons_xor crc_bits_xor xor.assoc) simp
  finally show ?case by (simp add: crc_bits_add)
qed simp

section \<open>The tables\<close>

definition table_for :: "u32 \<Rightarrow> u32 list \<Rightarrow> bool" where
  "table_for poly tbl \<longleftrightarrow>
     (\<forall>k<16. \<forall>b :: byte. tbl ! (k * 256 + unat b) = crc_bits poly (8 * Suc k) (ucast b))"

lemma table_forD:
  "table_for poly tbl \<Longrightarrow> k < 16 \<Longrightarrow> tbl ! (k * 256 + unat (b :: byte)) = crc_bits poly (8 * Suc k) (ucast b)"
  by (simp add: table_for_def)

lemma foldl_list_update:
  "n \<le> length t \<Longrightarrow>
     length (foldl (\<lambda>t i. t[i := f i]) t [0..<n]) = length t \<and>
     (\<forall>i<n. foldl (\<lambda>t i. t[i := f i]) t [0..<n] ! i = f i)"
proof (induction n)
  case (Suc n)
  then show ?case by (auto simp: nth_list_update less_Suc_eq)
qed simp

lemma byte_split: "(R :: u32) = (R AND 0xFF) XOR push_bit 8 (drop_bit 8 R)"
proof (rule bit_word_eqI)
  fix n assume "n < LENGTH(32)"
  have "bit (0xFF :: u32) n \<longleftrightarrow> n < 8"
    using bit_mask_iff [of 8 n, where 'a = "32 word"] \<open>n < LENGTH(32)\<close> by (simp add: mask_eq_exp_minus_1)
  then show "bit R n = bit ((R AND 0xFF) XOR push_bit 8 (drop_bit 8 R)) n"
    using \<open>n < LENGTH(32)\<close> by (auto simp: bit_xor_iff bit_and_iff bit_push_bit_iff bit_drop_bit_eq)
qed

lemma ucast_byte_and: "(ucast (ucast (R :: u32) :: byte) :: u32) = R AND 0xFF"
proof (rule bit_word_eqI)
  fix n assume "n < LENGTH(32)"
  have "bit (0xFF :: u32) n \<longleftrightarrow> n < 8"
    using bit_mask_iff [of 8 n, where 'a = "32 word"] \<open>n < LENGTH(32)\<close> by (simp add: mask_eq_exp_minus_1)
  then show "bit (ucast (ucast R :: byte) :: u32) n = bit (R AND 0xFF) n"
    using \<open>n < LENGTH(32)\<close> by (auto simp: bit_and_iff bit_unsigned_iff)
qed

lemma crc_bits_8: "crc_bits poly 8 R = drop_bit 8 R XOR crc_bits poly 8 (ucast (ucast R :: byte))"
proof -
  have "crc_bits poly 8 R =
      crc_bits poly 8 (R AND 0xFF) XOR crc_bits poly 8 (push_bit 8 (drop_bit 8 R))"
    by (subst byte_split) (rule crc_bits_xor)
  also have "crc_bits poly 8 (push_bit 8 (drop_bit 8 R)) = drop_bit 8 (push_bit 8 (drop_bit 8 R))"
    by (rule crc_bits_zeros) (simp add: bit_push_bit_iff)
  also have "\<dots> = drop_bit 8 R"
    by (rule bit_word_eqI) (auto simp: bit_drop_bit_eq bit_push_bit_iff dest: bit_imp_le_length)
  finally show ?thesis by (simp add: ucast_byte_and xor.commute)
qed

lemma compute_table0_nth:
  "length (compute_table0 poly) = 16 * 256 \<and>
   (\<forall>i<256. compute_table0 poly ! i = crc_bits poly 8 (word_of_nat i))"
  using foldl_list_update [of 256 "replicate (256 * 16) 0" "\<lambda>i. crc_bits poly 8 (word_of_nat i)"]
  by (simp add: compute_table0_def)

text \<open>Entry \<open>i\<close> of the finished table: the remainder of byte \<open>i mod 256\<close> followed by \<open>i div 256\<close> zero
  bytes.\<close>

definition table_entry :: "u32 \<Rightarrow> nat \<Rightarrow> u32" where
  "table_entry poly i = crc_bits poly (8 * Suc (i div 256)) (word_of_nat (i mod 256))"

lemma table_entry_step:
  assumes "256 \<le> i"
  shows "table_entry poly i =
    (let R = table_entry poly (i - 256) in drop_bit 8 R XOR table_entry poly (unat (ucast R :: byte)))"
proof -
  define R where "R = table_entry poly (i - 256)"
  have i: "i div 256 = Suc ((i - 256) div 256)" "i mod 256 = (i - 256) mod 256"
    using assms by (simp_all add: le_div_geq le_mod_geq)
  have "table_entry poly i = crc_bits poly 8 R"
    unfolding table_entry_def R_def i by (subst crc_bits_add [symmetric]) (simp add: ac_simps)
  also have "\<dots> = drop_bit 8 R XOR crc_bits poly 8 (ucast (ucast R :: byte))"
    by (rule crc_bits_8)
  also have "crc_bits poly 8 (ucast (ucast R :: byte)) = table_entry poly (unat (ucast R :: byte))"
    by (simp add: table_entry_def)
  finally show ?thesis by (simp add: R_def Let_def)
qed

lemma compute_tables_upto:
  fixes poly :: u32
  assumes "256 \<le> n" and "n \<le> 16 * 256"
  defines "tbl \<equiv> foldl (\<lambda>tbl i. let R = tbl ! (i - 256)
                   in tbl[i := drop_bit 8 R XOR tbl ! unat (ucast R :: byte)])
                 (compute_table0 poly) [256..<n]"
  shows "length tbl = 16 * 256 \<and> (\<forall>i<n. tbl ! i = table_entry poly i)"
  using assms(1,2) unfolding tbl_def
proof (induction n rule: nat_induct_at_least)
  case base
  then show ?case using compute_table0_nth by (simp add: table_entry_def)
next
  case (Suc n)
  define t where "t = foldl (\<lambda>tbl i. let R = tbl ! (i - 256)
                   in tbl[i := drop_bit 8 R XOR tbl ! unat (ucast R :: byte)])
                 (compute_table0 poly) [256..<n]"
  have t: "length t = 16 * 256" "\<And>i. i < n \<Longrightarrow> t ! i = table_entry poly i"
    using Suc unfolding t_def by simp_all
  have "unat (ucast (t ! (n - 256)) :: byte) < n"
    using unat_byte_less Suc.hyps by (rule less_le_trans)
  then have "(let R = t ! (n - 256) in drop_bit 8 R XOR t ! unat (ucast R :: byte)) = table_entry poly n"
    using Suc.hyps t(2) by (simp add: table_entry_step [of n] Let_def)
  moreover have "foldl (\<lambda>tbl i. let R = tbl ! (i - 256)
                   in tbl[i := drop_bit 8 R XOR tbl ! unat (ucast R :: byte)])
                 (compute_table0 poly) [256..<Suc n] =
      t[n := let R = t ! (n - 256) in drop_bit 8 R XOR t ! unat (ucast R :: byte)]"
    using Suc.hyps by (simp add: t_def Let_def)
  ultimately show ?case
    using Suc.prems t by (auto simp: nth_list_update less_Suc_eq)
qed

lemma compute_tables_nth:
  "i < 16 * 256 \<Longrightarrow> compute_tabular_method_tables poly ! i = table_entry poly i"
  unfolding compute_tabular_method_tables_def
  by (rule compute_tables_upto [THEN conjunct2, rule_format]) simp_all

lemma table_for_compute: "table_for poly (compute_tabular_method_tables poly)"
  unfolding table_for_def
proof (intro allI impI)
  fix k :: nat and b :: byte
  assume "k < 16"
  moreover have b: "unat b < 256" by simp
  ultimately have "k * 256 + unat b < 16 * 256" by linarith
  then show "compute_tabular_method_tables poly ! (k * 256 + unat b) =
      crc_bits poly (8 * Suc k) (ucast b)"
    using b by (simp only: compute_tables_nth) (simp add: table_entry_def)
qed

section \<open>The slicing steps\<close>

lemma bit_byte_at: "bit (byte_at R n) j \<longleftrightarrow> j < 8 \<and> bit R (n + j)"
  by (auto simp: byte_at_def bit_unsigned_iff bit_drop_bit_eq)

lemma byte_at_xor [simp]: "byte_at (a XOR b) n = byte_at a n XOR byte_at b n"
  by (rule bit_word_eqI) (simp add: bit_byte_at bit_xor_iff)

lemma crc_bits_push:
  "crc_bits poly (8 + n) (push_bit 8 (ucast (b :: byte))) = crc_bits poly n (ucast b)"
  "crc_bits poly (16 + n) (push_bit 16 (ucast (b :: byte))) = crc_bits poly n (ucast b)"
  "crc_bits poly (24 + n) (push_bit 24 (ucast (b :: byte))) = crc_bits poly n (ucast b)"
proof -
  have "crc_bits poly (k + n) (push_bit k (ucast b)) = crc_bits poly n (ucast b)" if "k \<le> 24" for k
  proof -
    have "drop_bit k (push_bit k (ucast b)) = (ucast b :: u32)"
      using that
      by (intro bit_word_eqI)
        (auto simp: bit_drop_bit_eq bit_push_bit_iff bit_unsigned_iff dest: bit_imp_le_length)
    then show ?thesis by (simp add: crc_bits_shifted bit_push_bit_iff)
  qed
  from this [of 8] this [of 16] this [of 24]
  show "crc_bits poly (8 + n) (push_bit 8 (ucast b)) = crc_bits poly n (ucast b)"
    "crc_bits poly (16 + n) (push_bit 16 (ucast b)) = crc_bits poly n (ucast b)"
    "crc_bits poly (24 + n) (push_bit 24 (ucast b)) = crc_bits poly n (ucast b)" by simp_all
qed

lemma word_bytes:
  "(R :: u32) = push_bit 24 (ucast (byte_at R 24)) XOR (push_bit 16 (ucast (byte_at R 16)) XOR
     (push_bit 8 (ucast (byte_at R 8)) XOR ucast (byte_at R 0)))" (is "R = ?bytes")
proof (rule bit_word_eqI)
  fix n assume "n < LENGTH(32)"
  then consider "n < 8" | "8 \<le> n" "n < 16" | "16 \<le> n" "n < 24" | "24 \<le> n" "n < 32" by fastforce
  then show "bit R n = bit ?bytes n"
    by cases (auto simp: bit_xor_iff bit_push_bit_iff bit_unsigned_iff bit_byte_at)
qed

text \<open>Four table lookups advance four bytes of the remainder and \<open>k\<close> zero bytes more.\<close>

lemma slice_correct:
  assumes "table_for poly tbl" and "k + 4 \<le> 16"
  shows "tbl ! (k * 256 + unat (byte_at R 24)) XOR tbl ! ((k + 1) * 256 + unat (byte_at R 16)) XOR
         tbl ! ((k + 2) * 256 + unat (byte_at R 8)) XOR tbl ! ((k + 3) * 256 + unat (byte_at R 0)) =
         crc_bits poly (32 + 8 * k) R"
proof -
  have "crc_bits poly (32 + 8 * k) R =
      crc_bits poly (24 + (8 + 8 * k)) (push_bit 24 (ucast (byte_at R 24))) XOR
     (crc_bits poly (16 + (16 + 8 * k)) (push_bit 16 (ucast (byte_at R 16))) XOR
     (crc_bits poly (8 + (24 + 8 * k)) (push_bit 8 (ucast (byte_at R 8))) XOR
      crc_bits poly (32 + 8 * k) (ucast (byte_at R 0))))"
    by (subst word_bytes) (simp add: crc_bits_xor)
  also have "\<dots> = crc_bits poly (8 * Suc k) (ucast (byte_at R 24)) XOR
     (crc_bits poly (8 * Suc (k + 1)) (ucast (byte_at R 16)) XOR
     (crc_bits poly (8 * Suc (k + 2)) (ucast (byte_at R 8)) XOR
      crc_bits poly (8 * Suc (k + 3)) (ucast (byte_at R 0))))"
    unfolding crc_bits_push by (simp add: algebra_simps)
  finally show ?thesis
    using assms by (simp only: table_forD xor.assoc)
qed

lemma load_Little:
  "(load Little M :: byte) = le_word (take 1 M)"
  "(load Little M :: u16) = le_word (take 2 M)"
  "(load Little M :: u32) = le_word (take 4 M)"
  "(load Little M :: u64) = le_word (take 8 M)"
  by (simp_all add: load_def bit_cast_word_def)

lemma byte_at_le_bytes:
  "byte_at R 0 = le_bytes R ! 0" "byte_at R 8 = le_bytes R ! 1"
  "byte_at R 16 = le_bytes R ! 2" "byte_at R 24 = le_bytes R ! 3"
  by (simp_all add: byte_at_def le_bytes_def)

text \<open>A big-endian machine loads the mirrored word, and swaps the remainder to match.\<close>

lemma byte_at_byteswap [simp]:
  "byte_at (byteswap native R) 0 = byte_at R 24" "byte_at (byteswap native R) 8 = byte_at R 16"
  "byte_at (byteswap native R) 16 = byte_at R 8" "byte_at (byteswap native R) 24 = byte_at R 0"
  by (simp_all add: byte_at_le_bytes le_bytes_byteswap rev_nth)

lemma load_Big: "4 \<le> length M \<Longrightarrow> (load Big M :: u32) = byteswap Big (load Little M :: u32)"
  by (simp add: load_def bit_cast_word_def byteswap_le le_bytes_le_word)

lemma byte_at_load_Big [simp]:
  assumes "4 \<le> length M"
  shows "byte_at (load Big M) 0 = byte_at (load Little M) 24"
    "byte_at (load Big M) 8 = byte_at (load Little M) 16"
    "byte_at (load Big M) 16 = byte_at (load Little M) 8"
    "byte_at (load Big M) 24 = byte_at (load Little M) 0"
  using assms by (simp_all add: load_Big)

lemma tabular_4_step_correct:
  assumes "table_for poly tbl" and "4 \<le> length M"
  shows "tabular_4_step native tbl R (load native M) = crc_update poly R (take 4 M)"
proof -
  have "tabular_4_step native tbl R (load native M) = crc_bits poly 32 (R XOR load Little M)"
    using slice_correct [OF assms(1), of 0 "R XOR load Little M"] assms(2)
    by (cases native) (simp_all add: tabular_4_step_def Let_def xor.commute [of _ "byte_at R _"])
  then show ?thesis using assms(2) by (simp add: crc_update_word load_Little)
qed

lemma slices:
  assumes "table_for poly tbl"
  shows "crc_bits poly 32 R = tbl ! (0 * 256 + unat (byte_at R 24)) XOR tbl ! (1 * 256 + unat (byte_at R 16)) XOR
      tbl ! (2 * 256 + unat (byte_at R 8)) XOR tbl ! (3 * 256 + unat (byte_at R 0))"
    "crc_bits poly 64 R = tbl ! (4 * 256 + unat (byte_at R 24)) XOR tbl ! (5 * 256 + unat (byte_at R 16)) XOR
      tbl ! (6 * 256 + unat (byte_at R 8)) XOR tbl ! (7 * 256 + unat (byte_at R 0))"
    "crc_bits poly 96 R = tbl ! (8 * 256 + unat (byte_at R 24)) XOR tbl ! (9 * 256 + unat (byte_at R 16)) XOR
      tbl ! (10 * 256 + unat (byte_at R 8)) XOR tbl ! (11 * 256 + unat (byte_at R 0))"
    "crc_bits poly 128 R = tbl ! (12 * 256 + unat (byte_at R 24)) XOR tbl ! (13 * 256 + unat (byte_at R 16)) XOR
      tbl ! (14 * 256 + unat (byte_at R 8)) XOR tbl ! (15 * 256 + unat (byte_at R 0))"
  using slice_correct [OF assms, of 0 R] slice_correct [OF assms, of 4 R]
    slice_correct [OF assms, of 8 R] slice_correct [OF assms, of 12 R]
  by simp_all

lemma tabular_8_step_correct:
  assumes "table_for poly tbl" and "8 \<le> length M"
  shows "tabular_8_step native tbl R (load native M) (load native (drop 4 M)) =
         crc_update poly R (take 8 M)"
proof -
  have "tabular_8_step native tbl R (load native M) (load native (drop 4 M)) =
      crc_bits poly 32 (load Little (drop 4 M)) XOR crc_bits poly 64 (R XOR load Little M)"
    unfolding slices [OF assms(1)] using assms(2)
    by (cases native)
      (simp_all add: tabular_8_step_def Let_def xor.commute [of _ "byte_at R _"] xor.assoc)
  moreover have "take 8 M = take 4 M @ take 4 (drop 4 M)" using take_add [of 4 4 M] by simp
  ultimately show ?thesis
    using assms(2) crc_bits_add [of poly 32 32]
    by (simp add: crc_update_append crc_update_word load_Little crc_bits_xor xor.commute)
qed

lemma tabular_16_step_correct:
  assumes "table_for poly tbl" and "16 \<le> length M"
  shows "tabular_16_step native tbl R (load native M) (load native (drop 4 M))
           (load native (drop 8 M)) (load native (drop 12 M)) = crc_update poly R (take 16 M)"
proof -
  have "tabular_16_step native tbl R (load native M) (load native (drop 4 M))
           (load native (drop 8 M)) (load native (drop 12 M)) =
      crc_bits poly 32 (load Little (drop 12 M)) XOR (crc_bits poly 64 (load Little (drop 8 M)) XOR
     (crc_bits poly 96 (load Little (drop 4 M)) XOR crc_bits poly 128 (R XOR load Little M)))"
    unfolding slices [OF assms(1)] using assms(2)
    by (cases native)
      (simp_all add: tabular_16_step_def Let_def xor.commute [of _ "byte_at R _"] xor.assoc)
  moreover have "take 16 M = take 4 M @ take 4 (drop 4 M) @ take 4 (drop 8 M) @ take 4 (drop 12 M)"
    using take_add [of 4 12 M] take_add [of 4 8 "drop 4 M"] take_add [of 4 4 "drop 8 M"] by simp
  ultimately show ?thesis
    using assms(2) crc_bits_add [of poly 32 32] crc_bits_add [of poly 64 32]
      crc_bits_add [of poly 96 32]
    by (simp add: crc_update_append crc_update_word load_Little crc_bits_xor xor_ac)
qed

lemma tabular_1_step:
  assumes "table_for poly tbl"
  shows "drop_bit 8 R XOR tbl ! unat ((R XOR ucast (b :: byte)) AND 0xFF) = crc_bits poly 8 (R XOR ucast b)"
proof -
  have "unat (ucast (x :: byte) :: u32) = unat x" for x
    using less_trans [OF unat_byte_less [of x], of "2 ^ 32"]
    by (simp add: unsigned_ucast_eq take_bit_nat_eq_self)
  from this [of "ucast (R XOR ucast b)"]
  have "unat ((R XOR ucast b) AND 0xFF) = unat (ucast (R XOR ucast b) :: byte)"
    by (simp only: ucast_byte_and)
  moreover have "drop_bit 8 (R XOR ucast b) = drop_bit 8 R"
    by (rule bit_word_eqI) (auto simp: bit_drop_bit_eq bit_xor_iff bit_unsigned_iff dest: bit_imp_le_length)
  ultimately show ?thesis
    using table_forD [OF assms, of 0 "ucast (R XOR ucast b)"] crc_bits_8 [of poly "R XOR ucast b"]
    by simp
qed

lemma crc32_tabular_1_byte_correct:
  assumes "table_for poly tbl"
  shows "crc32_tabular_1_byte M n R tbl = crc_update poly R (take n M)"
  by (simp add: crc32_tabular_1_byte_def crc_update_def tabular_1_step [OF assms])

lemma crc_bits_16:
  "crc_bits poly 16 R = drop_bit 16 R XOR (crc_bits poly 8 (ucast (byte_at R 8)) XOR
     crc_bits poly 16 (ucast (byte_at R 0)))"
proof -
  have R: "R = push_bit 16 (drop_bit 16 R) XOR (push_bit 8 (ucast (byte_at R 8)) XOR
      ucast (byte_at R 0))" (is "_ = ?parts")
  proof (rule bit_word_eqI)
    fix n assume "n < LENGTH(32)"
    then consider "n < 8" | "8 \<le> n" "n < 16" | "16 \<le> n" "n < 32" by fastforce
    then show "bit R n = bit ?parts n"
      by cases (auto simp: bit_xor_iff bit_push_bit_iff bit_unsigned_iff bit_byte_at bit_drop_bit_eq)
  qed
  have "drop_bit 16 (push_bit 16 (drop_bit 16 R)) = drop_bit 16 R"
    by (rule bit_word_eqI) (auto simp: bit_drop_bit_eq bit_push_bit_iff dest: bit_imp_le_length)
  then have "crc_bits poly 16 (push_bit 16 (drop_bit 16 R)) = drop_bit 16 R"
    by (simp add: crc_bits_zeros bit_push_bit_iff)
  then show ?thesis
    using crc_bits_push(1) [of poly 8] by (subst R) (simp add: crc_bits_xor)
qed

lemma tabular_2_step_correct:
  assumes "table_for poly tbl" and "2 \<le> length M"
  shows "tabular_2_step Little tbl R (load Little M) = crc_update poly R (take 2 M)"
proof -
  let ?w = "le_word (take 2 M) :: u16"
  have w: "(ucast ?w :: u32) = le_word (take 2 M)"
    by (rule bit_word_eqI) (use assms(2) in \<open>auto simp: bit_unsigned_iff bit_le_word dest: bit_imp_le_length\<close>)
  have "tabular_2_step Little tbl R (load Little M) = crc_bits poly 16 (R XOR le_word (take 2 M))"
    using table_forD [OF assms(1), of 0 "byte_at (R XOR ucast ?w) 8"]
      table_forD [OF assms(1), of 1 "byte_at (R XOR ucast ?w) 0"]
      crc_bits_16 [of poly "R XOR ucast ?w"]
    by (simp add: tabular_2_step_def Let_def load_Little w xor.assoc del: byte_at_xor)
  then show ?thesis using assms(2) by (simp add: crc_update_word)
qed

text \<open>A counted loop over chunks of \<open>c\<close> bytes.\<close>

lemma chunk_loop:
  assumes "\<And>R M. c \<le> length M \<Longrightarrow> step R M = crc_update poly R (take c M)"
  shows "c * n \<le> length M \<Longrightarrow>
    foldl (\<lambda>R i. step R (drop (c * i) M)) R [0..<n] = crc_update poly R (take (c * n) M)"
proof (induction n)
  case (Suc n)
  then show ?case
    using take_add [of "c * n" c M]
    by (simp add: assms crc_update_append add.commute)
qed simp

lemma crc_rest:
  assumes "m \<le> n"
  shows "crc_update poly (crc_update poly R (take m M)) (take (n - m) (drop m M)) =
         crc_update poly R (take n M)"
  using take_add [of m "n - m" M] assms by (simp flip: crc_update_append)

lemma crc32_tabular_2_bytes_correct:
  assumes "table_for poly tbl" and "n \<le> length M" and "native = Little \<or> n < 2"
  shows "crc32_tabular_2_bytes native M n R tbl = crc_update poly R (take n M)"
proof (cases "n < 2")
  case True
  then show ?thesis
    by (simp add: crc32_tabular_2_bytes_def crc32_tabular_1_byte_correct [OF assms(1)])
next
  case False
  have le: "2 * (n div 2) \<le> n" by simp
  then have "2 * (n div 2) \<le> length M" using assms(2) by (rule order_trans)
  note loop = chunk_loop [of 2 "\<lambda>R M. tabular_2_step Little tbl R (load Little M)" poly,
      OF tabular_2_step_correct [OF assms(1)] this]
  with assms False show ?thesis
    by (simp add: crc32_tabular_2_bytes_def Let_def crc32_tabular_1_byte_correct [OF assms(1)]
        loop crc_rest [OF le])
qed

text \<open>The lengths whose two-byte tail is not left to the big-endian branch of the two-byte step.\<close>

definition exact_length :: "endian \<Rightarrow> nat \<Rightarrow> bool" where
  "exact_length native n \<longleftrightarrow> native = Little \<or> n mod 4 < 2"

lemma exact_length_drop: "c mod 4 = 0 \<Longrightarrow> c \<le> n \<Longrightarrow> exact_length native n \<Longrightarrow> exact_length native (n - c)"
proof -
  assume c: "c mod 4 = 0" "c \<le> n" and exact: "exact_length native n"
  from c have "n mod 4 = ((n - c) + 4 * (c div 4)) mod 4" by (simp add: minus_mod_eq_mult_div [symmetric])
  also have "\<dots> = (n - c) mod 4" by (rule mod_mult_self2)
  finally show ?thesis using exact by (simp add: exact_length_def)
qed

lemma crc32_tabular_4_bytes_correct:
  assumes "table_for poly tbl" and "n \<le> length M" and "exact_length native n"
  shows "crc32_tabular_4_bytes native M n R tbl = crc_update poly R (take n M)"
proof -
  have le: "4 * (n div 4) \<le> n" by simp
  then have "4 * (n div 4) \<le> length M" using assms(2) by (rule order_trans)
  note loop = chunk_loop [of 4 "\<lambda>R M. tabular_4_step native tbl R (load native M)" poly,
      OF tabular_4_step_correct [OF assms(1)] this]
  have "n - 4 * (n div 4) = n mod 4" by (simp add: minus_mult_div_eq_mod)
  then have "native = Little \<or> n - 4 * (n div 4) < 2" using assms(3) by (auto simp: exact_length_def)
  with assms le show ?thesis
    by (simp add: crc32_tabular_4_bytes_def Let_def crc32_tabular_2_bytes_correct [OF assms(1)]
        loop crc_rest [OF le])
qed

lemma crc32_tabular_8_bytes_correct:
  assumes "table_for poly tbl"
  shows "n \<le> length M \<Longrightarrow> exact_length native n \<Longrightarrow>
    crc32_tabular_8_bytes native M n R tbl = crc_update poly R (take n M)"
proof (induction n arbitrary: M R rule: less_induct)
  case (less n)
  show ?case
  proof (cases "8 \<le> n")
    case True
    have "exact_length native (n - 8)" by (rule exact_length_drop [OF _ True less.prems(2)]) simp
    with True less show ?thesis
      by (subst crc32_tabular_8_bytes.simps)
        (simp add: tabular_8_step_correct [OF assms] crc_rest [OF True])
  next
    case False
    with less show ?thesis
      by (subst crc32_tabular_8_bytes.simps) (simp add: crc32_tabular_4_bytes_correct [OF assms])
  qed
qed

lemma crc32_tabular_16_bytes_correct:
  assumes "table_for poly tbl"
  shows "n \<le> length M \<Longrightarrow> exact_length native n \<Longrightarrow>
    crc32_tabular_16_bytes native M n R tbl = crc_update poly R (take n M)"
proof (induction n arbitrary: M R rule: less_induct)
  case (less n)
  show ?case
  proof (cases "16 \<le> n")
    case True
    have "exact_length native (n - 16)" by (rule exact_length_drop [OF _ True less.prems(2)]) simp
    with True less show ?thesis
      by (subst crc32_tabular_16_bytes.simps)
        (simp add: tabular_16_step_correct [OF assms] crc_rest [OF True])
  next
    case False
    with less show ?thesis
      by (subst crc32_tabular_16_bytes.simps) (simp add: crc32_tabular_8_bytes_correct [OF assms])
  qed
qed

lemma crc32c_tabular_update:
  assumes "table_for poly tbl" and "n \<le> length M" and "exact_length native n"
  shows "crc32c_tabular native M n R tbl = crc_update poly R (take n M)"
  using assms
  by (auto simp: crc32c_tabular_def crc32_tabular_16_bytes_correct crc32_tabular_8_bytes_correct
      crc32_tabular_4_bytes_correct crc32_tabular_1_byte_correct exact_length_def
      intro: crc32_tabular_2_bytes_correct)

section \<open>The instruction-based loops\<close>

text \<open>
  Every step of the loops moves bytes from the pending message into the remainder and leaves the
  final value unchanged.
\<close>

definition pending :: "u32 \<Rightarrow> u32 \<Rightarrow> byte list \<times> nat \<times> u32 \<Rightarrow> bool" where
  "pending poly r = (\<lambda>(M, n, R). n \<le> length M \<and> crc_update poly R (take n M) = r)"

lemma pending_step:
  assumes "pending poly r (M, n, R)" and "c \<le> n" and "R' = crc_update poly R (take c M)"
  shows "pending poly r (drop c M, n - c, R')"
  using assms crc_rest [of c n poly R M] by (auto simp: pending_def)

lemma intrinsics_load:
  assumes "intrinsics_ok poly I"
  shows "2 \<le> length M \<Longrightarrow> crc_u16 I R (load Little M) = crc_update poly R (take 2 M)"
    "4 \<le> length M \<Longrightarrow> crc_u32 I R (load Little M) = crc_update poly R (take 4 M)"
    "8 \<le> length M \<Longrightarrow> crc_u64 I R (load Little M) = crc_update poly R (take 8 M)"
  using assms by (simp_all add: intrinsics_ok_def load_Little le_bytes_le_word)

lemma pending_u16:
  assumes "intrinsics_ok poly I" and "pending poly r (M, n, R)" and "2 \<le> n"
  shows "pending poly r (drop 2 M, n - 2, crc_u16 I R (load Little M))"
  using assms by (intro pending_step) (auto simp: intrinsics_load pending_def)

lemma pending_u32:
  assumes "intrinsics_ok poly I" and "pending poly r (M, n, R)" and "4 \<le> n"
  shows "pending poly r (drop 4 M, n - 4, crc_u32 I R (load Little M))"
  using assms by (intro pending_step) (auto simp: intrinsics_load pending_def)

lemma pending_u64:
  assumes "intrinsics_ok poly I" and "pending poly r (M, n, R)" and "8 \<le> n"
  shows "pending poly r (drop 8 M, n - 8, crc_u64 I R (load Little M))"
  using assms by (intro pending_step) (auto simp: intrinsics_load pending_def)

lemma pending_u8:
  assumes "intrinsics_ok poly I" and "pending poly r (M, n, R)" and "n < 2"
  shows "(if n = 1 then crc_u8 I R (M ! 0) else R) = r"
  using assms
  by (cases M) (auto simp: intrinsics_ok_def pending_def le_bytes_def less_2_cases_iff)

lemma hardware_32bit_words_pending:
  assumes "intrinsics_ok poly I"
  shows "pending poly r (M, n, R) \<Longrightarrow> pending poly r (hardware_32bit_words I M n R) \<and>
    fst (snd (hardware_32bit_words I M n R)) < 4"
proof (induction n arbitrary: M R rule: less_induct)
  case (less n)
  then show ?case
    using pending_u32 [OF assms] by (subst (1 2) hardware_32bit_words.simps) auto
qed

lemma hardware_armv7_words_pending:
  assumes "intrinsics_ok poly I"
  shows "pending poly r (M, n, R) \<Longrightarrow> pending poly r (hardware_armv7_words I M n R) \<and>
    fst (snd (hardware_armv7_words I M n R)) < 8"
proof (induction n arbitrary: M R rule: less_induct)
  case (less n)
  then show ?case
    using pending_u64 [OF assms] by (subst (1 2) hardware_armv7_words.simps) auto
qed

lemma crc32c_hardware_32bit_update:
  assumes "intrinsics_ok poly I" and "unat n \<le> length M"
  shows "crc32c_hardware_32bit I M n R = crc_update poly R (take (unat n) M)"
proof -
  let ?r = "crc_update poly R (take (unat n) M)"
  obtain M' n' R' where w: "hardware_32bit_words I M (unat n) R = (M', n', R')" by (rule prod_cases3)
  then have 1: "pending poly ?r (M', n', R')" "n' < 4"
    using hardware_32bit_words_pending [OF assms(1), of ?r M "unat n" R] assms(2)
    by (simp_all add: pending_def)
  then show ?thesis
    using pending_u16 [OF assms(1) 1(1)] pending_u8 [OF assms(1)]
    by (simp add: crc32c_hardware_32bit_def w)
qed

lemma crc32c_hardware_armv7_update:
  assumes "intrinsics_ok poly I" and "unat n \<le> length M"
  shows "crc32c_hardware_armv7 I M n R = crc_update poly R (take (unat n) M)"
proof -
  let ?r = "crc_update poly R (take (unat n) M)"
  obtain M1 n1 R1 where w: "hardware_armv7_words I M (unat n) R = (M1, n1, R1)" by (rule prod_cases3)
  then have 1: "pending poly ?r (M1, n1, R1)" "n1 < 8"
    using hardware_armv7_words_pending [OF assms(1), of ?r M "unat n" R] assms(2)
    by (simp_all add: pending_def)
  obtain M2 n2 R2 where
    w2: "(if n1 \<ge> 4 then (drop 4 M1, n1 - 4, crc_u32 I R1 (load Little M1)) else (M1, n1, R1)) = (M2, n2, R2)"
    by (rule prod_cases3)
  with 1 have 2: "pending poly ?r (M2, n2, R2)" "n2 < 4"
    using pending_u32 [OF assms(1) 1(1)] by (auto split: if_splits)
  then show ?thesis
    using pending_u16 [OF assms(1) 2(1)] pending_u8 [OF assms(1)]
    by (simp add: crc32c_hardware_armv7_def w w2)
qed

lemma crc32_hardware_armv7_eq: "crc32_hardware_armv7 = crc32c_hardware_armv7"
  by (intro ext) (simp add: crc32_hardware_armv7_def crc32c_hardware_armv7_def)

section \<open>Error detection\<close>

text \<open>A polynomial with its top coefficient set loses nothing: a round is injective.\<close>

lemma crc_bits_eq_0: "bit poly 31 \<Longrightarrow> crc_bits poly n R = 0 \<longleftrightarrow> R = 0"
proof (induction n arbitrary: R)
  case (Suc n)
  have "drop_bit 1 R XOR poly \<noteq> 0"
  proof
    assume "drop_bit 1 R XOR poly = 0"
    then have "\<not> bit (drop_bit 1 R XOR poly) 31" by simp
    with Suc.prems show False by (auto simp: bit_xor_iff bit_drop_bit_eq dest: bit_imp_le_length)
  qed
  moreover have "drop_bit 1 R = 0 \<longleftrightarrow> R = 0" if "\<not> bit R 0"
  proof
    assume "drop_bit 1 R = 0"
    then have d: "\<not> bit (drop_bit 1 R) n" for n by simp
    have "\<not> bit R n" for n using that d [of "n - 1"] by (cases n) (simp_all only: bit_drop_bit_eq comp_def diff_Suc_1 plus_1_eq_Suc simp_thms)
    then show "R = 0" by (intro bit_word_eqI) simp
  qed simp
  ultimately show ?case
    unfolding crc_bits_Suc_bit Suc.IH [OF Suc.prems] by (cases "bit R 0") (auto simp: bit_0)
qed simp

lemma word_xor_eq_0_iff: "(x :: 'a::len word) XOR y = 0 \<longleftrightarrow> x = y"
  by (metis xor.left_neutral xor.right_neutral xor_cancel xor_self_eq)

lemma crc_bits_inject: "bit poly 31 \<Longrightarrow> crc_bits poly n R = crc_bits poly n R' \<longleftrightarrow> R = R'"
  using crc_bits_eq_0 [of poly n "R XOR R'"] by (simp add: crc_bits_xor word_xor_eq_0_iff)

lemma crc_update_inject: "bit poly 31 \<Longrightarrow> crc_update poly R bs = crc_update poly R' bs \<longleftrightarrow> R = R'"
proof (induction bs arbitrary: R R')
  case (Cons b bs)
  have "R XOR ucast b = R' XOR ucast b \<longleftrightarrow> R = R'"
    by (metis xor.commute xor_cancel)
  with Cons show ?case by (simp add: crc_update_Cons crc_bits_inject)
qed simp

lemma le_word_inject:
  assumes "length xs = length ys" and "length xs \<le> 4" and "(le_word xs :: u32) = le_word ys"
  shows "xs = ys"
proof (rule nth_equalityI)
  fix i assume i: "i < length xs"
  show "xs ! i = ys ! i"
  proof (rule bit_word_eqI)
    fix n assume n: "n < LENGTH(8)"
    have "bit (le_word xs :: u32) (8 * i + n) = bit (le_word ys :: u32) (8 * i + n)"
      by (simp add: assms(3))
    with i n assms(1,2) show "bit (xs ! i) n = bit (ys ! i) n" by (simp add: bit_le_word)
  qed
qed (rule assms(1))

lemma crc_update_burst:
  assumes "bit poly 31" and "length xs = length ys" and "length xs \<le> 4" and "xs \<noteq> ys"
  shows "crc_update poly R (as @ xs @ bs) \<noteq> crc_update poly R (as @ ys @ bs)"
proof
  assume "crc_update poly R (as @ xs @ bs) = crc_update poly R (as @ ys @ bs)"
  then have "crc_update poly R as XOR le_word xs = crc_update poly R as XOR le_word ys"
    using assms(1-3) by (simp add: crc_update_append crc_update_inject crc_update_word crc_bits_inject)
  then have "le_word xs = (le_word ys :: u32)" by (metis xor_cancel)
  with assms(2-4) show False using le_word_inject by blast
qed

lemma polynomials_top [simp]: "bit polynomial_crc32c 31" "bit polynomial_crc32 31"
  by (simp_all add: polynomial_crc32c_def polynomial_crc32_def)

section \<open>Properties\<close>

lemma crc32c_Tabular:
  "n \<le> length M \<Longrightarrow> exact_length native n \<Longrightarrow>
     crc32c (Tabular native) M n r = NOT (crc_update polynomial_crc32c (NOT r) (take n M))"
  by (simp add: crc32c_tabular_update [OF table_for_compute])

lemma crc32_tabular_version:
  "n \<le> length M \<Longrightarrow> exact_length native n \<Longrightarrow>
     crc32 (Crc32_tabular native) M n r = NOT (crc_update polynomial_crc32 (NOT r) (take n M))"
  by (simp add: crc32c_tabular_update [OF table_for_compute])

lemma crc32c_hardware:
  assumes "intrinsics_ok polynomial_crc32c I" and "n \<le> length M" and "n < 2 ^ 32"
  shows "crc32c (Hardware_32 I) M n r = NOT (crc_update polynomial_crc32c (NOT r) (take n M))"
    "crc32c (Hardware_armv7 I) M n r = NOT (crc_update polynomial_crc32c (NOT r) (take n M))"
proof -
  have "unat (word_of_nat n :: u32) = n" using assms(3) by (simp add: unat_of_nat)
  with assms(1,2) show "crc32c (Hardware_32 I) M n r = NOT (crc_update polynomial_crc32c (NOT r) (take n M))"
    "crc32c (Hardware_armv7 I) M n r = NOT (crc_update polynomial_crc32c (NOT r) (take n M))"
    by (simp_all add: crc32c_hardware_32bit_update crc32c_hardware_armv7_update)
qed

lemma crc_bits_numeral:
  "crc_bits poly (numeral k) R =
     crc_bits poly (pred_numeral k) (if R AND 1 \<noteq> 0 then drop_bit 1 R XOR poly else drop_bit 1 R)"
  by (simp add: numeral_eq_Suc crc_bits.simps(2))

lemmas crc_eval = crc_bits_numeral crc_bits.simps crc_update_def polynomial_crc32c_def polynomial_crc32_def

lemma word_not_inject: "(NOT x :: 'a::len word) = NOT y \<longleftrightarrow> x = y"
  by (metis bit.double_compl)

declare crc32c.simps [simp del] crc32.simps [simp del]

lemma exact_length_Little [simp]: "exact_length Little n"
  by (simp add: exact_length_def)

text \<open>
  C5: The slicing-by-16 table implementation of CRC-32C computes the bit-by-bit polynomial division,
  for every message and every starting remainder, on a little-endian machine, and on a big-endian one
  for the lengths whose remainder modulo 4 is 0 or 1.
\<close>

theorem crc32c_tabular_correct:
  assumes "length_used \<le> length data" and "native = Little \<or> length_used mod 4 < 2"
  shows "crc32c (Tabular native) data length_used remainder =
         NOT (crc_update polynomial_crc32c (NOT remainder) (take length_used data))"
  by (rule crc32c_Tabular) (use assms in \<open>simp_all add: exact_length_def\<close>)

text \<open>The checks of the library's own test file for one, two and four bytes.\<close>

lemma crc32c_tabular_correct_witness:
  "crc32c (Tabular Little) [0x31] 1 0 = 0x90F599E3 \<and>
   crc32c (Tabular Little) [0x31, 0x32] 2 0 = 0x7355C460 \<and>
   crc32c (Tabular Big) [0x31, 0x32, 0x33, 0x34] 4 0 = 0xF63AF4EE"
proof -
  have "crc32c (Tabular Little) [0x31] 1 0 =
      NOT (crc_update polynomial_crc32c (NOT 0) (take 1 [0x31]))"
    by (rule crc32c_tabular_correct) simp_all
  moreover have "crc32c (Tabular Little) [0x31, 0x32] 2 0 =
      NOT (crc_update polynomial_crc32c (NOT 0) (take 2 [0x31, 0x32]))"
    by (rule crc32c_tabular_correct) simp_all
  moreover have "crc32c (Tabular Big) [0x31, 0x32, 0x33, 0x34] 4 0 =
      NOT (crc_update polynomial_crc32c (NOT 0) (take 4 [0x31, 0x32, 0x33, 0x34]))"
    by (rule crc32c_tabular_correct) simp_all
  ultimately show ?thesis by (simp add: crc_eval)
qed

text \<open>Instructions computed bit by bit satisfy what is assumed of the processor.\<close>

definition software_intrinsics :: "u32 \<Rightarrow> crc_intrinsics" where
  "software_intrinsics poly =
     \<lparr>crc_u8 = \<lambda>R m. crc_update poly R (le_bytes m), crc_u16 = \<lambda>R m. crc_update poly R (le_bytes m),
      crc_u32 = \<lambda>R m. crc_update poly R (le_bytes m), crc_u64 = \<lambda>R m. crc_update poly R (le_bytes m)\<rparr>"

lemma software_intrinsics_ok: "intrinsics_ok poly (software_intrinsics poly)"
  by (simp add: intrinsics_ok_def software_intrinsics_def)

text \<open>
  Checksums compose: passing the checksum of a first part as the starting remainder of the
  second gives the checksum of the whole message, for CRC-32C and CRC-32, wherever the cut is.
\<close>

theorem crc_incremental:
  "crc32c (Tabular Little) (first @ second) (length (first @ second)) remainder =
     crc32c (Tabular Little) second (length second)
       (crc32c (Tabular Little) first (length first) remainder) \<and>
   crc32 (Crc32_tabular Little) (first @ second) (length (first @ second)) remainder =
     crc32 (Crc32_tabular Little) second (length second)
       (crc32 (Crc32_tabular Little) first (length first) remainder)"
  by (simp add: crc32c_Tabular crc32_tabular_version crc_update_append)

text \<open>
  C36: Any corruption confined to four consecutive bytes changes both checksums.
\<close>

theorem crc_detects_burst:
  assumes "length sent = length received" and "length sent \<le> 4" and "sent \<noteq> received"
    and "len = length (before @ sent @ after)"
  shows "crc32c (Tabular Little) (before @ sent @ after) len r \<noteq>
           crc32c (Tabular Little) (before @ received @ after) len r \<and>
         crc32 (Crc32_tabular Little) (before @ sent @ after) len r \<noteq>
           crc32 (Crc32_tabular Little) (before @ received @ after) len r"
  using assms
  by (simp add: crc32c_Tabular crc32_tabular_version word_not_inject
      crc_update_burst [of _ sent received])

lemma crc_detects_burst_witness:
  "crc32c (Tabular Little) [1, 2, 3, 4, 5, 6] 6 0 \<noteq> crc32c (Tabular Little) [1, 9, 3, 4, 7, 6] 6 0"
  using crc_detects_burst [of "[2, 3, 4, 5]" "[9, 3, 4, 7]" 6 "[1]" "[6]" 0] by simp

section \<open>Where the code differs from what it means to do\<close>

lemma table_two:
  "compute_tabular_method_tables poly ! (0 * 256 + unat b) = crc_bits poly 8 (ucast (b :: byte))"
  "compute_tabular_method_tables poly ! (1 * 256 + unat b) = crc_bits poly 16 (ucast (b :: byte))"
  using table_forD [OF table_for_compute, of 0 poly b] table_forD [OF table_for_compute, of 1 poly b]
  by simp_all

lemma byteswap_minus_1: "byteswap Big (-1 :: u32) = -1"
proof (rule bit_word_eqI)
  fix n assume n: "n < LENGTH(32)"
  then have "n div 8 < 4" by (simp add: less_mult_imp_div_less)
  with n show "bit (byteswap Big (-1 :: u32)) n = bit (-1 :: u32) n"
    by (simp add: byteswap_le bit_le_word rev_nth bit_le_bytes)
qed

text \<open>
  The big-endian branch of the two-byte step drops \<open>R >> 16\<close> and folds the message into the wrong half
  of the swapped remainder: on such a machine a two-byte message gets another checksum.
\<close>

lemma crc32c_big_endian_two_bytes:
  "crc32c (Tabular Big) [0x31, 0x32] 2 0 \<noteq> crc32c (Tabular Little) [0x31, 0x32] 2 0"
proof -
  let ?tbl = "compute_tabular_method_tables polynomial_crc32c"
  have load: "load Big [0x31, 0x32] = (0x3132 :: u16)" by (simp add: load_def bit_cast_word_def)
  have bytes: "ucast (0x3132 :: u16) XOR -1 = (- 12595 :: u32)"
    "byte_at (- 12595) 0 = 0xCD" "byte_at (- 12595) 8 = 0xCE" by (simp_all add: byte_at_def)
  have "crc32c (Tabular Big) [0x31, 0x32] 2 0 =
      NOT (?tbl ! (0 * 256 + unat (0xCD :: byte)) XOR ?tbl ! (1 * 256 + unat (0xCE :: byte)))"
    by (simp only: crc32c.simps crc32c_tabular_def crc32_tabular_2_bytes_def Let_def)
      (simp add: load tabular_2_step_def Let_def byteswap_minus_1 bytes crc32_tabular_1_byte_def del: byte_at_xor)
  also have "\<dots> = NOT (crc_bits polynomial_crc32c 8 0xCD XOR crc_bits polynomial_crc32c 16 0xCE)"
    unfolding table_two by simp
  finally show ?thesis by (simp add: crc32c_Tabular crc_eval)
qed

text \<open>
  The instruction-based loops take the length as \<open>uint32_t\<close>: from a buffer of 4 GiB and more only the
  length modulo 2 to the 32 is read, so 2 to the 32 bytes have the checksum of none.
\<close>

lemma crc32c_hardware_length_wraps:
  "crc32c (Hardware_32 I) data (2 ^ 32) 0 = 0" "crc32c (Hardware_armv7 I) data (2 ^ 32) 0 = 0"
  by (simp_all add: crc32c.simps crc32c_hardware_32bit_def crc32c_hardware_armv7_def
      hardware_32bit_words.simps hardware_armv7_words.simps)

end
