(* ===== verification/CrcFolding.thy ===== *)
theory CrcFolding
  imports Crc
begin

text \<open>
  The versions of CRC-32C that work on several parts of the message at once
  (\<open>common/src/include/crc32c_hardware_armv8.h\<close>, \<open>crc32c_hardware_intel.h\<close>) compute the bit-by-bit division.

  The remainders are polynomials modulo the CRC polynomial, bit 31 the constant coefficient. Everything the
  code does to them is linear, so it is enough to look at single bits (\<open>linear_eqI\<close>), that is, at powers of
  x (\<open>xpow\<close>): a word of the message, a carry-less product, a vector to be folded are sums of such powers, and
  multiplying by a constant of the code advances them by as many bits as the constant is made for.
\<close>

section \<open>Linear functions on words\<close>

definition xor_linear :: "('a::len word \<Rightarrow> 'b::len word) \<Rightarrow> bool" where
  "xor_linear L \<longleftrightarrow> (\<forall>x y. L (x XOR y) = L x XOR L y)"

named_theorems linear_intros

lemma xor_linear_zero: "xor_linear L \<Longrightarrow> L 0 = 0"
  unfolding xor_linear_def by (metis xor_self_eq)

lemma xor_linear_simps [linear_intros]:
  "xor_linear (\<lambda>x. x)" "xor_linear (\<lambda>x. 0)"
  by (simp_all add: xor_linear_def)

lemma linear_crc_bits [linear_intros]: "xor_linear L \<Longrightarrow> xor_linear (\<lambda>x. crc_bits poly n (L x))"
  by (simp add: xor_linear_def crc_bits_xor)

lemma linear_push_bit [linear_intros]: "xor_linear L \<Longrightarrow> xor_linear (\<lambda>x. push_bit n (L x))"
  by (simp add: xor_linear_def push_bit_xor)

lemma linear_drop_bit [linear_intros]: "xor_linear L \<Longrightarrow> xor_linear (\<lambda>x. drop_bit n (L x))"
  by (simp add: xor_linear_def)

lemma linear_ucast [linear_intros]: "xor_linear L \<Longrightarrow> xor_linear (\<lambda>x. ucast (L x))"
  by (simp add: xor_linear_def unsigned_xor_eq)

lemma linear_xor [linear_intros]: "xor_linear L \<Longrightarrow> xor_linear M \<Longrightarrow> xor_linear (\<lambda>x. L x XOR M x)"
  by (simp add: xor_linear_def xor_ac)

text \<open>Linear functions that agree on the words with a single bit agree everywhere.\<close>

lemma linear_eqI_upto:
  assumes "xor_linear L" and "xor_linear L'" and "\<And>n. n < LENGTH('a) \<Longrightarrow> L (2 ^ n) = L' (2 ^ n)"
    and "\<And>j. j \<ge> m \<Longrightarrow> \<not> bit w j" and "m \<le> LENGTH('a)"
  shows "L (w :: 'a::len word) = L' w"
  using assms(4,5)
proof (induction m arbitrary: w)
  case 0
  then have "w = 0" by (intro bit_word_eqI) simp
  then show ?case using assms(1,2) by (simp add: xor_linear_zero)
next
  case (Suc m)
  define v where "v = w XOR 2 ^ m"
  have w: "w = v XOR 2 ^ m" by (simp add: v_def xor.assoc)
  show ?case
  proof (cases "bit w m")
    case True
    have "\<not> bit v j" if "j \<ge> m" for j
      using that True Suc.prems by (cases "j = m") (auto simp: v_def bit_xor_iff bit_exp_iff)
    then have "L v = L' v" using Suc by simp
    then show ?thesis using assms(1-3) Suc.prems(2) by (subst (1 2) w) (simp add: xor_linear_def)
  next
    case False
    then have "\<not> bit w j" if "j \<ge> m" for j using that Suc.prems by (cases "j = m") auto
    then show ?thesis using Suc by simp
  qed
qed

lemma linear_eqI:
  assumes "xor_linear L" and "xor_linear L'" and "\<And>n. n < LENGTH('a) \<Longrightarrow> L (2 ^ n) = L' (2 ^ n)"
  shows "L (w :: 'a::len word) = L' w"
  by (rule linear_eqI_upto [OF assms, of "LENGTH('a)"]) (auto dest: bit_imp_le_length)

section \<open>Powers of x\<close>

text \<open>Bit 31 of a remainder is the constant coefficient, so \<open>0x80000000\<close> is 1 and a round multiplies by x.\<close>

definition xpow :: "u32 \<Rightarrow> nat \<Rightarrow> u32" where
  "xpow poly n = crc_bits poly n 0x80000000"

lemma crc_bits_xpow [simp]: "crc_bits poly m (xpow poly n) = xpow poly (n + m)"
  by (simp add: xpow_def crc_bits_add)

lemma bit_top: "bit (0x80000000 :: u32) n \<longleftrightarrow> n = 31"
proof -
  have "(0x80000000 :: u32) = 2 ^ 31" by simp
  then show ?thesis by (simp only: bit_exp_iff) auto
qed

lemma xpow_small: "n < 32 \<Longrightarrow> xpow poly n = drop_bit n 0x80000000"
  unfolding xpow_def by (rule crc_bits_zeros) (unfold bit_top, simp)

lemma exp_xpow: "n < 32 \<Longrightarrow> 2 ^ n = xpow poly (31 - n)"
  by (rule bit_word_eqI) (simp only: xpow_small bit_exp_iff bit_drop_bit_eq bit_top o_def, auto)

section \<open>What a word of a message contributes\<close>

definition msg64 :: "u32 \<Rightarrow> u64 \<Rightarrow> u32" where
  "msg64 poly m = crc_bits poly 64 (ucast m) XOR crc_bits poly 32 (ucast (drop_bit 32 m))"

definition msg128 :: "u32 \<Rightarrow> u128 \<Rightarrow> u32" where
  "msg128 poly x = crc_bits poly 64 (msg64 poly (vec_lo x)) XOR msg64 poly (vec_hi x)"

lemma linear_msg [linear_intros]:
  "xor_linear L \<Longrightarrow> xor_linear (\<lambda>x. vec_lo (L x))"
  "xor_linear L \<Longrightarrow> xor_linear (\<lambda>x. vec_hi (L x))"
  "xor_linear M \<Longrightarrow> xor_linear (\<lambda>x. msg64 poly (M x))"
  "xor_linear N \<Longrightarrow> xor_linear (\<lambda>x. msg128 poly (N x))"
  unfolding msg64_def msg128_def vec_lo_def vec_hi_def
  by (simp_all add: xor_linear_def crc_bits_xor unsigned_xor_eq xor_ac)

lemma le_word_append:
  "(le_word (as @ bs) :: 'a::len word) = le_word as XOR push_bit (8 * length as) (le_word bs)"
  by (induction as) (simp_all add: le_word_Cons_xor push_bit_xor xor_ac del: le_word.simps(2))

lemma crc_update_8:
  assumes "length bs = 8"
  shows "crc_update poly R bs = crc_bits poly 64 R XOR msg64 poly (le_word bs)"
proof -
  have "crc_update poly R bs = crc_update poly (crc_update poly R (take 4 bs)) (drop 4 bs)"
    by (simp flip: crc_update_append)
  also have "\<dots> = crc_bits poly 32 (crc_bits poly 32 (R XOR le_word (take 4 bs)) XOR le_word (drop 4 bs))"
    using assms by (simp add: crc_update_word)
  also have "le_word (take 4 bs) = (ucast (le_word bs :: u64) :: u32)"
    using assms by (intro bit_word_eqI) (auto simp: bit_unsigned_iff bit_le_word)
  also have "le_word (drop 4 bs) = (ucast (drop_bit 32 (le_word bs :: u64)) :: u32)"
    using assms by (intro bit_word_eqI) (auto simp: bit_unsigned_iff bit_drop_bit_eq bit_le_word div_add1_eq mod_add_eq [of 32 8, symmetric])
  finally show ?thesis by (simp add: msg64_def crc_bits_xor flip: crc_bits_add) (simp add: xor_ac)
qed


lemma crc_update_16:
  assumes "length bs = 16"
  shows "crc_update poly R bs = crc_bits poly 128 R XOR msg128 poly (le_word bs)"
proof -
  have "crc_update poly R bs = crc_update poly (crc_update poly R (take 8 bs)) (drop 8 bs)"
    by (simp flip: crc_update_append)
  also have "\<dots> = crc_bits poly 64 (crc_bits poly 64 R XOR msg64 poly (le_word (take 8 bs))) XOR
      msg64 poly (le_word (drop 8 bs))"
    using assms by (simp add: crc_update_8)
  also have "le_word (take 8 bs) = vec_lo (le_word bs)"
    using assms by (intro bit_word_eqI) (auto simp: vec_lo_def bit_unsigned_iff bit_le_word)
  also have "le_word (drop 8 bs) = vec_hi (le_word bs)"
    using assms by (intro bit_word_eqI)
      (auto simp: vec_hi_def bit_unsigned_iff bit_drop_bit_eq bit_le_word div_add1_eq mod_add_eq [of 64 8, symmetric])
  finally show ?thesis by (simp add: msg128_def crc_bits_xor flip: crc_bits_add) (simp add: xor_ac)
qed

lemma ucast_exp: "(ucast (2 ^ n :: 'a::len word) :: 'b::len word) = (if n < LENGTH('a) then 2 ^ n else 0)"
  by (rule bit_word_eqI) (auto simp: bit_unsigned_iff bit_exp_iff)

lemma drop_bit_exp: "drop_bit m (2 ^ n :: 'a::len word) = (if m \<le> n \<and> n < LENGTH('a) then 2 ^ (n - m) else 0)"
  by (rule bit_word_eqI) (auto simp: bit_drop_bit_eq bit_exp_iff)

lemma exp_zero: "LENGTH('a) \<le> n \<Longrightarrow> (2 ^ n :: 'a::len word) = 0"
  by (rule bit_word_eqI) (auto simp: bit_exp_iff)

lemma crc_bits_exp: "n < 32 \<Longrightarrow> crc_bits poly m (2 ^ n) = xpow poly (31 - n + m)"
  by (subst exp_xpow [of n poly]) simp_all

lemma msg_0 [simp]: "msg64 poly 0 = 0" "msg128 poly 0 = 0"
  by (simp_all add: msg64_def msg128_def vec_lo_def vec_hi_def)

lemma msg64_exp: "n < 64 \<Longrightarrow> msg64 poly (2 ^ n) = xpow poly (95 - n)"
  by (cases "n < 32")
    (auto simp: msg64_def ucast_exp drop_bit_exp exp_zero crc_bits_exp)

lemma msg128_exp: "n < 128 \<Longrightarrow> msg128 poly (2 ^ n) = xpow poly (159 - n)"
  by (cases "n < 64")
    (auto simp: msg128_def vec_lo_def vec_hi_def ucast_exp drop_bit_exp exp_zero msg64_exp)

lemma msg64_push:
  assumes "i \<le> 32"
  shows "msg64 poly (push_bit i (ucast (k :: u32))) = crc_bits poly (64 - i) k"
proof (rule linear_eqI [where L = "\<lambda>k. msg64 poly (push_bit i (ucast k))" and L' = "crc_bits poly (64 - i)"])
  fix n assume "n < LENGTH(32)"
  with assms show "msg64 poly (push_bit i (ucast (2 ^ n :: u32))) = crc_bits poly (64 - i) (2 ^ n)"
    by (simp add: ucast_exp push_bit_eq_mult flip: power_add) (simp add: msg64_exp crc_bits_exp)
qed (intro linear_intros | rule linear_crc_bits [of "\<lambda>x. x", simplified])+

lemma msg128_push:
  assumes "i \<le> 96"
  shows "msg128 poly (push_bit i (ucast (k :: u32))) = crc_bits poly (128 - i) k"
proof (rule linear_eqI [where L = "\<lambda>k. msg128 poly (push_bit i (ucast k))" and L' = "crc_bits poly (128 - i)"])
  fix n assume "n < LENGTH(32)"
  with assms show "msg128 poly (push_bit i (ucast (2 ^ n :: u32))) = crc_bits poly (128 - i) (2 ^ n)"
    by (simp add: ucast_exp push_bit_eq_mult flip: power_add) (simp add: msg128_exp crc_bits_exp)
qed (intro linear_intros | rule linear_crc_bits [of "\<lambda>x. x", simplified])+

section \<open>Carry-less multiplication\<close>

primrec xor_sum :: "(nat \<Rightarrow> 'a::len word) \<Rightarrow> nat \<Rightarrow> 'a word" where
  "xor_sum f 0 = 0"
| "xor_sum f (Suc n) = xor_sum f n XOR f n"

definition carryless :: "u64 \<Rightarrow> u64 \<Rightarrow> u128" where
  "carryless a b = xor_sum (\<lambda>i. if bit a i then push_bit i (ucast b) else 0) 64"

definition clmul_ok :: "(u64 \<Rightarrow> u64 \<Rightarrow> u128) \<Rightarrow> bool" where
  "clmul_ok clmul \<longleftrightarrow> (\<forall>a b. clmul a b = carryless a b)"

lemma xor_sum_xor: "xor_sum (\<lambda>i. f i XOR g i) n = xor_sum f n XOR xor_sum g n"
  by (induction n) (simp_all add: xor_ac)

lemma xor_sum_single: "xor_sum (\<lambda>i. if i = k then f i else 0) n = (if k < n then f k else 0)"
  by (induction n) auto

lemma bit_exp_64: "n < 64 \<Longrightarrow> bit (2 ^ n :: u64) i \<longleftrightarrow> i = n"
  by (auto simp: bit_exp_iff)

lemma carryless_exp: "n < 64 \<Longrightarrow> carryless (2 ^ n) b = push_bit n (ucast b)"
  using xor_sum_single [of n "\<lambda>i. push_bit i (ucast b :: u128)" 64]
  by (simp add: carryless_def bit_exp_64 cong: if_cong)

lemma linear_carryless [linear_intros]:
  assumes "xor_linear L"
  shows "xor_linear (\<lambda>x. carryless (L x) b)"
proof -
  have "carryless (x XOR y) b = carryless x b XOR carryless y b" for x y
    unfolding carryless_def xor_sum_xor [symmetric]
    by (rule arg_cong [where f = "\<lambda>f. xor_sum f 64"]) (auto simp: bit_xor_iff)
  with assms show ?thesis by (simp add: xor_linear_def)
qed


text \<open>The product of two remainders, fed in as a message, is advanced by 33 more bits.\<close>

lemma msg64_product:
  "msg64 poly (vec_lo (carryless (ucast a) (ucast (xpow poly n)))) = crc_bits poly (n + 33) a"
proof (rule linear_eqI [where L = "\<lambda>a. msg64 poly (vec_lo (carryless (ucast a) (ucast (xpow poly n))))"
      and L' = "crc_bits poly (n + 33)"])
  fix i assume "i < LENGTH(32)"
  moreover from this have "vec_lo (push_bit i (ucast (ucast (xpow poly n) :: u64))) = push_bit i (ucast (xpow poly n))"
    by (intro bit_word_eqI) (auto simp: vec_lo_def bit_unsigned_iff bit_push_bit_iff)
  ultimately show "msg64 poly (vec_lo (carryless (ucast (2 ^ i :: u32)) (ucast (xpow poly n)))) =
      crc_bits poly (n + 33) (2 ^ i)"
    by (simp add: ucast_exp carryless_exp msg64_push crc_bits_exp add.commute)
qed (intro linear_intros | rule linear_crc_bits [of "\<lambda>x. x", simplified])+

text \<open>One bit less when the product is shifted by one.\<close>

lemma msg64_shifted_product:
  "msg64 poly (push_bit 1 (vec_lo (carryless (ucast a) (ucast (xpow poly n))))) = crc_bits poly (n + 32) a"
proof (rule linear_eqI [where L = "\<lambda>a. msg64 poly (push_bit 1 (vec_lo (carryless (ucast a) (ucast (xpow poly n)))))"
      and L' = "crc_bits poly (n + 32)"])
  fix i assume "i < LENGTH(32)"
  then have i: "i < 32" by simp
  have "push_bit 1 (vec_lo (push_bit i (ucast (ucast (xpow poly n) :: u64)))) = push_bit (Suc i) (ucast (xpow poly n))"
    by (intro bit_word_eqI) (simp only: vec_lo_def bit_unsigned_iff bit_push_bit_iff, auto)
  moreover have "carryless (ucast (2 ^ i :: u32)) b = push_bit i (ucast b)" for b
    using i by (simp add: ucast_exp carryless_exp)
  moreover have "msg64 poly (push_bit (Suc i) (ucast (xpow poly n))) = crc_bits poly (n + 32) (2 ^ i)"
    by (subst msg64_push) (use i in \<open>simp_all add: crc_bits_exp add.commute\<close>)
  ultimately show "msg64 poly (push_bit 1 (vec_lo (carryless (ucast (2 ^ i :: u32)) (ucast (xpow poly n))))) =
      crc_bits poly (n + 32) (2 ^ i)" by (simp only: )
qed (intro linear_intros | rule linear_crc_bits [of "\<lambda>x. x", simplified])+

lemma vec_setr [simp]:
  "vec_lo (setr_epi32 a 0 b 0) = ucast a" "vec_hi (setr_epi32 a 0 b 0) = ucast b"
  by (rule bit_word_eqI; auto simp: vec_lo_def vec_hi_def setr_epi32_def bit_unsigned_iff bit_or_iff
      bit_push_bit_iff bit_drop_bit_eq dest: bit_imp_le_length)+

text \<open>Folding by \<open>k\<close> advances a vector by \<open>s\<close> bits and adds the next.\<close>

lemma msg128_fold:
  assumes "clmul_ok clmul" and "32 < s"
  shows "msg128 poly (fold_by clmul (setr_epi32 (xpow poly (s + 31)) 0 (xpow poly (s - 33)) 0) x m) =
    crc_bits poly s (msg128 poly x) XOR msg128 poly m"
proof -
  let ?lo = "\<lambda>x. carryless (vec_lo x) (ucast (xpow poly (s + 31)))"
  let ?hi = "\<lambda>x. carryless (vec_hi x) (ucast (xpow poly (s - 33)))"
  have "msg128 poly (?hi x XOR ?lo x) = crc_bits poly s (msg128 poly x)"
  proof (rule linear_eqI [where L = "\<lambda>x. msg128 poly (?hi x XOR ?lo x)"
        and L' = "\<lambda>x. crc_bits poly s (msg128 poly x)"])
    fix n assume n: "n < LENGTH(128)"
    have u: "(ucast (ucast (k :: u32) :: u64) :: u128) = ucast k" for k
      by (rule bit_word_eqI) (auto simp: bit_unsigned_iff dest: bit_imp_le_length)
    have 0: "carryless 0 b = 0" for b using xor_linear_zero [OF linear_carryless [of "\<lambda>x. x"]]
      by (simp add: linear_intros)
    show "msg128 poly (?hi (2 ^ n) XOR ?lo (2 ^ n)) = crc_bits poly s (msg128 poly (2 ^ n))"
      using n assms(2)
      by (cases "n < 64") (auto simp: vec_lo_def vec_hi_def ucast_exp drop_bit_exp exp_zero carryless_exp u 0
          msg128_push msg128_exp)
  qed (intro linear_intros | rule linear_crc_bits [of "\<lambda>x. x", simplified])+
  then show ?thesis
    using assms(1) linear_msg(4) [of "\<lambda>x. x" poly, unfolded xor_linear_def]
    by (simp add: fold_by_def Let_def clmul_lo_def clmul_hi_def clmul_ok_def)
       (metis xor.assoc xor_linear_simps(1) xor_linear_def)
qed

lemma crc_u32_0: "intrinsics_ok poly I \<Longrightarrow> crc_u32 I R 0 = crc_bits poly 32 R"
  by (simp add: intrinsics_ok_def crc_update_word le_word_le_bytes)

lemma crc_u64_msg: "intrinsics_ok poly I \<Longrightarrow> crc_u64 I R m = crc_bits poly 64 R XOR msg64 poly m"
  by (simp add: intrinsics_ok_def crc_update_8 le_word_le_bytes)

lemma xnmodp_rounds:
  assumes "intrinsics_ok poly I"
  shows "((\<lambda>acc. crc_u32 I acc 0) ^^ k) (xpow poly n) = xpow poly (n + 32 * k)"
  by (induction k) (simp_all add: crc_u32_0 [OF assms] algebra_simps)

lemma vec_lo_ucast [simp]: "vec_lo (ucast (a :: u32)) = ucast a"
  by (rule bit_word_eqI) (auto simp: vec_lo_def bit_unsigned_iff dest: bit_imp_le_length)

lemma pop_step:
  assumes "intrinsics_ok poly I" and "clmul_ok clmul" and "drop_bit 1 stack \<noteq> 0"
  shows "xnmodp_pop I clmul stack (xpow poly m) =
    xnmodp_pop I clmul (drop_bit 1 stack) (xpow poly (2 * m + (if bit stack 0 then 32 else 33)))"
proof (cases "bit stack 0")
  case True
  then have "stack AND 1 = 1" by (simp add: and_one_eq bit_0 odd_iff_mod_2_eq_one)
  then show ?thesis using assms True msg64_shifted_product [of poly "xpow poly m" m]
    by (subst xnmodp_pop.simps)
      (simp add: Let_def crc_u64_msg clmul_lo_def clmul_ok_def algebra_simps)
next
  case False
  then have "stack AND 1 = 0" by (simp add: and_one_eq bit_0 odd_iff_mod_2_eq_one)
  then show ?thesis using assms False msg64_product [of poly "xpow poly m" m]
    by (subst xnmodp_pop.simps)
      (simp add: Let_def crc_u64_msg clmul_lo_def clmul_ok_def algebra_simps)
qed

lemma pop_done: "drop_bit 1 stack = 0 \<Longrightarrow> xnmodp_pop I clmul stack acc = acc"
  by (subst xnmodp_pop.simps) (simp add: Let_def)


lemma top_bit_small: "\<not> bit (w :: u64) 63" if "unat w < 2 ^ 63"
proof
  assume "bit w 63"
  then have "bit (unat w) 63" by (simp add: bit_unsigned_iff)
  then show False using that by (simp add: bit_iff_odd)
qed

lemma pushed_bits:
  fixes stack n :: u64
  assumes "unat (NOT stack) < 2 ^ 63"
  defines "stack' \<equiv> push_bit 1 stack + (n AND 1)"
  shows "drop_bit 1 (NOT stack') = NOT stack" and "bit (NOT stack') 0 \<longleftrightarrow> \<not> odd (unat n)"
proof -
  have "stack' = push_bit 1 stack OR (n AND 1)"
    unfolding stack'_def by (rule disjunctive_add) (simp only: bit_push_bit_iff bit_and_iff bit_1_iff, auto)
  then have b: "bit (NOT stack') k \<longleftrightarrow> k < 64 \<and> (if k = 0 then \<not> bit n 0 else \<not> bit stack (k - 1))" for k
    by (simp only: bit_not_iff bit_or_iff bit_push_bit_iff bit_and_iff bit_1_iff) (cases k; auto)
  show "bit (NOT stack') 0 \<longleftrightarrow> \<not> odd (unat n)"
    unfolding b using bit_0 [of "unat n"] by (simp add: bit_unsigned_iff)
  have "bit stack 63" using top_bit_small [OF assms(1)] by (simp add: bit_not_iff)
  then have top: False if "\<not> bit stack k" "63 \<le> k" "k < 64" for k
    using that by (cases "k = 63") auto
  show "drop_bit 1 (NOT stack') = NOT stack"
    by (intro bit_word_eqI)
      (simp only: bit_drop_bit_eq o_def b, auto simp: bit_not_iff less_Suc_eq linorder_not_less intro: ccontr dest: top)
qed


lemma xnmodp_push_pop:
  assumes "intrinsics_ok poly I" and "clmul_ok clmul"
  shows "xnmodp_push stack n = (stack', n') \<Longrightarrow> NOT stack \<noteq> 0 \<Longrightarrow> (unat (NOT stack) + 1) * unat n \<le> 2 ^ 65 \<Longrightarrow>
    xnmodp_pop I clmul (NOT stack') (xpow poly (unat n')) = xnmodp_pop I clmul (NOT stack) (xpow poly (unat n))"
proof (induction stack n rule: xnmodp_push.induct)
  case (1 stack n)
  show ?case
  proof (cases "191 < n")
    case False
    then show ?thesis using 1 by (simp add: xnmodp_push.simps)
  next
    case True
    let ?stack = "push_bit 1 stack + (n AND 1)" and ?n = "drop_bit 1 n - 16"
    have n: "192 \<le> unat n" using True by (simp add: word_less_nat_alt)
    then have "(unat (NOT stack) + 1) * 192 \<le> (unat (NOT stack) + 1) * unat n" by (rule mult_le_mono2)
    then have small: "unat (NOT stack) < 2 ^ 63" using 1(4) by simp
    note bits = pushed_bits [OF small, of n]
    have half: "a + 1 \<le> 2 * (a div 2 + 1)" for a :: nat by presburger
    have "unat (NOT ?stack) div 2 = unat (NOT stack)" using bits(1) unat_half [of "NOT ?stack"] by simp
    then have "unat (NOT ?stack) + 1 \<le> 2 * (unat (NOT stack) + 1)"
      using half [of "unat (NOT ?stack)"] by (simp only: )
    moreover have n': "unat ?n = unat n div 2 - 16" by (rule unat_half_16 [OF True])
    ultimately have "(unat (NOT ?stack) + 1) * unat ?n \<le> 2 * (unat (NOT stack) + 1) * (unat n div 2)"
      by (intro mult_le_mono) auto
    also have "\<dots> = (unat (NOT stack) + 1) * (2 * (unat n div 2))" by simp
    also have "\<dots> \<le> (unat (NOT stack) + 1) * unat n" by (intro mult_le_mono2) simp
    also have "\<dots> \<le> 2 ^ 65" by (rule 1)
    finally have bound: "(unat (NOT ?stack) + 1) * unat ?n \<le> 2 ^ 65" .
    have nz: "drop_bit 1 (NOT ?stack) \<noteq> 0" using bits(1) 1(3) by simp
    then have "NOT ?stack \<noteq> 0" by auto
    moreover have "xnmodp_push ?stack ?n = (stack', n')" using 1(2) True by (simp add: xnmodp_push.simps [of stack n])
    ultimately have "xnmodp_pop I clmul (NOT stack') (xpow poly (unat n')) =
        xnmodp_pop I clmul (NOT ?stack) (xpow poly (unat ?n))"
      using 1(1) True bound by blast
    also have "\<dots> = xnmodp_pop I clmul (NOT stack)
        (xpow poly (2 * unat ?n + (if bit (NOT ?stack) 0 then 32 else 33)))"
      using pop_step [OF assms nz] bits(1) by simp
    also have "2 * unat ?n + (if bit (NOT ?stack) 0 then 32 else 33) = unat n"
      unfolding bits(2) n' using n by (auto elim!: oddE evenE)
    finally show ?thesis .
  qed
qed

lemma xnmodp_xpow:
  assumes "intrinsics_ok poly I" and "clmul_ok clmul"
  shows "xnmodp I clmul n = xpow poly (unat n)"
proof -
  obtain stack m where p: "xnmodp_push (NOT 1) n = (stack, m)" by fastforce
  let ?acc = "drop_bit (unat (m AND 31)) 0x80000000 :: u32"
  have 31: "unat (m AND 31) = unat m mod 32"
    using arg_cong [OF take_bit_eq_mask [of 5 m], of unat]
    by (simp only: unsigned_take_bit_eq) (simp add: mask_eq_exp_minus_1 take_bit_eq_mod)
  have "?acc = xpow poly (unat m mod 32)" by (simp add: 31 xpow_small)
  moreover have "unat (drop_bit 5 m) = unat m div 32"
    by (simp only: drop_bit_eq_div) (simp add: unat_div_distrib)
  ultimately have "((\<lambda>acc. crc_u32 I acc 0) ^^ unat (drop_bit 5 m)) ?acc = xpow poly (unat m)"
    by (simp add: xnmodp_rounds [OF assms(1)])
  then have "xnmodp I clmul n = xnmodp_pop I clmul (NOT stack) (xpow poly (unat m))"
    using p by (simp add: xnmodp_def)
  also have "\<dots> = xnmodp_pop I clmul 1 (xpow poly (unat n))"
  proof -
    have "unat n < 2 ^ 64" using unsigned_less [of n, where ?'a = nat] by simp
    then show ?thesis using xnmodp_push_pop [OF assms p] by simp
  qed
  also have "\<dots> = xpow poly (unat n)" by (rule pop_done) simp
  finally show ?thesis .
qed

section \<open>The constants\<close>

text \<open>The product of two remainders, by which the powers are computed with few rounds.\<close>

fun residue_product :: "u32 \<Rightarrow> nat \<Rightarrow> u32 \<Rightarrow> u32 \<Rightarrow> u32" where
  "residue_product poly 0 a v = 0"
| "residue_product poly (Suc i) a v =
     (if bit a i then v else 0) XOR residue_product poly i a (crc_bits poly 1 v)"

lemma linear_residue_product [linear_intros]: "xor_linear (\<lambda>a. residue_product poly i a v)"
  unfolding xor_linear_def by (induction i arbitrary: v) (auto simp: bit_xor_iff xor_ac)

lemma residue_product_exp:
  "i < 32 \<Longrightarrow> residue_product poly n (2 ^ i) v = (if i < n then crc_bits poly (n - 1 - i) v else 0)"
proof (induction n arbitrary: v)
  case (Suc n)
  have b: "bit (2 ^ i :: u32) n \<longleftrightarrow> i = n" using Suc.prems by (auto simp: bit_exp_iff)
  show ?case
  proof (cases "i < n")
    case True
    then have "n - i = Suc (n - 1 - i)" by simp
    moreover have "crc_bits poly (Suc (n - 1 - i)) v = crc_bits poly (n - 1 - i) (crc_bits poly 1 v)"
      using crc_bits_add [of poly 1 "n - 1 - i" v] by simp
    ultimately show ?thesis using Suc True by (simp only: residue_product.simps b Suc.IH [OF Suc.prems]) simp
  next
    case False
    then show ?thesis using Suc by (simp add: b)
  qed
qed simp

lemma residue_product_xpow: "residue_product poly 32 a (xpow poly n) = crc_bits poly n a"
proof (rule linear_eqI [where L = "\<lambda>a. residue_product poly 32 a (xpow poly n)" and L' = "crc_bits poly n"])
  fix i assume "i < LENGTH(32)"
  then show "residue_product poly 32 (2 ^ i) (xpow poly n) = crc_bits poly n (2 ^ i)"
    by (simp add: residue_product_exp crc_bits_exp add.commute)
qed (intro linear_intros | rule linear_crc_bits [of "\<lambda>x. x", simplified])+

lemma xpow_add: "xpow poly (m + n) = residue_product poly 32 (xpow poly m) (xpow poly n)"
  by (simp add: residue_product_xpow)

lemma residue_product_numeral:
  "residue_product poly (numeral k) a v =
     (if bit a (pred_numeral k) then v else 0) XOR residue_product poly (pred_numeral k) a (crc_bits poly 1 v)"
  by (simp add: numeral_eq_Suc)

abbreviation "P32 \<equiv> polynomial_crc32c"

abbreviation power_of_x :: "nat \<Rightarrow> u32" where "power_of_x \<equiv> xpow polynomial_crc32c"

lemma x31: "power_of_x 31 = 1"
  by (simp add: xpow_small)

text \<open>Doubling and, for the last 31, adding.\<close>

lemma xpow_double: "xpow poly n = a \<Longrightarrow> xpow poly (2 * n) = residue_product poly 32 a a"
  using xpow_add [of poly n n] by (simp add: mult_2)

lemma xpow_sum: "xpow poly m = a \<Longrightarrow> xpow poly n = b \<Longrightarrow> xpow poly (m + n) = residue_product poly 32 a b"
  using xpow_add [of poly m n] by simp

lemma xpow_31: "xpow poly n = a \<Longrightarrow> xpow poly (n + 31) = crc_bits poly 31 a"
  by auto

lemmas power_eval = residue_product_numeral residue_product.simps crc_eval

lemma powers:
  "power_of_x 64 = 0x6ea2d55c" "power_of_x 128 = 0x18b8ea18" "power_of_x 256 = 0x510ac59a"
  "power_of_x 512 = 0xb82be955" "power_of_x 1024 = 0xb8fdb1e7" "power_of_x 2048 = 0x88e56f72"
  "power_of_x 4096 = 0x74c360a4"
proof -
  show 64: "power_of_x 64 = 0x6ea2d55c" by (simp add: xpow_def crc_eval)
  show 128: "power_of_x 128 = 0x18b8ea18" using xpow_double [OF 64] by (simp add: power_eval)
  show 256: "power_of_x 256 = 0x510ac59a" using xpow_double [OF 128] by (simp add: power_eval)
  show 512: "power_of_x 512 = 0xb82be955" using xpow_double [OF 256] by (simp add: power_eval)
  show 1024: "power_of_x 1024 = 0xb8fdb1e7" using xpow_double [OF 512] by (simp add: power_eval)
  show 2048: "power_of_x 2048 = 0x88e56f72" using xpow_double [OF 1024] by (simp add: power_eval)
  show "power_of_x 4096 = 0x74c360a4" using xpow_double [OF 2048] by (simp add: power_eval)
qed


lemma power_sums: "power_of_x 192 = 0x9957c0a6" "power_of_x 448 = 0x52377a55" "power_of_x 6144 = 0x631bb273"
proof -
  show 192: "power_of_x 192 = 0x9957c0a6" using xpow_sum [OF powers(2) powers(1)] by (simp add: power_eval)
  show "power_of_x 448 = 0x52377a55" using xpow_sum [OF powers(3) 192] by (simp add: power_eval)
  show "power_of_x 6144 = 0x631bb273" using xpow_sum [OF powers(7) powers(6)] by (simp add: power_eval)
qed

text \<open>The constants of the two versions.\<close>

lemma fold_constants:
  "power_of_x 2079 = 0xdcb17aa4" "power_of_x 4127 = 0xbd6f81f8" "power_of_x 6175 = 0x8d96551c"
  "power_of_x 543 = 0x740eef02" "power_of_x 479 = 0x9e4addf8" "power_of_x 159 = 0xf20c0dfe"
  "power_of_x 95 = 0x493c7d27" "power_of_x 287 = 0x3da6d0cb" "power_of_x 223 = 0xba4fc28e"
  using xpow_31 [OF powers(1)] xpow_31 [OF powers(2)] xpow_31 [OF powers(3)] xpow_31 [OF powers(4)]
    xpow_31 [OF powers(6)] xpow_31 [OF powers(7)]
    xpow_31 [OF power_sums(1)] xpow_31 [OF power_sums(2)] xpow_31 [OF power_sums(3)]
  by (simp_all add: crc_eval)

section \<open>ARMv8\<close>

lemma crc_update_zero: "crc_update poly R bs = crc_bits poly (8 * length bs) R XOR crc_update poly 0 bs"
proof (induction bs rule: rev_induct)
  case (snoc b bs)
  then show ?case
    by (simp add: crc_update_append crc_update_Cons crc_bits_xor crc_bits_add xor_ac flip: crc_bits_add)
       (simp add: add.commute)
qed simp

lemma foldl_steps: "(\<And>i. i < k \<Longrightarrow> f (s i) i = s (Suc i)) \<Longrightarrow> foldl f (s 0) [0..<k] = s k"
  by (induction k) simp_all

text \<open>Four segments of a kilobyte, each \<open>n\<close> words further.\<close>

definition segments :: "u32 \<Rightarrow> byte list \<Rightarrow> u32 \<Rightarrow> nat \<Rightarrow> u32 \<times> u32 \<times> u32 \<times> u32" where
  "segments poly P crc n =
     (crc_update poly crc (take (8 * n) P), crc_update poly 0 (take (8 * n) (drop 256 P)),
      crc_update poly 0 (take (8 * n) (drop 512 P)), crc_update poly 0 (take (8 * n) (drop 768 P)))"

lemma crc_next_word:
  assumes "intrinsics_ok poly I" and "pos + 8 * Suc n \<le> length P"
  shows "crc_u64 I (crc_update poly R (take (8 * n) (drop pos P))) (load Little (drop (pos + n * 8) P)) =
    crc_update poly R (take (8 * Suc n) (drop pos P))"
proof -
  have "take (8 * Suc n) (drop pos P) = take (8 * n) (drop pos P) @ take 8 (drop (pos + n * 8) P)"
    using take_add [of "8 * n" 8 "drop pos P"] by (simp add: ac_simps)
  then show ?thesis using assms by (simp add: intrinsics_load crc_update_append)
qed

lemma segments_1024:
  assumes "intrinsics_ok poly I" and "1024 \<le> length P"
  shows "crc32c_1024_bytes I P (crc, 0, 0, 0) = (drop 1024 P, segments poly P crc 32)"
proof -
  have word: "crc_u64 I (crc_update poly R (take (8 * n) (drop pos P))) (load Little (drop (pos + n * 8) P)) =
      crc_update poly R (take (8 * Suc n) (drop pos P))" if "n < 32" "pos \<le> 768" for R n pos
    using that assms by (intro crc_next_word) simp_all
  have 32: "crc32c_32_bytes I P n (segments poly P crc n) = segments poly P crc (Suc n)" if "n < 32" for n
    using word [OF that, of 0] word [OF that, of 256] word [OF that, of 512] word [OF that, of 768]
    by (simp add: crc32c_32_bytes_def segments_def Let_def del: mult_Suc_right One_nat_def)
  have "crc32c_256_bytes I P i (segments poly P crc (i * 8)) = segments poly P crc (i * 8 + 8)" if "i < 4" for i
    unfolding crc32c_256_bytes_def using that
    by (intro foldl_steps [where s = "\<lambda>j. segments poly P crc (i * 8 + j)", of 8, simplified]) (simp add: 32)
  then have "foldl (\<lambda>crcs i. crc32c_256_bytes I P i crcs) (segments poly P crc 0) [0..<4] = segments poly P crc 32"
    using foldl_steps [where s = "\<lambda>i. segments poly P crc (i * 8)" and k = 4 and
        f = "\<lambda>crcs i. crc32c_256_bytes I P i crcs"] by (simp add: add.commute)
  then show ?thesis by (simp add: crc32c_1024_bytes_def segments_def)
qed

lemma product_advances:
  assumes "intrinsics_ok poly I" and "clmul_ok clmul" and "k = ucast (xpow poly n)"
  shows "crc_u64 I 0 (ucast (clmul (ucast crc) k)) = crc_bits poly (n + 33) crc"
  using msg64_product [of poly crc n] assms by (simp add: crc_u64_msg clmul_ok_def vec_lo_def)

lemma crc_update_chunks:
  assumes "a + b \<le> length M"
  shows "crc_update poly R (take (a + b) M) =
    crc_bits poly (8 * b) (crc_update poly R (take a M)) XOR crc_update poly 0 (take b (drop a M))"
  using assms crc_update_zero [of poly "crc_update poly R (take a M)" "take b (drop a M)"]
  by (simp add: take_add crc_update_append)

lemma armv8_block:
  assumes "intrinsics_ok P32 I" and "clmul_ok clmul" and "1032 \<le> length M"
    and "crc32c_1024_bytes I M (crc, 0, 0, 0) = (M', crc0, crc1, crc2, crc3)"
  shows "((crc_u64 I crc3 (load Little M') XOR crc_u64 I 0 (ucast (clmul (ucast crc2) 0xdcb17aa4))) XOR
      crc_u64 I 0 (ucast (clmul (ucast crc1) 0xbd6f81f8))) XOR
      crc_u64 I 0 (ucast (clmul (ucast crc0) 0x8d96551c)) = crc_update P32 crc (take 1032 M)"
    and "M' = drop 1024 M"
proof -
  have k: "0xdcb17aa4 = (ucast (power_of_x 2079) :: u64)" "0xbd6f81f8 = (ucast (power_of_x 4127) :: u64)"
    "0x8d96551c = (ucast (power_of_x 6175) :: u64)" by (simp_all add: fold_constants)
  have s: "M' = drop 1024 M" "crc0 = crc_update P32 crc (take 256 M)"
    "crc1 = crc_update P32 0 (take 256 (drop 256 M))" "crc2 = crc_update P32 0 (take 256 (drop 512 M))"
    "crc3 = crc_update P32 0 (take 256 (drop 768 M))"
    using segments_1024 [OF assms(1), of M crc] assms(3,4) by (simp_all add: segments_def)
  have "crc_update P32 crc (take 1032 M) =
      crc_bits P32 6208 crc0 XOR (crc_bits P32 4160 crc1 XOR (crc_bits P32 2112 crc2 XOR
        (crc_bits P32 64 crc3 XOR msg64 P32 (load Little M'))))"
    using assms(3) crc_update_chunks [of 256 776 M P32 crc] crc_update_chunks [of 256 520 "drop 256 M" P32 0]
      crc_update_chunks [of 256 264 "drop 512 M" P32 0] crc_update_chunks [of 256 8 "drop 768 M" P32 0]
    by (simp add: s crc_update_8 [of "take 8 (drop 1024 M)"] load_Little)
  then show "((crc_u64 I crc3 (load Little M') XOR crc_u64 I 0 (ucast (clmul (ucast crc2) 0xdcb17aa4))) XOR
      crc_u64 I 0 (ucast (clmul (ucast crc1) 0xbd6f81f8))) XOR
      crc_u64 I 0 (ucast (clmul (ucast crc0) 0x8d96551c)) = crc_update P32 crc (take 1032 M)"
    unfolding product_advances [OF assms(1,2) k(1)] product_advances [OF assms(1,2) k(2)]
      product_advances [OF assms(1,2) k(3)]
    by (simp add: crc_u64_msg [OF assms(1)] xor_ac)
  show "M' = drop 1024 M" by (rule s)
qed

lemma armv8_blocks_pending:
  assumes "intrinsics_ok P32 I" and "clmul_ok clmul"
  shows "pending P32 r (M, n, R) \<Longrightarrow> pending P32 r (armv8_blocks I clmul M n R)"
proof (induction n arbitrary: M R rule: less_induct)
  case (less n)
  show ?case
  proof (cases "n \<ge> 1032")
    case True
    obtain M' c0 c1 c2 c3 where c: "crc32c_1024_bytes I M (R, 0, 0, 0) = (M', c0, c1, c2, c3)"
      using prod_cases5 by blast
    have "1032 \<le> length M" using less.prems True by (simp add: pending_def)
    note block = armv8_block [OF assms this c]
    have "pending P32 r (drop 1032 M, n - 1032, crc_update P32 R (take 1032 M))"
      using less.prems True by (intro pending_step) auto
    then show ?thesis using less.IH [of "n - 1032"] True
      by (subst armv8_blocks.simps) (simp add: c block(1) [unfolded block(2)] block(2))
  next
    case False
    then show ?thesis using less.prems by (subst armv8_blocks.simps) simp
  qed
qed


lemma small_bits:
  assumes "(n :: nat) < 8"
  shows "(n AND 4 \<noteq> 0) \<longleftrightarrow> 4 \<le> n" "(n AND 2 \<noteq> 0) \<longleftrightarrow> 2 \<le> n mod 4" "(n AND 1 \<noteq> 0) \<longleftrightarrow> n mod 4 mod 2 = 1"
proof -
  have "n \<in> {0, 1, 2, 3, 4, 5, 6, 7 :: nat}" using assms by auto
  then show "(n AND 4 \<noteq> 0) \<longleftrightarrow> 4 \<le> n" "(n AND 2 \<noteq> 0) \<longleftrightarrow> 2 \<le> n mod 4" "(n AND 1 \<noteq> 0) \<longleftrightarrow> n mod 4 mod 2 = 1"
    by auto
qed

lemma crc32c_hardware_armv8_update:
  assumes "intrinsics_ok P32 I" and "clmul_ok clmul" and "unat n \<le> length M"
  shows "crc32c_hardware_armv8 I clmul M n R = crc_update P32 R (take (unat n) M)"
proof -
  let ?r = "crc_update P32 R (take (unat n) M)"
  obtain M1 n1 R1 where b: "armv8_blocks I clmul M (unat n) R = (M1, n1, R1)" by (rule prod_cases3)
  then have 1: "pending P32 ?r (M1, n1, R1)"
    using armv8_blocks_pending [OF assms(1,2), of ?r M "unat n" R] assms(3) by (simp add: pending_def)
  obtain M2 n2 R2 where w: "hardware_armv7_words I M1 n1 R1 = (M2, n2, R2)" by (rule prod_cases3)
  then have 2: "pending P32 ?r (M2, n2, R2)" "n2 < 8"
    using hardware_armv7_words_pending [OF assms(1) 1] by simp_all
  obtain M3 R3 where w3: "(if n2 \<ge> 4 then (drop 4 M2, crc_u32 I R2 (load Little M2)) else (M2, R2)) = (M3, R3)"
    by fastforce
  with 2 have 3: "pending P32 ?r (M3, n2 mod 4, R3)"
    using pending_u32 [OF assms(1) 2(1)] by (auto simp: le_mod_geq split: if_splits)
  obtain M4 R4 where w4: "(if n2 mod 4 \<ge> 2 then (drop 2 M3, crc_u16 I R3 (load Little M3)) else (M3, R3)) = (M4, R4)"
    by fastforce
  have "n2 mod 4 - 2 = n2 mod 4 mod 2" if "n2 mod 4 \<ge> 2"
    using that by (simp add: le_mod_geq)
  with 3 w4 have 4: "pending P32 ?r (M4, n2 mod 4 mod 2, R4)"
    using pending_u16 [OF assms(1) 3] by (auto split: if_splits)
  have last: "(if n2 mod 4 mod 2 = 1 then crc_u8 I R4 (M4 ! 0) else R4) = ?r"
    by (rule pending_u8 [OF assms(1) 4]) simp
  show ?thesis
    unfolding crc32c_hardware_armv8_def b w Let_def prod.case small_bits [OF 2(2)] w3 w4 by (rule last)
qed


section \<open>Intel\<close>

text \<open>What the four vectors hold: the remainder of the 64 bytes they stand for.\<close>

definition vectors :: "u32 \<Rightarrow> u128 \<times> u128 \<times> u128 \<times> u128 \<Rightarrow> u32" where
  "vectors poly = (\<lambda>(x0, x1, x2, x3).
     crc_bits poly 384 (msg128 poly x0) XOR crc_bits poly 256 (msg128 poly x1) XOR
     crc_bits poly 128 (msg128 poly x2) XOR msg128 poly x3)"

lemma load_16: "16 \<le> length M \<Longrightarrow> msg128 poly (load Little M) = crc_update poly 0 (take 16 M)"
  by (simp add: crc_update_16 load_def bit_cast_word_def)

lemma vectors_load:
  assumes "64 \<le> length M"
  shows "vectors poly (load Little M, load Little (drop 16 M), load Little (drop 32 M), load Little (drop 48 M)) =
    crc_update poly 0 (take 64 M)"
proof -
  have c: "crc_update poly 0 (take (16 + b) (drop a M)) =
      crc_bits poly (8 * b) (crc_update poly 0 (take 16 (drop a M))) XOR crc_update poly 0 (take b (drop (16 + a) M))"
    if "a + b \<le> 48" for a b
    using crc_update_chunks [of 16 b "drop a M" poly 0] that assms by simp
  show ?thesis using c [of 0 48] c [of 16 32] c [of 32 16] assms
    by (simp add: vectors_def load_16 crc_bits_xor xor_ac flip: crc_bits_add)
qed

lemma vectors_start:
  assumes "64 \<le> length M"
  shows "vectors poly (ucast crc XOR load Little M, load Little (drop 16 M), load Little (drop 32 M),
      load Little (drop 48 M)) = crc_update poly crc (take 64 M)"
proof -
  have "msg128 poly (ucast crc) = crc_bits poly 128 crc"
    using msg128_push [of 0 poly crc] by simp
  moreover have "msg128 poly (x XOR y) = msg128 poly x XOR msg128 poly y" for x y
    using linear_msg(4) [of "\<lambda>x. x" poly] by (simp add: linear_intros xor_linear_def)
  moreover have "crc_update poly crc (take 64 M) = crc_bits poly 512 crc XOR crc_update poly 0 (take 64 M)"
    using crc_update_zero [of poly crc "take 64 M"] assms by simp
  ultimately show ?thesis
    unfolding vectors_load [OF assms, symmetric] by (simp add: vectors_def crc_bits_xor xor_ac flip: crc_bits_add)
qed

lemma folds:
  assumes "clmul_ok clmul"
  shows "msg128 P32 (fold_by clmul (setr_epi32 0x740eef02 0 0x9e4addf8 0) x m) = crc_bits P32 512 (msg128 P32 x) XOR msg128 P32 m"
    "msg128 P32 (fold_by clmul (setr_epi32 0xf20c0dfe 0 0x493c7d27 0) x m) = crc_bits P32 128 (msg128 P32 x) XOR msg128 P32 m"
    "msg128 P32 (fold_by clmul (setr_epi32 0x3da6d0cb 0 0xba4fc28e 0) x m) = crc_bits P32 256 (msg128 P32 x) XOR msg128 P32 m"
  using msg128_fold [OF assms, of 512 P32 x m] msg128_fold [OF assms, of 128 P32 x m] msg128_fold [OF assms, of 256 P32 x m]
  by (simp_all add: fold_constants)

lemma vectors_fold:
  assumes "clmul_ok clmul" and "64 \<le> length buf2"
  shows "vectors P32 (fold_chunk clmul (setr_epi32 0x740eef02 0 0x9e4addf8 0) buf2 xs) =
    crc_update P32 (vectors P32 xs) (take 64 buf2)"
proof (cases xs)
  case (fields x0 x1 x2 x3)
  have "crc_update P32 (vectors P32 xs) (take 64 buf2) = crc_bits P32 512 (vectors P32 xs) XOR crc_update P32 0 (take 64 buf2)"
    using crc_update_zero [of P32 "vectors P32 xs" "take 64 buf2"] assms(2) by simp
  then show ?thesis
    unfolding vectors_load [OF assms(2), symmetric]
    by (simp add: fields vectors_def fold_chunk_def folds [OF assms(1)] crc_bits_xor xor_ac flip: crc_bits_add)
qed

lemma vectors_reduce:
  assumes "clmul_ok clmul"
  shows "msg128 P32 (reduce_four clmul xs) = vectors P32 xs"
  by (cases xs) (simp add: reduce_four_def vectors_def Let_def folds [OF assms] crc_bits_xor xor_ac flip: crc_bits_add)


text \<open>The three scalar streams, each \<open>n\<close> words of 24 bytes further.\<close>

definition scalars :: "u32 \<Rightarrow> byte list \<Rightarrow> nat \<Rightarrow> nat \<Rightarrow> u32 \<times> u32 \<times> u32" where
  "scalars poly B klen n =
     (crc_update poly 0 (take (24 * n) B), crc_update poly 0 (take (24 * n) (drop klen B)),
      crc_update poly 0 (take (24 * n) (drop (klen * 2) B)))"

lemma crc_three_words:
  assumes "intrinsics_ok poly I" and "pos + 24 * Suc n \<le> length B"
  shows "crc_u64 I (crc_u64 I (crc_u64 I (crc_update poly 0 (take (24 * n) (drop pos B)))
      (load Little (drop (24 * n + pos) B))) (load Little (drop (24 * n + (pos + 8)) B)))
      (load Little (drop (24 * n + (pos + 16)) B)) = crc_update poly 0 (take (24 * Suc n) (drop pos B))"
proof -
  let ?M = "drop (24 * n + pos) B"
  have "take (24 * Suc n) (drop pos B) = take (24 * n) (drop pos B) @ take 24 ?M"
    using take_add [of "24 * n" 24 "drop pos B"] by (simp add: ac_simps)
  moreover have "take 24 ?M = take 8 ?M @ take 8 (drop 8 ?M) @ take 8 (drop 16 ?M)"
    using take_add [of 8 16 ?M] take_add [of 8 8 "drop 8 ?M"] by simp
  moreover have "drop 8 ?M = drop (24 * n + (pos + 8)) B" "drop 16 ?M = drop (24 * n + (pos + 16)) B"
    by (simp_all add: ac_simps)
  ultimately show ?thesis using assms by (simp add: intrinsics_load crc_update_append)
qed

lemma scalars_step:
  assumes "intrinsics_ok poly I" and "klen * 2 + 24 * Suc n \<le> length B"
  shows "scalar_chunk I (drop (24 * n) B) klen (scalars poly B klen n) = scalars poly B klen (Suc n)"
  using crc_three_words [OF assms(1), of 0 n B] crc_three_words [OF assms(1), of klen n B]
    crc_three_words [OF assms(1), of "klen * 2" n B] assms(2)
  by (simp add: scalar_chunk_def scalars_def Let_def add.commute add.left_commute)

lemma intel_loop_correct:
  assumes "intrinsics_ok P32 I" and "clmul_ok clmul" and "8 \<le> rest" and "rest < 144"
  shows "vectors P32 xs = crc_update P32 crc (take (64 * Suc j) buf) \<Longrightarrow>
    64 * Suc (j + k) \<le> length buf \<Longrightarrow> klen * 2 + 24 * (j + k) \<le> length B \<Longrightarrow>
    \<exists>xs'. intel_loop I clmul klen (drop (24 * j) B) (drop (64 * Suc j) buf) (136 * k + rest) xs (scalars P32 B klen j) =
        (drop (24 * (j + k)) B, rest, xs', scalars P32 B klen (j + k)) \<and>
      vectors P32 xs' = crc_update P32 crc (take (64 * Suc (j + k)) buf)"
proof (induction k arbitrary: j xs)
  case 0
  then show ?case using assms(4) by (subst intel_loop.simps) simp
next
  case (Suc k)
  let ?xs = "fold_chunk clmul (setr_epi32 0x740eef02 0 0x9e4addf8 0) (drop (64 * Suc j) buf) xs"
  have "take (64 * Suc (Suc j)) buf = take (64 * Suc j) buf @ take 64 (drop (64 * Suc j) buf)"
    using take_add [of "64 * Suc j" 64 buf] by (simp add: add.commute)
  then have "vectors P32 ?xs = crc_update P32 crc (take (64 * Suc (Suc j)) buf)"
    using vectors_fold [OF assms(2), of "drop (64 * Suc j) buf" xs] Suc.prems by (simp add: crc_update_append)
  from Suc.IH [OF this] obtain xs' where
    "intel_loop I clmul klen (drop (24 * Suc j) B) (drop (64 * Suc (Suc j)) buf) (136 * k + rest) ?xs
        (scalars P32 B klen (Suc j)) = (drop (24 * (Suc j + k)) B, rest, xs', scalars P32 B klen (Suc j + k)) \<and>
      vectors P32 xs' = crc_update P32 crc (take (64 * Suc (Suc j + k)) buf)"
    using Suc.prems by auto
  moreover have "136 * Suc k + rest \<ge> 144" using assms(3) by simp
  moreover have "scalar_chunk I (drop (24 * j) B) klen (scalars P32 B klen j) = scalars P32 B klen (Suc j)"
    using Suc.prems by (intro scalars_step [OF assms(1)]) simp
  ultimately show ?case
    by (subst intel_loop.simps) (simp add: Let_def ac_simps)
qed

lemma crc_shift_msg:
  assumes "intrinsics_ok poly I" and "clmul_ok clmul" and "5 \<le> n" and "n < 2 ^ 61"
  shows "msg64 poly (vec_lo (crc_shift I clmul crc (of_nat n))) = crc_bits poly (8 * n) crc"
proof -
  have e: "of_nat n * 8 - 33 = (of_nat (8 * n - 33) :: u64)" using assms(3) by (simp add: of_nat_diff ac_simps)
  have "unat (of_nat n * 8 - 33 :: u64) = 8 * n - 33"
    unfolding e using assms(4) by (subst unsigned_of_nat) (simp add: take_bit_nat_eq_self)
  then show ?thesis
    using assms msg64_product [of poly crc "8 * n - 33"]
    by (simp add: crc_shift_def xnmodp_xpow [OF assms(1,2)] clmul_scalar_def clmul_lo_def clmul_ok_def)
qed


lemma msg64_xor: "msg64 poly (x XOR y) = msg64 poly x XOR msg64 poly y"
  using linear_msg(3) [of "\<lambda>x. x" poly] by (simp add: linear_intros xor_linear_def)

lemma vec_lo_xor: "vec_lo (x XOR y) = vec_lo x XOR vec_lo y"
  by (simp add: vec_lo_def unsigned_xor_eq)

lemma crc_u64_pair:
  assumes "intrinsics_ok poly I"
  shows "crc_u64 I (crc_u64 I 0 (vec_lo x)) (vec_hi x) = msg128 poly x"
  by (simp add: crc_u64_msg [OF assms] msg128_def)

text \<open>The five parts of the message put together again.\<close>

lemma intel_parts:
  assumes "64 * blk + 3 * klen + 8 \<le> length buf" and "B = drop (64 * blk) buf"
  shows "crc_update poly crc (take (64 * blk + 3 * klen + 8) buf) =
    crc_bits poly (8 * (klen * 3 + 8)) (crc_update poly crc (take (64 * blk) buf)) XOR
    (crc_bits poly (8 * (klen * 2 + 8)) (crc_update poly 0 (take klen B)) XOR
    (crc_bits poly (8 * (klen + 8)) (crc_update poly 0 (take klen (drop klen B))) XOR
    (crc_bits poly 64 (crc_update poly 0 (take klen (drop (klen * 2) B))) XOR
     msg64 poly (load Little (drop (klen * 3) B)))))"
  using crc_update_chunks [of "64 * blk" "klen * 3 + 8" buf poly crc] crc_update_chunks [of klen "klen * 2 + 8" B poly 0]
    crc_update_chunks [of klen "klen + 8" "drop klen B" poly 0] crc_update_chunks [of klen 8 "drop (klen * 2) B" poly 0]
    crc_update_8 [of "take 8 (drop (klen * 3) B)" poly 0] assms
  by (simp add: load_Little algebra_simps)

lemma intel_blocks_result:
  assumes "intrinsics_ok P32 I" and "clmul_ok clmul" and "len = 136 * Suc k + rest" and "8 \<le> rest" and "rest < 144"
    and "len \<le> length buf" and "len < 2 ^ 61"
  shows "intel_blocks I clmul buf len crc =
    (drop (136 * Suc k + 8) buf, rest - 8, crc_update P32 crc (take (136 * Suc k + 8) buf))"
proof -
  have blk: "(len - 8) div 136 = Suc k" using assms(3-5) by (simp add: div_nat_eqI)
  define klen where "klen = Suc k * 24"
  define B where "B = drop (Suc k * 64) buf"
  let ?xs = "(ucast crc XOR load Little buf, load Little (drop 16 buf), load Little (drop 32 buf), load Little (drop 48 buf))"
  have size: "64 * Suc (0 + k) \<le> length buf" "klen * 2 + 24 * (0 + k) \<le> length B" "klen * 2 + 24 * Suc k \<le> length B"
    "64 * Suc k + 3 * klen + 8 \<le> length buf" "klen * 3 + 8 \<le> len" "5 \<le> klen"
    using assms(3-6) by (simp_all add: klen_def B_def)
  have "vectors P32 ?xs = crc_update P32 crc (take (64 * Suc 0) buf)"
    using vectors_start [of buf P32 crc] assms(3,6) by simp
  from intel_loop_correct [OF assms(1,2,4,5) this size(1,2)] obtain xs where
    loop: "intel_loop I clmul klen B (drop 64 buf) (136 * k + rest) ?xs (0, 0, 0) =
        (drop (24 * k) B, rest, xs, scalars P32 B klen k)"
      and xs: "vectors P32 xs = crc_update P32 crc (take (64 * Suc k) buf)"
    by (auto simp: scalars_def)
  have chunk: "scalar_chunk I (drop (24 * k) B) klen (scalars P32 B klen k) = scalars P32 B klen (Suc k)"
    by (rule scalars_step [OF assms(1) size(3)])
  have shift: "msg64 P32 (vec_lo (crc_shift I clmul c (of_nat n))) = crc_bits P32 (8 * n) c"
    if "5 \<le> n" "n \<le> len" for c n
    using that assms(7) by (intro crc_shift_msg [OF assms(1,2)]) simp_all
  have pos: "24 * Suc k = klen" "24 + 24 * k = klen" "24 * k + 24 = klen" by (simp_all add: klen_def)
  let ?c0 = "crc_update P32 0 (take klen B)" and ?c1 = "crc_update P32 0 (take klen (drop klen B))"
    and ?c2 = "crc_update P32 0 (take klen (drop (klen * 2) B))"
  have streams: "scalars P32 B klen (Suc k) = (?c0, ?c1, ?c2)" unfolding scalars_def pos ..
  have data: "drop (klen * 2) (drop 24 (drop (24 * k) B)) = drop (klen * 3) B" by (simp add: klen_def algebra_simps)
  have "len - 136 = 136 * k + rest" using assms(3) by simp
  then have blocks: "intel_blocks I clmul buf len crc =
      (drop 8 (drop (klen * 3) B), rest - 8, crc_u64 I ?c2 (load Little (drop (klen * 3) B) XOR
        (vec_lo (crc_shift I clmul ?c0 (of_nat (klen * 2 + 8)) XOR crc_shift I clmul ?c1 (of_nat (klen + 8))) XOR
         vec_lo (crc_shift I clmul (vectors P32 xs) (of_nat (klen * 3 + 8))))))"
    unfolding intel_blocks_def blk Let_def klen_def [symmetric] B_def [symmetric]
    by (simp only: loop chunk streams prod.case data crc_u64_pair [OF assms(1)] vectors_reduce [OF assms(2)])
  have "crc_u64 I ?c2 (load Little (drop (klen * 3) B) XOR
        (vec_lo (crc_shift I clmul ?c0 (of_nat (klen * 2 + 8)) XOR crc_shift I clmul ?c1 (of_nat (klen + 8))) XOR
         vec_lo (crc_shift I clmul (vectors P32 xs) (of_nat (klen * 3 + 8))))) =
      crc_update P32 crc (take (64 * Suc k + 3 * klen + 8) buf)"
    unfolding intel_parts [OF size(4) B_def [unfolded mult.commute [of "Suc k"]]]
    using size(5,6)
    by (simp only: crc_u64_msg [OF assms(1)] msg64_xor vec_lo_xor shift xs) (simp add: xor_ac)
  moreover have "64 * Suc k + 3 * klen + 8 = 136 * Suc k + 8" "drop 8 (drop (klen * 3) B) = drop (136 * Suc k + 8) buf"
    by (simp_all add: klen_def B_def algebra_simps)
  ultimately show ?thesis unfolding blocks by (simp only: )
qed

lemma intel_blocks_pending:
  assumes "intrinsics_ok P32 I" and "clmul_ok clmul" and "pending P32 r (buf, len, crc)" and "144 \<le> len" and "len < 2 ^ 61"
  shows "pending P32 r (intel_blocks I clmul buf len crc)"
proof -
  define k where "k = (len - 8) div 136 - 1"
  define rest where "rest = len - 136 * Suc k"
  have l: "len = 136 * Suc k + rest" "8 \<le> rest" "rest < 144" using assms(4) by (auto simp: k_def rest_def)
  have "pending P32 r (drop (136 * Suc k + 8) buf, len - (136 * Suc k + 8), crc_update P32 crc (take (136 * Suc k + 8) buf))"
    using assms(3) l by (intro pending_step) auto
  moreover have "len - (136 * Suc k + 8) = rest - 8" "len \<le> length buf" using l assms(3) by (simp_all add: pending_def)
  ultimately show ?thesis using intel_blocks_result [OF assms(1,2) l _ assms(5)] by (simp only: )
qed

lemma intel_align_pending:
  assumes "intrinsics_ok poly I"
  shows "pending poly r (buf, len, crc) \<Longrightarrow> intel_align I address buf len crc = (address', buf', len', crc') \<Longrightarrow>
    pending poly r (buf', len', crc') \<and> len' \<le> len"
proof (induction len arbitrary: address buf crc)
  case (Suc len)
  have next_byte: "pending poly r (drop 1 buf, len, crc_u8 I crc (buf ! 0))"
    using pending_step [OF Suc.prems(1), of 1 "crc_u8 I crc (buf ! 0)"] Suc.prems(1) assms
    by (cases buf) (simp_all add: pending_def intrinsics_ok_def le_bytes_def)
  show ?case
  proof (cases "address AND 7 = 0")
    case True
    then show ?thesis using Suc.prems by simp
  next
    case False
    then show ?thesis using Suc.IH [OF next_byte] Suc.prems(2) by fastforce
  qed
qed simp

lemma crc_u8_tail:
  assumes "intrinsics_ok poly I"
  shows "foldl (crc_u8 I) R bs = crc_update poly R bs"
  using assms by (induction bs arbitrary: R) (simp_all add: intrinsics_ok_def crc_update_Cons le_bytes_def)

lemma crc32c_impl_update:
  assumes "intrinsics_ok P32 I" and "clmul_ok clmul" and "len \<le> length buf" and "len < 2 ^ 61"
  shows "crc32c_impl I clmul address crc buf len = NOT (crc_update P32 (NOT crc) (take len buf))"
proof -
  let ?r = "crc_update P32 (NOT crc) (take len buf)"
  obtain a1 M1 n1 R1 where 1: "intel_align I address buf len (NOT crc) = (a1, M1, n1, R1)" using prod_cases4 by blast
  then have p1: "pending P32 ?r (M1, n1, R1)" "n1 < 2 ^ 61"
    using intel_align_pending [OF assms(1) _ 1, of ?r] assms(3,4) by (simp_all add: pending_def)
  obtain M2 n2 R2 where 2: "(if a1 AND 8 \<noteq> 0 \<and> n1 \<ge> 8 then (drop 8 M1, n1 - 8, crc_u64 I R1 (load Little M1))
      else (M1, n1, R1)) = (M2, n2, R2)" by (rule prod_cases3)
  then have p2: "pending P32 ?r (M2, n2, R2)" "n2 < 2 ^ 61"
    using p1 pending_u64 [OF assms(1) p1(1)] by (auto split: if_splits)
  obtain M3 n3 R3 where 3: "(if n2 \<ge> 144 then intel_blocks I clmul M2 n2 R2 else (M2, n2, R2)) = (M3, n3, R3)"
    by (rule prod_cases3)
  then have p3: "pending P32 ?r (M3, n3, R3)"
    using p2 intel_blocks_pending [OF assms(1,2) p2(1)] by (auto split: if_splits)
  obtain M4 n4 R4 where 4: "hardware_armv7_words I M3 n3 R3 = (M4, n4, R4)" by (rule prod_cases3)
  then have "pending P32 ?r (M4, n4, R4)" using hardware_armv7_words_pending [OF assms(1) p3] by simp
  then show ?thesis
    unfolding crc32c_impl_def Let_def 1 prod.case 2 3 4 by (simp add: crc_u8_tail [OF assms(1)] pending_def)
qed

section \<open>All versions agree\<close>

text \<open>
  C21: On a processor whose CRC and carry-less multiplication instructions do what the manuals say, every
  version of CRC-32C returns the checksum of the table implementation: the three-way folding version for
  64-bit Intel at every address and for every length below 2 to the 61, the four-way version for ARMv8 and the
  simple loops for 32-bit Intel and ARMv7 for every length below 2 to the 32.
\<close>

theorem crc32c_hardware_equals_tabular:
  assumes "intrinsics_ok polynomial_crc32c I" and "clmul_ok clmul" and "len \<le> length data" and "len < 2 ^ 61"
  shows "crc32c (Hardware_64 I clmul address) data len remainder = crc32c (Tabular Little) data len remainder \<and>
    (len < 2 ^ 32 \<longrightarrow>
      crc32c (Hardware_32 I) data len remainder = crc32c (Tabular Little) data len remainder \<and>
      crc32c (Hardware_armv8 I clmul) data len remainder = crc32c (Tabular Little) data len remainder \<and>
      crc32c (Hardware_armv7 I) data len remainder = crc32c (Tabular Little) data len remainder)"
proof -
  have "unat (word_of_nat len :: u32) = len" if "len < 2 ^ 32" using that by (simp add: unat_of_nat)
  then show ?thesis
    using assms crc32c_hardware_armv8_update [OF assms(1,2), of "word_of_nat len" data "NOT remainder"]
    by (simp add: crc32c.simps(1,3) crc32c_impl_update crc32c_hardware crc32c_Tabular)
qed

theorem crc32c_hardware_equals_tabular_witness:
  "let I = software_intrinsics polynomial_crc32c; data = replicate 1500 0x31
   in crc32c (Hardware_64 I carryless 5) data 1500 0 = crc32c (Tabular Little) data 1500 0 \<and>
      crc32c (Hardware_32 I) data 1500 0 = crc32c (Tabular Little) data 1500 0 \<and>
      crc32c (Hardware_armv8 I carryless) data 1500 0 = crc32c (Tabular Little) data 1500 0 \<and>
      crc32c (Hardware_armv7 I) data 1500 0 = crc32c (Tabular Little) data 1500 0"
proof -
  have "clmul_ok carryless" by (simp add: clmul_ok_def)
  from crc32c_hardware_equals_tabular [OF software_intrinsics_ok this, of 1500 "replicate 1500 0x31" 5 0]
  show ?thesis by (simp add: Let_def)
qed

text \<open>The ARMv8 version takes its length as \<open>uint32_t\<close>, as the simple loops do.\<close>

lemma crc32c_armv8_length_wraps: "crc32c (Hardware_armv8 I clmul) data (2 ^ 32) 0 = 0"
  by (simp add: crc32c.simps crc32c_hardware_armv8_def armv8_blocks.simps hardware_armv7_words.simps)

end
