(* ===== verification/Rolling.thy ===== *)
theory Rolling
  imports Prelude
begin

text \<open>
  The rolling buffer of \<open>common/include/sg/rolling_contiguous_buffer.h\<close>: a vector of at most
  \<open>m_max_size\<close> elements of which the last \<open>m_cb_size\<close> (from \<open>pos_begin\<close> to \<open>pos_end\<close>) are the
  contents. When an insertion would go past \<open>m_max_size\<close> the elements to keep are shifted to the front,
  by \<open>memcpy\<close> for trivially copyable element types with enough reserve and by building a new vector
  otherwise.

  The vector is a list. Its capacity (the \<open>reserve\<close> calls) has no effect on the contents and is left
  out. Sizes are natural numbers: the buffer holds fewer than 2 to the 64 elements.

  What a client relies on, that inserting keeps the last \<open>capacity\<close> elements, is the locale
  \<open>bounded_log\<close>.
\<close>

section \<open>The contract\<close>

locale bounded_log =
  fixes ok :: "'r \<Rightarrow> bool"
    and cap :: "'r \<Rightarrow> nat"
    and contents :: "'r \<Rightarrow> 'a list"
    and put :: "'a list \<Rightarrow> 'r \<Rightarrow> 'r"
  assumes put_ok: "ok r \<Longrightarrow> ok (put xs r)"
    and put_cap: "ok r \<Longrightarrow> cap (put xs r) = cap r"
    and put_contents: "ok r \<Longrightarrow> contents (put xs r) = last_n (cap r) (contents r @ xs)"
begin

text \<open>Any number of insertions is one insertion of everything, whatever the chunks.\<close>

lemma puts:
  assumes "ok r"
  shows "ok (foldl (\<lambda>r xs. put xs r) r xss) \<and> cap (foldl (\<lambda>r xs. put xs r) r xss) = cap r \<and>
    last_n (cap r) (contents (foldl (\<lambda>r xs. put xs r) r xss)) =
      last_n (cap r) (contents r @ concat xss)"
  using assms
proof (induction xss arbitrary: r)
  case (Cons xs xss)
  have ok: "ok (put xs r)" by (rule put_ok [OF Cons.prems])
  show ?case
    using Cons.IH [OF ok] last_n_append_last_n [of "cap r" "contents r @ xs" "concat xss"]
    by (simp add: put_cap [OF Cons.prems] put_contents [OF Cons.prems])
qed simp

lemma length_contents_put: "ok r \<Longrightarrow> length (contents (put xs r)) \<le> cap r"
  by (simp add: put_contents)

end

section \<open>The code\<close>

record 'a rolling_contiguous_buffer =
  m_data :: "'a list"
  m_cb_size :: nat
  m_max_size :: nat
  pos_begin :: nat
  pos_end :: nat

type_synonym 'a rcb = "'a rolling_contiguous_buffer"

definition new_rolling :: "nat \<Rightarrow> nat \<Rightarrow> 'a rcb" where
  "new_rolling sz reserveSize =
     \<lparr>m_data = [], m_cb_size = sz, m_max_size = sz + reserveSize, pos_begin = 0, pos_end = 0\<rparr>"

definition advance_pos :: "nat \<Rightarrow> 'a rcb \<Rightarrow> 'a rcb" where
  "advance_pos count r =
     (let r = r\<lparr>pos_end := pos_end r + count\<rparr>
      in if pos_end r - pos_begin r > m_cb_size r then r\<lparr>pos_begin := pos_end r - m_cb_size r\<rparr> else r)"

definition ensure_space_move :: "nat \<Rightarrow> 'a rcb \<Rightarrow> 'a rcb" where
  "ensure_space_move noNewPoints r =
     (let noToKeep = m_cb_size r - noNewPoints;
          newVec = take noToKeep (drop (pos_end r - noToKeep) (m_data r))
      in r\<lparr>m_data := newVec, pos_begin := 0, pos_end := length newVec\<rparr>)"

text \<open>\<open>memcpy\<close> of \<open>n\<close> elements inside one array, from index \<open>src\<close> to its start.\<close>

definition memcpy_front :: "nat \<Rightarrow> nat \<Rightarrow> 'a list \<Rightarrow> 'a list" where
  "memcpy_front src n xs = take n (drop src xs) @ drop n xs"

text \<open>\<open>trivial\<close> is \<open>std::is_trivially_copyable_v<T>\<close>.\<close>

definition ensure_space :: "bool \<Rightarrow> nat \<Rightarrow> 'a rcb \<Rightarrow> 'a rcb" where
  "ensure_space trivial noNewPoints r =
     (if pos_end r + noNewPoints > m_max_size r then
        if noNewPoints \<ge> m_cb_size r then r\<lparr>pos_begin := 0, pos_end := 0, m_data := []\<rparr>
        else if trivial then
          if m_max_size r - m_cb_size r \<ge> m_cb_size r then
            let noToKeep = m_cb_size r - noNewPoints;
                copied = memcpy_front (pos_end r - noToKeep) noToKeep (m_data r)
            in r\<lparr>pos_begin := 0, pos_end := noToKeep, m_data := take noToKeep copied\<rparr>
          else ensure_space_move noNewPoints r
        else ensure_space_move noNewPoints r
      else r)"

definition push_back :: "bool \<Rightarrow> 'a \<Rightarrow> 'a rcb \<Rightarrow> 'a rcb" where
  "push_back trivial val r =
     (let r = ensure_space trivial 1 r in advance_pos 1 (r\<lparr>m_data := m_data r @ [val]\<rparr>))"

definition append_range :: "bool \<Rightarrow> 'a list \<Rightarrow> 'a rcb \<Rightarrow> 'a rcb" where
  "append_range trivial xs r =
     (let count = length xs;
          (xs, count) = (if count > m_cb_size r then (drop (count - m_cb_size r) xs, m_cb_size r)
                         else (xs, count));
          r = ensure_space trivial count r
      in advance_pos count (r\<lparr>m_data := m_data r @ xs\<rparr>))"

definition rcb_resize :: "nat \<Rightarrow> nat \<Rightarrow> 'a rcb \<Rightarrow> 'a rcb" where
  "rcb_resize sz reserve_size r =
     (let toCopy = min (pos_end r - pos_begin r) sz;
          newVec = drop (length (m_data r) - toCopy) (m_data r)
      in \<lparr>m_data = newVec, m_cb_size = sz, m_max_size = sz + reserve_size,
          pos_begin = 0, pos_end = toCopy\<rparr>)"

definition rcb_clear :: "'a rcb \<Rightarrow> 'a rcb" where
  "rcb_clear r = r\<lparr>m_data := [], pos_begin := 0, pos_end := 0\<rparr>"

definition rcb_size :: "'a rcb \<Rightarrow> nat" where
  "rcb_size r = pos_end r - pos_begin r"

text \<open>
  \<open>operator[]\<close> as an offset from the first element; \<open>None\<close> where the source would index past the end
  of the vector. \<open>front\<close> and \<open>back\<close> dereference \<open>begin()\<close> and \<open>end() - 1\<close>.
\<close>

definition rcb_at :: "'a rcb \<Rightarrow> nat \<Rightarrow> 'a option" where
  "rcb_at r i = (if pos_begin r + i < length (m_data r) then Some (m_data r ! (pos_begin r + i)) else None)"

definition rcb_front :: "'a rcb \<Rightarrow> 'a option" where
  "rcb_front r = rcb_at r 0"

definition rcb_back :: "'a rcb \<Rightarrow> 'a option" where
  "rcb_back r = (if rcb_size r = 0 then None else rcb_at r (rcb_size r - 1))"

text \<open>The range from \<open>begin()\<close> to \<open>end()\<close>.\<close>

definition elements :: "'a rcb \<Rightarrow> 'a list" where
  "elements r = take (pos_end r - pos_begin r) (drop (pos_begin r) (m_data r))"

section \<open>Invariant\<close>

text \<open>
  The vector ends where the contents end; the contents do not exceed the buffer size, and once
  elements have been dropped the buffer is full. Only a buffer of size zero may exceed its maximum.
\<close>

definition rcb_inv :: "'a rcb \<Rightarrow> bool" where
  "rcb_inv r \<longleftrightarrow> length (m_data r) = pos_end r \<and> pos_begin r \<le> pos_end r \<and>
     pos_end r - pos_begin r \<le> m_cb_size r \<and>
     (pos_begin r > 0 \<longrightarrow> pos_end r - pos_begin r = m_cb_size r) \<and>
     m_cb_size r \<le> m_max_size r \<and> (m_cb_size r > 0 \<longrightarrow> pos_end r \<le> m_max_size r)"

named_theorems rcb_defs
declare new_rolling_def [rcb_defs] advance_pos_def [rcb_defs] rcb_inv_def [rcb_defs]
  elements_def [rcb_defs] rcb_size_def [rcb_defs] Let_def [rcb_defs]

lemma elements_last_n: "rcb_inv r \<Longrightarrow> elements r = last_n (pos_end r - pos_begin r) (m_data r)"
  by (simp add: rcb_defs last_n_def)

lemma length_elements: "rcb_inv r \<Longrightarrow> length (elements r) = rcb_size r"
  by (simp add: rcb_defs)

lemma rcb_inv_new: "rcb_inv (new_rolling sz reserveSize)"
  and elements_new: "elements (new_rolling sz reserveSize) = []"
  by (simp_all add: rcb_defs)

text \<open>
  What \<open>ensure_space\<close> leaves: room for the new elements, and of the old ones at least those that stay
  in the buffer when the new ones arrive.
\<close>

lemma ensure_space_move_spec:
  assumes inv: "rcb_inv r" and "pos_end r + n > m_max_size r" and "n < m_cb_size r"
  defines "r' \<equiv> ensure_space_move n r"
  shows "m_data r' = last_n (m_cb_size r - n) (elements r)" "pos_begin r' = 0"
    "pos_end r' = m_cb_size r - n" "m_cb_size r' = m_cb_size r" "m_max_size r' = m_max_size r"
proof -
  have keep: "m_cb_size r - n \<le> pos_end r - pos_begin r"
    using assms(1-3) by (cases "pos_begin r") (auto simp: rcb_defs)
  have "take (m_cb_size r - n) (drop (pos_end r - (m_cb_size r - n)) (m_data r)) =
      last_n (m_cb_size r - n) (m_data r)"
    using inv by (simp add: rcb_defs last_n_def)
  also have "\<dots> = last_n (m_cb_size r - n) (elements r)"
    using inv keep by (simp add: elements_last_n last_n_last_n)
  finally show "m_data r' = last_n (m_cb_size r - n) (elements r)" "pos_begin r' = 0"
    "pos_end r' = m_cb_size r - n" "m_cb_size r' = m_cb_size r" "m_max_size r' = m_max_size r"
    using keep inv unfolding r'_def
    by (simp_all add: ensure_space_move_def Let_def length_elements) (simp add: rcb_defs)
qed

text \<open>The \<open>memcpy\<close> branch does the same, and its source and target never overlap.\<close>

lemma memcpy_disjoint:
  assumes "rcb_inv r" and "pos_end r + n > m_max_size r" and "n < m_cb_size r"
    and "m_max_size r - m_cb_size r \<ge> m_cb_size r"
  shows "m_cb_size r - n \<le> pos_end r - (m_cb_size r - n)" "pos_end r - (m_cb_size r - n) + (m_cb_size r - n) \<le> length (m_data r)"
  using assms by (auto simp: rcb_defs)

lemma ensure_space_trivial:
  assumes "rcb_inv r" and "pos_end r + n > m_max_size r" and "n < m_cb_size r"
    and "m_max_size r - m_cb_size r \<ge> m_cb_size r"
  shows "ensure_space True n r = ensure_space_move n r"
  using assms memcpy_disjoint [OF assms]
  by (auto simp: ensure_space_def ensure_space_move_def memcpy_front_def Let_def rcb_inv_def)

lemma ensure_space_eq:
  "rcb_inv r \<Longrightarrow> ensure_space trivial n r =
     (if pos_end r + n > m_max_size r then
        if n \<ge> m_cb_size r then rcb_clear r else ensure_space_move n r
      else r)"
  using ensure_space_trivial [of r n]
  by (cases trivial) (auto simp: ensure_space_def rcb_clear_def)

lemma advance_pos_spec:
  assumes "length (m_data r) = pos_end r + n" and "pos_begin r \<le> pos_end r"
  defines "r' \<equiv> advance_pos n r"
  shows "elements r' = last_n (m_cb_size r) (drop (pos_begin r) (m_data r))"
    "pos_begin r' = max (pos_begin r) (pos_end r + n - m_cb_size r)" "pos_end r' = pos_end r + n"
    "m_data r' = m_data r" "m_cb_size r' = m_cb_size r" "m_max_size r' = m_max_size r"
proof -
  show pos: "pos_begin r' = max (pos_begin r) (pos_end r + n - m_cb_size r)" "pos_end r' = pos_end r + n"
    "m_data r' = m_data r" "m_cb_size r' = m_cb_size r" "m_max_size r' = m_max_size r"
    using assms(2) by (auto simp: r'_def advance_pos_def Let_def max_def)
  have "last_n C (drop b xs) = drop (max b (length xs - C)) xs" for C b and xs :: "'a list"
    by (cases "length xs - C \<le> b") (simp_all add: last_n_def max_def)
  then show "elements r' = last_n (m_cb_size r) (drop (pos_begin r) (m_data r))"
    using assms(1) by (simp add: elements_def pos)
qed

text \<open>Making room and then appending the new elements is what every insertion does.\<close>

lemma insertion:
  fixes trivial :: bool
  assumes inv: "rcb_inv r" and n: "length xs \<le> m_cb_size r \<or> length xs = 1"
  defines "r' \<equiv> (let r' = ensure_space trivial (length xs) r
                 in advance_pos (length xs) (r'\<lparr>m_data := m_data r' @ xs\<rparr>))"
  shows "rcb_inv r' \<and> elements r' = last_n (m_cb_size r) (elements r @ xs) \<and> m_cb_size r' = m_cb_size r"
proof -
  let ?C = "m_cb_size r" and ?n = "length xs"
  define r1 where "r1 = ensure_space trivial ?n r"
  let ?r2 = "r1\<lparr>m_data := m_data r1 @ xs\<rparr>"
  consider (clear) "pos_end r + ?n > m_max_size r" "?n \<ge> ?C"
    | (move) "pos_end r + ?n > m_max_size r" "?n < ?C"
    | (room) "pos_end r + ?n \<le> m_max_size r" by linarith
  then have "length (m_data r1) = pos_end r1 \<and> pos_begin r1 \<le> pos_end r1 \<and> m_cb_size r1 = ?C \<and>
      m_max_size r1 = m_max_size r \<and> (?C > 0 \<longrightarrow> pos_end r1 + ?n \<le> m_max_size r) \<and>
      (pos_begin r1 > 0 \<longrightarrow> pos_end r1 - pos_begin r1 = ?C) \<and>
      last_n ?C (drop (pos_begin r1) (m_data r1 @ xs)) = last_n ?C (elements r @ xs)"
  proof cases
    case clear
    then have "r1 = rcb_clear r" using inv by (simp add: r1_def ensure_space_eq)
    with clear inv n show ?thesis by (auto simp: rcb_clear_def rcb_inv_def last_n_append)
  next
    case move
    then have r1: "r1 = ensure_space_move ?n r" using inv by (simp add: r1_def ensure_space_eq)
    have "?C - ?n \<le> length (elements r)"
      using inv move by (cases "pos_begin r") (auto simp: rcb_defs)
    then show ?thesis
      using move inv unfolding r1 ensure_space_move_spec [OF inv move]
      by (simp add: last_n_append last_n_last_n rcb_inv_def)
  next
    case room
    then have "r1 = r" using inv by (simp add: r1_def ensure_space_eq)
    with room inv show ?thesis by (simp add: rcb_inv_def elements_def)
  qed
  note r1 = this
  then have "length (m_data ?r2) = pos_end ?r2 + ?n" "pos_begin ?r2 \<le> pos_end ?r2" by simp_all
  note spec = advance_pos_spec [OF this]
  have r': "r' = advance_pos ?n ?r2" by (simp add: r'_def r1_def Let_def)
  from r1 inv show ?thesis
    unfolding r' rcb_inv_def spec by (auto simp: rcb_inv_def)
qed

section \<open>The operations keep the contract\<close>

lemma push_back_eq: "push_back trivial x r =
    (let r' = ensure_space trivial (length [x]) r in advance_pos (length [x]) (r'\<lparr>m_data := m_data r' @ [x]\<rparr>))"
  by (simp add: push_back_def)

lemma append_range_eq: "append_range trivial xs r =
    (let ys = last_n (m_cb_size r) xs; r' = ensure_space trivial (length ys) r
     in advance_pos (length ys) (r'\<lparr>m_data := m_data r' @ ys\<rparr>))"
  by (simp add: append_range_def last_n_def Let_def)

lemma push_back_spec:
  assumes "rcb_inv r"
  shows "rcb_inv (push_back trivial x r)" "m_cb_size (push_back trivial x r) = m_cb_size r"
    "elements (push_back trivial x r) = last_n (m_cb_size r) (elements r @ [x])"
  using insertion [OF assms, of "[x]" trivial] by (simp_all only: push_back_eq Let_def) simp_all

lemma append_range_spec:
  assumes "rcb_inv r"
  shows "rcb_inv (append_range trivial xs r)" "m_cb_size (append_range trivial xs r) = m_cb_size r"
    "elements (append_range trivial xs r) = last_n (m_cb_size r) (elements r @ xs)"
  using insertion [OF assms, of "last_n (m_cb_size r) xs" trivial]
  by (simp_all only: append_range_eq Let_def last_n_append_trim length_last_n) simp_all

lemma rcb_resize_spec:
  assumes "rcb_inv r"
  shows "rcb_inv (rcb_resize sz reserve r)" "m_cb_size (rcb_resize sz reserve r) = sz"
    "elements (rcb_resize sz reserve r) = last_n sz (elements r)"
proof -
  let ?k = "min (pos_end r - pos_begin r) sz"
  have "elements (rcb_resize sz reserve r) = last_n ?k (m_data r)"
    using assms by (simp add: rcb_resize_def elements_def last_n_def Let_def rcb_inv_def)
  also have "\<dots> = last_n ?k (elements r)"
    using assms by (simp add: elements_last_n last_n_last_n)
  also have "\<dots> = last_n sz (elements r)"
    using length_elements [OF assms] by (simp add: rcb_size_def last_n_def min_def)
  finally show "elements (rcb_resize sz reserve r) = last_n sz (elements r)" .
qed (use assms in \<open>auto simp: rcb_resize_def rcb_inv_def Let_def\<close>)

lemma rcb_clear_spec:
  assumes "rcb_inv r"
  shows "rcb_inv (rcb_clear r)" "m_cb_size (rcb_clear r) = m_cb_size r" "elements (rcb_clear r) = []"
  using assms by (simp_all add: rcb_clear_def rcb_inv_def elements_def)

interpretation rcb_log: bounded_log rcb_inv m_cb_size elements "append_range trivial" for trivial
  by unfold_locales (simp_all add: append_range_spec)

lemma rcb_at_elements: "rcb_inv r \<Longrightarrow> rcb_at r i = (if i < rcb_size r then Some (elements r ! i) else None)"
  by (auto simp: rcb_at_def rcb_inv_def elements_def rcb_size_def)

section \<open>Refinement\<close>

text \<open>
  The abstract buffer: a size and the elements, oldest first. Its operations are the four kinds of
  calls a client makes.
\<close>

datatype 'a rcb_op = Push_back 'a | Append "'a list" | Resize nat nat | Clear

fun rcb_exec :: "bool \<Rightarrow> 'a rcb_op \<Rightarrow> 'a rcb \<Rightarrow> 'a rcb" where
  "rcb_exec trivial (Push_back x) r = push_back trivial x r"
| "rcb_exec trivial (Append xs) r = append_range trivial xs r"
| "rcb_exec trivial (Resize sz reserve) r = rcb_resize sz reserve r"
| "rcb_exec trivial Clear r = rcb_clear r"

fun log_exec :: "'a rcb_op \<Rightarrow> nat \<times> 'a list \<Rightarrow> nat \<times> 'a list" where
  "log_exec (Push_back x) (n, xs) = (n, last_n n (xs @ [x]))"
| "log_exec (Append ys) (n, xs) = (n, last_n n (xs @ ys))"
| "log_exec (Resize sz _) (n, xs) = (sz, last_n sz xs)"
| "log_exec Clear (n, xs) = (n, [])"

definition rcb_abs :: "'a rcb \<Rightarrow> nat \<times> 'a list" where
  "rcb_abs r = (m_cb_size r, elements r)"

lemma rcb_exec_refines:
  "rcb_inv r \<Longrightarrow> rcb_inv (rcb_exec trivial c r) \<and> rcb_abs (rcb_exec trivial c r) = log_exec c (rcb_abs r)"
  by (cases c)
    (simp_all add: rcb_abs_def push_back_spec append_range_spec rcb_resize_spec rcb_clear_spec)

lemma rcb_execs_refine:
  "rcb_inv r \<Longrightarrow> rcb_inv (fold (rcb_exec trivial) cs r) \<and>
     rcb_abs (fold (rcb_exec trivial) cs r) = fold log_exec cs (rcb_abs r)"
  by (induction cs arbitrary: r) (simp_all add: rcb_exec_refines)

text \<open>
  C6: After any sequence of insertions, resizings and clearings the range from \<open>begin()\<close> to \<open>end()\<close>
  of a rolling buffer is what the abstract buffer, which keeps the last \<open>capacity()\<close> elements, holds,
  whether or not the element type is trivially copyable and whatever the reserve.
\<close>

theorem rolling_buffer_refines_log:
  "rcb_abs (fold (rcb_exec trivial) cs (new_rolling sz reserve)) = fold log_exec cs (sz, [])"
  using rcb_execs_refine [OF rcb_inv_new, of trivial cs sz reserve]
  by (simp add: rcb_abs_def elements_new new_rolling_def [of sz reserve, THEN arg_cong [where f = m_cb_size]])



end
