(* ===== verification/Worker.thy ===== *)
theory Worker
  imports Prelude
begin

text \<open>
  The background worker of \<open>common/include/sg/worker.h\<close> and \<open>common/src/worker.cpp\<close>: one thread that
  runs a start callback, then tick callbacks until it is told to stop, then a stop callback.

  The members are the record \<open>worker\<close>. Each atomic access, semaphore operation or critical section
  of the source is one function on it, and \<open>worker_step\<close> has one rule per such action, of the worker
  thread, of the thread inside \<open>start()\<close> and of the threads that call the thread-safe operations; the
  rules interleave freely. Callbacks are arbitrary: a rule labels how one ends (it returns or
  throws), and whatever it calls on the worker is a step like any other. Calls of \<open>start()\<close> do not
  overlap each other. \<open>calls\<close> is a ghost: the callbacks of the current run and how they ended.
\<close>

section \<open>State\<close>

datatype thread = Client nat | Worker_thread

datatype cb_call = Call_start "unit res" | Call_tick "unit res" | Call_stop "unit res"

text \<open>Where the worker thread is inside \<open>action()\<close>; the callbacks are pending in the \<open>In_\<close> points.\<close>

datatype worker_pc =
    No_thread
  | Entered
  | In_start
  | Check_stop
  | Begin_tick
  | In_tick
  | After_tick
  | Waiting
  | Draining
  | Set_stopped "exn option"
  | In_stop "exn option"
  | Returning "unit res"
  | Finished

text \<open>Where the thread inside \<open>start()\<close> is.\<close>

datatype start_pc = Not_starting | Joining u64 | Resetting u64 | Discarding | Spawning | Awaiting

text \<open>\<open>m_result_future\<close>: not valid, valid and pending, or ready with a value or an exception.\<close>

datatype result_future = Invalid | Pending | Ready "unit res"

record worker =
  m_interval :: int
  m_running :: bool
  m_iterations_done :: u64
  m_stop_at_iteration :: u64
  m_checked_future :: bool
  m_joinable :: bool
  m_thread_id :: "thread option"
  m_stop_requested :: bool
  m_notify_sem :: nat
  m_result_future :: result_future
  m_correct_for_task_delay :: bool
  has_start_callback :: bool
  has_stop_callback :: bool
  start_promise :: "unit res option"
  pc :: worker_pc
  starter :: start_pc
  notifies_due :: nat
  targets_due :: "u64 list"
  calls :: "cb_call list"

definition MAX_ITERATION_COUNT :: u64 where
  "MAX_ITERATION_COUNT = - 1"

definition new_worker :: "int \<Rightarrow> bool \<Rightarrow> bool \<Rightarrow> bool \<Rightarrow> worker" where
  "new_worker interval on_start on_stop correct =
     \<lparr>m_interval = interval, m_running = False, m_iterations_done = 0,
      m_stop_at_iteration = MAX_ITERATION_COUNT, m_checked_future = False, m_joinable = False,
      m_thread_id = None, m_stop_requested = False, m_notify_sem = 0, m_result_future = Invalid,
      m_correct_for_task_delay = correct, has_start_callback = on_start,
      has_stop_callback = on_stop, start_promise = None, pc = No_thread, starter = Not_starting,
      notifies_due = 0, targets_due = [], calls = []\<rparr>"

section \<open>Operations any thread may call\<close>

definition notify :: "worker \<Rightarrow> worker" where
  "notify w = w\<lparr>m_notify_sem := m_notify_sem w + 1\<rparr>"

text \<open>\<open>request_stop\<close> is a store and a later \<open>notify\<close>, which is due in between.\<close>

definition request_stop_store :: "worker \<Rightarrow> worker" where
  "request_stop_store w = w\<lparr>m_stop_requested := True, notifies_due := notifies_due w + 1\<rparr>"

definition notify_due :: "worker \<Rightarrow> worker" where
  "notify_due w = notify (w\<lparr>notifies_due := notifies_due w - 1\<rparr>)"

definition request_stop :: "worker \<Rightarrow> worker" where
  "request_stop w = notify_due (request_stop_store w)"

text \<open>\<open>request_stop_after_iterations\<close>: the target computed from the counter, stored later.\<close>

definition stop_target :: "u64 \<Rightarrow> u64 \<Rightarrow> u64" where
  "stop_target iteration_count finished =
     (if iteration_count \<ge> MAX_ITERATION_COUNT - finished then MAX_ITERATION_COUNT - 1
      else finished + iteration_count)"

definition stop_after_load :: "u64 \<Rightarrow> worker \<Rightarrow> worker" where
  "stop_after_load iteration_count w =
     (if iteration_count = 0 then request_stop_store w
      else w\<lparr>targets_due := stop_target iteration_count (m_iterations_done w) # targets_due w\<rparr>)"

definition stop_after_store :: "u64 \<Rightarrow> worker \<Rightarrow> worker" where
  "stop_after_store target w =
     w\<lparr>m_stop_at_iteration := target, targets_due := remove1 target (targets_due w),
       notifies_due := notifies_due w + 1\<rparr>"

definition set_interval :: "int \<Rightarrow> worker \<Rightarrow> worker" where
  "set_interval interval w = w\<lparr>m_interval := interval\<rparr>"

text \<open>
  \<open>wait_for_stop\<close> throws in the worker thread; elsewhere it blocks (\<open>None\<close>) while the thread runs and
  joins it when it has finished.
\<close>

definition wait_for_stop :: "thread \<Rightarrow> worker \<Rightarrow> (worker \<times> unit res) option" where
  "wait_for_stop caller w =
     (if m_thread_id w = Some caller then Some (w, Inl Logic_error)
      else if m_joinable w then
        if pc w = Finished
        then Some (w\<lparr>m_joinable := False, m_thread_id := None, pc := No_thread\<rparr>, Inr ())
        else None
      else Some (w, Inr ()))"

text \<open>\<open>future_get_once\<close>: the first caller waits for the result and rethrows its exception.\<close>

definition future_get_once :: "worker \<Rightarrow> (worker \<times> unit res) option" where
  "future_get_once w =
     (let w' = w\<lparr>m_checked_future := True\<rparr>
      in if m_checked_future w then Some (w', Inr ())
         else (case m_result_future w of
             Invalid \<Rightarrow> Some (w', Inr ())
           | Pending \<Rightarrow> None
           | Ready r \<Rightarrow> Some (w', r)))"

section \<open>start\<close>

text \<open>The compare-and-exchange on the state. In the worker thread the following \<open>wait_for_stop\<close>, which
  is outside the try block, throws.\<close>

definition start_cas :: "thread \<Rightarrow> u64 \<Rightarrow> worker \<Rightarrow> worker \<times> unit res" where
  "start_cas caller stopAtIteration w =
     (if m_running w then (w, Inl Runtime_error)
      else let w = w\<lparr>m_running := True\<rparr>
           in if m_thread_id w = Some caller then (w, Inl Logic_error)
              else (w\<lparr>starter := Joining stopAtIteration\<rparr>, Inr ()))"

definition start_joined :: "u64 \<Rightarrow> worker \<Rightarrow> worker" where
  "start_joined n w = w\<lparr>starter := Resetting n\<rparr>"

definition start_reset :: "u64 \<Rightarrow> worker \<Rightarrow> worker" where
  "start_reset n w =
     w\<lparr>m_result_future := Pending, m_stop_requested := False, m_iterations_done := 0,
       m_stop_at_iteration := n, m_checked_future := False, start_promise := None,
       starter := Discarding\<rparr>"

text \<open>One round of \<open>while (m_notify_sem.try_acquire()) {}\<close>.\<close>

definition start_discard :: "worker \<Rightarrow> worker" where
  "start_discard w =
     (if m_notify_sem w > 0 then w\<lparr>m_notify_sem := m_notify_sem w - 1\<rparr> else w\<lparr>starter := Spawning\<rparr>)"

definition start_spawn :: "worker \<Rightarrow> worker" where
  "start_spawn w = w\<lparr>m_joinable := True, pc := Entered, calls := [], starter := Awaiting\<rparr>"

text \<open>\<open>std::thread\<close> could not be created.\<close>

definition start_spawn_failed :: "worker \<Rightarrow> worker" where
  "start_spawn_failed w = w\<lparr>m_result_future := Invalid, m_running := False, starter := Not_starting\<rparr>"

text \<open>\<open>start_future.get()\<close> and the outer handler.\<close>

definition start_finish :: "unit res \<Rightarrow> worker \<Rightarrow> worker" where
  "start_finish r w =
     (case r of Inr _ \<Rightarrow> w\<lparr>starter := Not_starting\<rparr>
      | Inl _ \<Rightarrow> w\<lparr>m_running := False, starter := Not_starting\<rparr>)"

section \<open>The worker thread\<close>

definition action_enter :: "worker \<Rightarrow> worker" where
  "action_enter w =
     (let w = w\<lparr>m_thread_id := Some Worker_thread\<rparr>
      in if has_start_callback w then w\<lparr>pc := In_start\<rparr>
         else w\<lparr>start_promise := Some (Inr ()), pc := Check_stop\<rparr>)"

definition action_started :: "unit res \<Rightarrow> worker \<Rightarrow> worker" where
  "action_started r w =
     (let w = w\<lparr>calls := calls w @ [Call_start r]\<rparr>
      in case r of
          Inr _ \<Rightarrow> w\<lparr>start_promise := Some (Inr ()), pc := Check_stop\<rparr>
        | Inl e \<Rightarrow> w\<lparr>m_running := False, start_promise := Some (Inl e), pc := Returning (Inr ())\<rparr>)"

definition action_check :: "worker \<Rightarrow> worker" where
  "action_check w = (if m_stop_requested w then w\<lparr>pc := Set_stopped None\<rparr> else w\<lparr>pc := Begin_tick\<rparr>)"

definition action_count :: "worker \<Rightarrow> worker" where
  "action_count w = w\<lparr>m_iterations_done := m_iterations_done w + 1, pc := In_tick\<rparr>"

definition action_ticked :: "unit res \<Rightarrow> worker \<Rightarrow> worker" where
  "action_ticked r w =
     (let w = w\<lparr>calls := calls w @ [Call_tick r]\<rparr>
      in case r of Inr _ \<Rightarrow> w\<lparr>pc := After_tick\<rparr> | Inl e \<Rightarrow> w\<lparr>pc := Set_stopped (Some e)\<rparr>)"

text \<open>
  The target check, then \<open>wait_until_next_tick\<close>, which only waits for a positive time. \<open>elapsed\<close> is
  the time the clock shows for the tick. Only the worker thread changes the iteration counter, so it
  still holds \<open>iteration\<close>.
\<close>

definition action_after_tick :: "int \<Rightarrow> worker \<Rightarrow> worker" where
  "action_after_tick elapsed w =
     (if m_iterations_done w \<ge> m_stop_at_iteration w then w\<lparr>pc := Set_stopped None\<rparr>
      else let wait_duration = (if m_correct_for_task_delay w then m_interval w - elapsed else m_interval w)
           in if wait_duration > 0 then w\<lparr>pc := Waiting\<rparr> else w\<lparr>pc := Draining\<rparr>)"

definition wait_acquired :: "worker \<Rightarrow> worker" where
  "wait_acquired w = w\<lparr>m_notify_sem := m_notify_sem w - 1, pc := Draining\<rparr>"

definition wait_timed_out :: "worker \<Rightarrow> worker" where
  "wait_timed_out w = w\<lparr>pc := Draining\<rparr>"

definition drain :: "worker \<Rightarrow> worker" where
  "drain w =
     (if m_notify_sem w > 0 then w\<lparr>m_notify_sem := m_notify_sem w - 1\<rparr> else w\<lparr>pc := Check_stop\<rparr>)"

definition rethrow :: "exn option \<Rightarrow> unit res" where
  "rethrow ex = (case ex of None \<Rightarrow> Inr () | Some e \<Rightarrow> Inl e)"

definition action_stopped :: "exn option \<Rightarrow> worker \<Rightarrow> worker" where
  "action_stopped ex w =
     (let w = w\<lparr>m_running := False\<rparr>
      in if has_stop_callback w then w\<lparr>pc := In_stop ex\<rparr> else w\<lparr>pc := Returning (rethrow ex)\<rparr>)"

definition action_stop_called :: "exn option \<Rightarrow> unit res \<Rightarrow> worker \<Rightarrow> worker" where
  "action_stop_called ex r w =
     (let w = w\<lparr>calls := calls w @ [Call_stop r]\<rparr>
      in case r of Inl e \<Rightarrow> w\<lparr>pc := Returning (Inl e)\<rparr>
         | Inr _ \<Rightarrow> w\<lparr>pc := Returning (rethrow ex)\<rparr>)"

text \<open>Returning from \<open>action\<close> lets the packaged task store the result; the thread ends.\<close>

definition task_finished :: "unit res \<Rightarrow> worker \<Rightarrow> worker" where
  "task_finished r w = w\<lparr>m_result_future := Ready r, pc := Finished\<rparr>"

section \<open>Steps\<close>

datatype worker_event =
    Start_call u64
  | Start_joined
  | Start_reset
  | Start_discard
  | Start_spawned
  | Start_spawn_failed
  | Start_returned "unit res"
  | Request_stop
  | Notify
  | Notify_due
  | Stop_after u64
  | Stop_after_stored u64
  | Set_interval int
  | Joined
  | Thread_enters
  | Start_callback_ends "unit res"
  | Checks_stop
  | Counts
  | Tick_callback_ends "unit res"
  | Checks_target int
  | Acquires
  | Times_out
  | Drains
  | Sets_stopped
  | Stop_callback_ends "unit res"
  | Returns

inductive worker_step :: "worker \<Rightarrow> worker_event \<Rightarrow> worker \<Rightarrow> bool" where
  start_call: "start_cas (Client c) n w = (w', Inr ()) \<Longrightarrow> starter w = Not_starting \<Longrightarrow>
    worker_step w (Start_call n) w'"
| start_joined: "starter w = Joining n \<Longrightarrow> wait_for_stop (Client c) w = Some (w', Inr ()) \<Longrightarrow>
    worker_step w Start_joined (start_joined n w')"
| start_reset: "starter w = Resetting n \<Longrightarrow> worker_step w Start_reset (start_reset n w)"
| start_discard: "starter w = Discarding \<Longrightarrow> worker_step w Start_discard (start_discard w)"
| start_spawned: "starter w = Spawning \<Longrightarrow> worker_step w Start_spawned (start_spawn w)"
| start_spawn_failed: "starter w = Spawning \<Longrightarrow>
    worker_step w Start_spawn_failed (start_spawn_failed w)"
| start_returned: "starter w = Awaiting \<Longrightarrow> start_promise w = Some r \<Longrightarrow>
    worker_step w (Start_returned r) (start_finish r w)"
| request_stop: "worker_step w Request_stop (request_stop_store w)"
| notify: "worker_step w Notify (notify w)"
| notify_due: "notifies_due w > 0 \<Longrightarrow> worker_step w Notify_due (notify_due w)"
| stop_after: "worker_step w (Stop_after n) (stop_after_load n w)"
| stop_after_stored: "t \<in> set (targets_due w) \<Longrightarrow>
    worker_step w (Stop_after_stored t) (stop_after_store t w)"
| set_interval: "worker_step w (Set_interval i) (set_interval i w)"
| joined: "wait_for_stop (Client c) w = Some (w', Inr ()) \<Longrightarrow> worker_step w Joined w'"
| thread_enters: "pc w = Entered \<Longrightarrow> worker_step w Thread_enters (action_enter w)"
| start_callback_ends: "pc w = In_start \<Longrightarrow>
    worker_step w (Start_callback_ends r) (action_started r w)"
| checks_stop: "pc w = Check_stop \<Longrightarrow> worker_step w Checks_stop (action_check w)"
| counts: "pc w = Begin_tick \<Longrightarrow> worker_step w Counts (action_count w)"
| tick_callback_ends: "pc w = In_tick \<Longrightarrow>
    worker_step w (Tick_callback_ends r) (action_ticked r w)"
| checks_target: "pc w = After_tick \<Longrightarrow>
    worker_step w (Checks_target elapsed) (action_after_tick elapsed w)"
| acquires: "pc w = Waiting \<Longrightarrow> m_notify_sem w > 0 \<Longrightarrow> worker_step w Acquires (wait_acquired w)"
| times_out: "pc w = Waiting \<Longrightarrow> m_notify_sem w = 0 \<Longrightarrow> worker_step w Times_out (wait_timed_out w)"
| drains: "pc w = Draining \<Longrightarrow> worker_step w Drains (drain w)"
| sets_stopped: "pc w = Set_stopped ex \<Longrightarrow> worker_step w Sets_stopped (action_stopped ex w)"
| stop_callback_ends: "pc w = In_stop ex \<Longrightarrow>
    worker_step w (Stop_callback_ends r) (action_stop_called ex r w)"
| returns: "pc w = Returning r \<Longrightarrow> worker_step w Returns (task_finished r w)"

inductive worker_init :: "worker \<Rightarrow> bool" where
  "worker_init (new_worker interval on_start on_stop correct)"

section \<open>Invariants\<close>

named_theorems worker_defs
declare new_worker_def [worker_defs] notify_def [worker_defs] request_stop_store_def [worker_defs]
  notify_due_def [worker_defs] stop_after_load_def [worker_defs] stop_after_store_def [worker_defs]
  set_interval_def [worker_defs] wait_for_stop_def [worker_defs] start_cas_def [worker_defs]
  start_joined_def [worker_defs] start_reset_def [worker_defs] start_discard_def [worker_defs]
  start_spawn_def [worker_defs] start_spawn_failed_def [worker_defs] start_finish_def [worker_defs]
  action_enter_def [worker_defs] action_started_def [worker_defs] action_check_def [worker_defs]
  action_count_def [worker_defs] action_ticked_def [worker_defs] action_after_tick_def [worker_defs]
  wait_acquired_def [worker_defs] wait_timed_out_def [worker_defs] drain_def [worker_defs]
  action_stopped_def [worker_defs] action_stop_called_def [worker_defs]
  task_finished_def [worker_defs] Let_def [worker_defs]

text \<open>The points of the loop and before it, where the worker counts as running.\<close>

definition active :: "worker_pc \<Rightarrow> bool" where
  "active p = (case p of No_thread \<Rightarrow> False | In_stop _ \<Rightarrow> False | Returning _ \<Rightarrow> False
     | Finished \<Rightarrow> False | _ \<Rightarrow> True)"

text \<open>Inside \<open>start()\<close> with the state already taken, and of these the points after the join.\<close>

definition claimed :: "start_pc \<Rightarrow> bool" where
  "claimed p = (case p of Not_starting \<Rightarrow> False | Awaiting \<Rightarrow> False | _ \<Rightarrow> True)"

definition joined :: "start_pc \<Rightarrow> bool" where
  "joined p = (case p of Resetting _ \<Rightarrow> True | Discarding \<Rightarrow> True | Spawning \<Rightarrow> True | _ \<Rightarrow> False)"

definition reset :: "start_pc \<Rightarrow> bool" where
  "reset p = (case p of Discarding \<Rightarrow> True | Spawning \<Rightarrow> True | _ \<Rightarrow> False)"

definition entering :: "worker_pc \<Rightarrow> bool" where
  "entering p = (case p of Entered \<Rightarrow> True | In_start \<Rightarrow> True | _ \<Rightarrow> False)"

lemma active_simps [simp]:
  "active Entered" "active In_start" "active Check_stop" "active Begin_tick" "active In_tick"
  "active After_tick" "active Waiting" "active Draining" "active (Set_stopped ex)"
  "\<not> active No_thread" "\<not> active (In_stop ex)" "\<not> active (Returning r)" "\<not> active Finished"
  by (simp_all add: active_def)

lemma entering_simps [simp]:
  "entering Entered" "entering In_start" "\<not> entering Check_stop" "\<not> entering Begin_tick"
  "\<not> entering In_tick" "\<not> entering After_tick" "\<not> entering Waiting" "\<not> entering Draining"
  "\<not> entering (Set_stopped ex)" "\<not> entering No_thread" "\<not> entering (In_stop ex)"
  "\<not> entering (Returning r)" "\<not> entering Finished"
  by (simp_all add: entering_def)

lemma start_pc_simps [simp]:
  "\<not> claimed Not_starting" "\<not> claimed Awaiting" "claimed (Joining n)" "claimed (Resetting n)"
  "claimed Discarding" "claimed Spawning"
  "\<not> joined Not_starting" "\<not> joined Awaiting" "\<not> joined (Joining n)" "joined (Resetting n)"
  "joined Discarding" "joined Spawning"
  "\<not> reset Not_starting" "\<not> reset Awaiting" "\<not> reset (Joining n)" "\<not> reset (Resetting n)"
  "reset Discarding" "reset Spawning"
  by (simp_all add: claimed_def joined_def reset_def)

text \<open>
  How the thread, its id, the state and the promise fit together, and who is inside \<open>start()\<close>.
\<close>

definition thread_inv :: "worker \<Rightarrow> bool" where
  "thread_inv w \<longleftrightarrow>
     (m_joinable w \<longleftrightarrow> pc w \<noteq> No_thread) \<and>
     (m_thread_id w = (if pc w = No_thread \<or> pc w = Entered then None else Some Worker_thread)) \<and>
     (m_running w \<longleftrightarrow> active (pc w) \<or> claimed (starter w)) \<and>
     (joined (starter w) \<longrightarrow> pc w = No_thread) \<and>
     (claimed (starter w) \<longrightarrow> \<not> active (pc w)) \<and>
     (reset (starter w) \<longrightarrow> start_promise w = None) \<and>
     (entering (pc w) \<longrightarrow> starter w = Awaiting \<and> start_promise w = None) \<and>
     (active (pc w) \<and> \<not> entering (pc w) \<longrightarrow> start_promise w = Some (Inr ())) \<and>
     (pc w = In_start \<longrightarrow> has_start_callback w) \<and> (\<forall>ex. pc w = In_stop ex \<longrightarrow> has_stop_callback w)"

text \<open>The operations of other threads do not touch these.\<close>

lemma thread_inv_frame [simp]:
  "thread_inv (w\<lparr>m_notify_sem := n\<rparr>) = thread_inv w"
  "thread_inv (w\<lparr>m_stop_requested := b\<rparr>) = thread_inv w"
  "thread_inv (w\<lparr>notifies_due := n\<rparr>) = thread_inv w"
  "thread_inv (w\<lparr>m_stop_at_iteration := t\<rparr>) = thread_inv w"
  "thread_inv (w\<lparr>targets_due := ts\<rparr>) = thread_inv w"
  "thread_inv (w\<lparr>m_interval := i\<rparr>) = thread_inv w"
  by (simp_all add: thread_inv_def)

lemma start_cas_Inr:
  "start_cas c n w = (w', Inr ()) \<longleftrightarrow>
     \<not> m_running w \<and> m_thread_id w \<noteq> Some c \<and> w' = w\<lparr>m_running := True, starter := Joining n\<rparr>"
  by (auto simp: start_cas_def Let_def)

lemma wait_for_stop_Inr:
  "wait_for_stop c w = Some (w', Inr ()) \<longleftrightarrow> m_thread_id w \<noteq> Some c \<and>
     (if m_joinable w
      then pc w = Finished \<and> w' = w\<lparr>m_joinable := False, m_thread_id := None, pc := No_thread\<rparr>
      else w' = w)"
  by (auto simp: wait_for_stop_def)

declare wait_for_stop_def [worker_defs del] start_cas_def [worker_defs del]

text \<open>One lemma per step.\<close>

lemma thread_inv_start_call:
  "thread_inv w \<Longrightarrow> start_cas (Client c) n w = (w', Inr ()) \<Longrightarrow> starter w = Not_starting \<Longrightarrow> thread_inv w'"
  by (auto simp: thread_inv_def start_cas_Inr)

lemma thread_inv_start_joined:
  "thread_inv w \<Longrightarrow> starter w = Joining n \<Longrightarrow> wait_for_stop (Client c) w = Some (w', Inr ()) \<Longrightarrow> thread_inv (start_joined n w')"
  by (auto simp: thread_inv_def start_joined_def wait_for_stop_Inr split: if_splits)

lemma thread_inv_start_reset:
  "thread_inv w \<Longrightarrow> starter w = Resetting n \<Longrightarrow> thread_inv (start_reset n w)"
  by (auto simp: thread_inv_def worker_defs split: if_splits sum.splits)

lemma thread_inv_start_discard:
  "thread_inv w \<Longrightarrow> starter w = Discarding \<Longrightarrow> thread_inv (start_discard w)"
  by (auto simp: thread_inv_def worker_defs split: if_splits sum.splits)

lemma thread_inv_start_spawned:
  "thread_inv w \<Longrightarrow> starter w = Spawning \<Longrightarrow> thread_inv (start_spawn w)"
  by (auto simp: thread_inv_def worker_defs split: if_splits sum.splits)

lemma thread_inv_start_spawn_failed:
  "thread_inv w \<Longrightarrow> starter w = Spawning \<Longrightarrow> thread_inv (start_spawn_failed w)"
  by (auto simp: thread_inv_def worker_defs split: if_splits sum.splits)

lemma thread_inv_start_returned:
  "thread_inv w \<Longrightarrow> starter w = Awaiting \<Longrightarrow> start_promise w = Some r \<Longrightarrow> thread_inv (start_finish r w)"
  by (auto simp: thread_inv_def worker_defs split: if_splits sum.splits)

lemma thread_inv_request_stop:
  "thread_inv w \<Longrightarrow> thread_inv (request_stop_store w)"
  by (simp add: worker_defs)

lemma thread_inv_notify:
  "thread_inv w \<Longrightarrow> thread_inv (notify w)"
  by (simp add: worker_defs)

lemma thread_inv_notify_due:
  "thread_inv w \<Longrightarrow> notifies_due w > 0 \<Longrightarrow> thread_inv (notify_due w)"
  by (simp add: worker_defs)

lemma thread_inv_stop_after:
  "thread_inv w \<Longrightarrow> thread_inv (stop_after_load n w)"
  by (simp add: worker_defs)

lemma thread_inv_stop_after_stored:
  "thread_inv w \<Longrightarrow> t \<in> set (targets_due w) \<Longrightarrow> thread_inv (stop_after_store t w)"
  by (simp add: worker_defs)

lemma thread_inv_set_interval:
  "thread_inv w \<Longrightarrow> thread_inv (set_interval i w)"
  by (simp add: worker_defs)

lemma thread_inv_joined:
  "thread_inv w \<Longrightarrow> wait_for_stop (Client c) w = Some (w', Inr ()) \<Longrightarrow> thread_inv w'"
  by (auto simp: thread_inv_def start_joined_def wait_for_stop_Inr split: if_splits)

lemma thread_inv_thread_enters:
  "thread_inv w \<Longrightarrow> pc w = Entered \<Longrightarrow> thread_inv (action_enter w)"
  by (auto simp: thread_inv_def worker_defs split: if_splits sum.splits)

lemma thread_inv_start_callback_ends:
  "thread_inv w \<Longrightarrow> pc w = In_start \<Longrightarrow> thread_inv (action_started r w)"
  by (auto simp: thread_inv_def worker_defs split: if_splits sum.splits)

lemma thread_inv_checks_stop:
  "thread_inv w \<Longrightarrow> pc w = Check_stop \<Longrightarrow> thread_inv (action_check w)"
  by (auto simp: thread_inv_def worker_defs split: if_splits sum.splits)

lemma thread_inv_counts:
  "thread_inv w \<Longrightarrow> pc w = Begin_tick \<Longrightarrow> thread_inv (action_count w)"
  by (auto simp: thread_inv_def worker_defs split: if_splits sum.splits)

lemma thread_inv_tick_callback_ends:
  "thread_inv w \<Longrightarrow> pc w = In_tick \<Longrightarrow> thread_inv (action_ticked r w)"
  by (auto simp: thread_inv_def worker_defs split: if_splits sum.splits)

lemma thread_inv_checks_target:
  "thread_inv w \<Longrightarrow> pc w = After_tick \<Longrightarrow> thread_inv (action_after_tick elapsed w)"
  by (auto simp: thread_inv_def worker_defs split: if_splits sum.splits)

lemma thread_inv_acquires:
  "thread_inv w \<Longrightarrow> pc w = Waiting \<Longrightarrow> m_notify_sem w > 0 \<Longrightarrow> thread_inv (wait_acquired w)"
  by (auto simp: thread_inv_def worker_defs split: if_splits sum.splits)

lemma thread_inv_times_out:
  "thread_inv w \<Longrightarrow> pc w = Waiting \<Longrightarrow> m_notify_sem w = 0 \<Longrightarrow> thread_inv (wait_timed_out w)"
  by (auto simp: thread_inv_def worker_defs split: if_splits sum.splits)

lemma thread_inv_drains:
  "thread_inv w \<Longrightarrow> pc w = Draining \<Longrightarrow> thread_inv (drain w)"
  by (auto simp: thread_inv_def worker_defs split: if_splits sum.splits)

lemma thread_inv_sets_stopped:
  "thread_inv w \<Longrightarrow> pc w = Set_stopped ex \<Longrightarrow> thread_inv (action_stopped ex w)"
  by (auto simp: thread_inv_def worker_defs split: if_splits sum.splits)

lemma thread_inv_stop_callback_ends:
  "thread_inv w \<Longrightarrow> pc w = In_stop ex \<Longrightarrow> thread_inv (action_stop_called ex r w)"
  by (auto simp: thread_inv_def worker_defs split: if_splits sum.splits)

lemma thread_inv_returns:
  "thread_inv w \<Longrightarrow> pc w = Returning r \<Longrightarrow> thread_inv (task_finished r w)"
  by (auto simp: thread_inv_def worker_defs split: if_splits sum.splits)

lemmas thread_inv_steps =
  thread_inv_start_reset thread_inv_start_discard thread_inv_start_spawned
  thread_inv_start_spawn_failed thread_inv_start_returned thread_inv_request_stop
  thread_inv_notify thread_inv_notify_due thread_inv_stop_after thread_inv_stop_after_stored
  thread_inv_set_interval thread_inv_thread_enters thread_inv_start_callback_ends
  thread_inv_checks_stop thread_inv_counts thread_inv_tick_callback_ends thread_inv_checks_target
  thread_inv_acquires thread_inv_times_out thread_inv_drains thread_inv_sets_stopped
  thread_inv_stop_callback_ends thread_inv_returns

lemma thread_inv_step:
  assumes "thread_inv w" and "worker_step w e w'"
  shows "thread_inv w'"
  using assms(2,1)
proof (induct rule: worker_step.induct)
  case (start_call c n w w')
  from start_call(3,1,2) show ?case by (rule thread_inv_start_call)
next
  case (start_joined w n c w')
  from start_joined(3,1,2) show ?case by (rule thread_inv_start_joined)
next
  case (joined c w w')
  from joined(2,1) show ?case by (rule thread_inv_joined)
qed (simp_all only: thread_inv_steps)

lemma thread_inv_init: "worker_init w \<Longrightarrow> thread_inv w"
  by (auto simp: worker_init.simps thread_inv_def worker_defs)

interpretation thread_system: invariant_system worker_init worker_step thread_inv
  by unfold_locales (auto intro: thread_inv_init thread_inv_step)

section \<open>What the callbacks see\<close>

text \<open>
  The callbacks of a run so far: the start callback, if there is one (\<open>st\<close>), and \<open>n\<close> ticks.
\<close>

definition prologue :: "bool \<Rightarrow> nat \<Rightarrow> cb_call list" where
  "prologue st n = (if st then [Call_start (Inr ())] else []) @ replicate n (Call_tick (Inr ()))"

text \<open>The loop was left after \<open>n\<close> iterations: with no exception, or with that of the last tick.\<close>

definition loop_left :: "bool \<Rightarrow> u64 \<Rightarrow> exn option \<Rightarrow> cb_call list \<Rightarrow> bool" where
  "loop_left st n ex cs \<longleftrightarrow>
     (case ex of None \<Rightarrow> cs = prologue st (unat n)
      | Some e \<Rightarrow> n \<noteq> 0 \<and> cs = prologue st (unat (n - 1)) @ [Call_tick (Inl e)])"

text \<open>
  A finished run and the result its future holds: the start callback threw and nothing else was
  called; or the loop was left and the stop callback, where there is one (\<open>sp\<close>), was called once,
  last, whatever the ticks did. An exception of the stop callback replaces that of the tick.
\<close>

definition complete_run :: "bool \<Rightarrow> bool \<Rightarrow> u64 \<Rightarrow> cb_call list \<Rightarrow> unit res \<Rightarrow> bool" where
  "complete_run st sp n cs r \<longleftrightarrow>
     (\<exists>e. st \<and> cs = [Call_start (Inl e)] \<and> r = Inr ()) \<or>
     (\<exists>ex. \<not> sp \<and> loop_left st n ex cs \<and> r = rethrow ex) \<or>
     (\<exists>ex cs' r'. sp \<and> cs = cs' @ [Call_stop r'] \<and> loop_left st n ex cs' \<and>
        r = (case r' of Inl e \<Rightarrow> Inl e | Inr _ \<Rightarrow> rethrow ex))"

definition run_ok :: "worker_pc \<Rightarrow> bool \<Rightarrow> bool \<Rightarrow> u64 \<Rightarrow> cb_call list \<Rightarrow> result_future \<Rightarrow> bool" where
  "run_ok p st sp n cs fut =
     (case p of
        No_thread \<Rightarrow> True
      | Entered \<Rightarrow> cs = [] \<and> n = 0
      | In_start \<Rightarrow> cs = [] \<and> n = 0 \<and> st
      | In_tick \<Rightarrow> n \<noteq> 0 \<and> cs = prologue st (unat (n - 1))
      | After_tick \<Rightarrow> cs = prologue st (unat n)
      | Set_stopped ex \<Rightarrow> loop_left st n ex cs
      | In_stop ex \<Rightarrow> sp \<and> loop_left st n ex cs
      | Returning r \<Rightarrow> complete_run st sp n cs r
      | Finished \<Rightarrow> (\<exists>r. fut = Ready r \<and> complete_run st sp n cs r)
      | _ \<Rightarrow> n < MAX_ITERATION_COUNT \<and> cs = prologue st (unat n))"

definition calls_inv :: "worker \<Rightarrow> bool" where
  "calls_inv w = (thread_inv w \<and> (reset (starter w) \<longrightarrow> m_iterations_done w = 0) \<and>
     run_ok (pc w) (has_start_callback w) (has_stop_callback w) (m_iterations_done w) (calls w)
       (m_result_future w))"

lemma run_ok_simps [simp]:
  "run_ok No_thread st sp n cs fut"
  "run_ok Entered st sp n cs fut \<longleftrightarrow> cs = [] \<and> n = 0"
  "run_ok In_start st sp n cs fut \<longleftrightarrow> cs = [] \<and> n = 0 \<and> st"
  "run_ok Check_stop st sp n cs fut \<longleftrightarrow> n < MAX_ITERATION_COUNT \<and> cs = prologue st (unat n)"
  "run_ok Begin_tick st sp n cs fut \<longleftrightarrow> n < MAX_ITERATION_COUNT \<and> cs = prologue st (unat n)"
  "run_ok In_tick st sp n cs fut \<longleftrightarrow> n \<noteq> 0 \<and> cs = prologue st (unat (n - 1))"
  "run_ok After_tick st sp n cs fut \<longleftrightarrow> cs = prologue st (unat n)"
  "run_ok Waiting st sp n cs fut \<longleftrightarrow> n < MAX_ITERATION_COUNT \<and> cs = prologue st (unat n)"
  "run_ok Draining st sp n cs fut \<longleftrightarrow> n < MAX_ITERATION_COUNT \<and> cs = prologue st (unat n)"
  "run_ok (Set_stopped ex) st sp n cs fut \<longleftrightarrow> loop_left st n ex cs"
  "run_ok (In_stop ex) st sp n cs fut \<longleftrightarrow> sp \<and> loop_left st n ex cs"
  "run_ok (Returning r) st sp n cs fut \<longleftrightarrow> complete_run st sp n cs r"
  "run_ok Finished st sp n cs fut \<longleftrightarrow> (\<exists>r. fut = Ready r \<and> complete_run st sp n cs r)"
  by (simp_all add: run_ok_def)

lemma below_max: "(n :: u64) < m \<Longrightarrow> n < MAX_ITERATION_COUNT"
  unfolding MAX_ITERATION_COUNT_def by (rule order_less_le_trans) simp_all

lemma zero_below_max: "0 < MAX_ITERATION_COUNT"
  by (simp add: MAX_ITERATION_COUNT_def word_gt_0)

lemma unat_Suc_below:
  assumes "(n :: u64) < MAX_ITERATION_COUNT"
  shows "n + 1 \<noteq> 0" "unat (n + 1) = Suc (unat n)"
proof -
  show "n + 1 \<noteq> 0"
  proof
    assume "n + 1 = 0"
    then have "n = MAX_ITERATION_COUNT" by (simp add: MAX_ITERATION_COUNT_def eq_neg_iff_add_eq_0)
    with assms show False by simp
  qed
  then show "unat (n + 1) = Suc (unat n)" by (simp add: unatSuc add.commute)
qed

lemma unat_pred: "(n :: u64) \<noteq> 0 \<Longrightarrow> Suc (unat (n - 1)) = unat n"
  by (metis Suc_pred' unat_gt_0 unat_minus_one)

lemma prologue_snoc: "prologue st n @ [Call_tick (Inr ())] = prologue st (Suc n)"
  by (simp add: prologue_def replicate_append_same)

lemma calls_inv_step:
  assumes "calls_inv w" and "worker_step w e w'"
  shows "calls_inv w'"
proof -
  have t: "thread_inv w'" using assms thread_inv_step by (auto simp: calls_inv_def)
  have "(reset (starter w') \<longrightarrow> m_iterations_done w' = 0) \<and>
     run_ok (pc w') (has_start_callback w') (has_stop_callback w') (m_iterations_done w') (calls w')
       (m_result_future w')"
    using assms(2,1)
  proof (induct rule: worker_step.induct)
    case (start_call c n w w') then show ?case by (auto simp: calls_inv_def start_cas_Inr)
  next case (start_joined w n c w') then show ?case by (auto simp: calls_inv_def start_joined_def wait_for_stop_Inr split: if_splits)
  next case (joined c w w') then show ?case by (auto simp: calls_inv_def wait_for_stop_Inr split: if_splits)
  next case (start_reset w n) then show ?case by (auto simp: calls_inv_def worker_defs thread_inv_def)
  next case (start_discard w) then show ?case by (auto simp: calls_inv_def worker_defs)
  next case (start_spawned w) then show ?case by (auto simp: calls_inv_def worker_defs)
  next case (start_spawn_failed w) then show ?case by (auto simp: calls_inv_def worker_defs thread_inv_def)
  next case (start_returned w r) then show ?case by (auto simp: calls_inv_def worker_defs split: sum.splits)
  next case (thread_enters w) then show ?case by (auto simp: calls_inv_def worker_defs thread_inv_def prologue_def zero_below_max)
  next case (start_callback_ends w r) then show ?case by (auto simp: calls_inv_def worker_defs thread_inv_def prologue_def complete_run_def zero_below_max split: sum.splits)
  next case (checks_stop w) then show ?case by (auto simp: calls_inv_def worker_defs loop_left_def)
  next case (counts w) then show ?case by (auto simp: calls_inv_def worker_defs thread_inv_def unat_Suc_below)
  next case (tick_callback_ends w r) then show ?case by (auto simp: calls_inv_def worker_defs prologue_snoc unat_pred loop_left_def split: sum.splits)
  next case (checks_target w elapsed) then show ?case by (auto simp: calls_inv_def worker_defs loop_left_def not_le intro: below_max)
  next case (sets_stopped w ex) then show ?case by (auto simp: calls_inv_def worker_defs thread_inv_def complete_run_def)
  next case (stop_callback_ends w ex r) then show ?case by (auto simp: calls_inv_def worker_defs complete_run_def split: sum.splits)
  next case (returns w r) then show ?case by (auto simp: calls_inv_def worker_defs)
  qed (auto simp: calls_inv_def worker_defs)
  with t show ?thesis by (simp add: calls_inv_def)
qed

lemma calls_inv_init: "worker_init w \<Longrightarrow> calls_inv w"
  using thread_inv_init by (auto simp: calls_inv_def worker_init.simps new_worker_def)

interpretation worker_system: invariant_system worker_init worker_step calls_inv
  by unfold_locales (auto intro: calls_inv_init calls_inv_step)

section \<open>Stopping\<close>

text \<open>
  No lost wake-up: between reading the stop flag and reading it again, a flag that was set meanwhile
  has a release of the semaphore behind it or still to come.
\<close>

definition wake_inv :: "worker \<Rightarrow> bool" where
  "wake_inv w \<longleftrightarrow> thread_inv w \<and>
     (pc w \<in> {Begin_tick, In_tick, After_tick, Waiting} \<longrightarrow> m_stop_requested w \<longrightarrow>
        m_notify_sem w > 0 \<or> notifies_due w > 0)"

lemma wake_inv_step:
  assumes "wake_inv w" and "worker_step w e w'"
  shows "wake_inv w'"
proof -
  have t: "thread_inv w'" using assms thread_inv_step by (auto simp: wake_inv_def)
  have "pc w' \<in> {Begin_tick, In_tick, After_tick, Waiting} \<longrightarrow> m_stop_requested w' \<longrightarrow>
        m_notify_sem w' > 0 \<or> notifies_due w' > 0"
    using assms(2,1)
  proof (induct rule: worker_step.induct)
    case (start_call c n w w') then show ?case by (auto simp: wake_inv_def start_cas_Inr)
  next case (start_joined w n c w') then show ?case by (auto simp: wake_inv_def start_joined_def wait_for_stop_Inr split: if_splits)
  next case (joined c w w') then show ?case by (auto simp: wake_inv_def wait_for_stop_Inr split: if_splits)
  next case (start_reset w n) then show ?case by (auto simp: wake_inv_def worker_defs thread_inv_def)
  next case (start_discard w) then show ?case by (auto simp: wake_inv_def worker_defs thread_inv_def)
  qed (auto simp: wake_inv_def worker_defs split: sum.splits)
  with t show ?thesis by (simp add: wake_inv_def)
qed

lemma wake_inv_init: "worker_init w \<Longrightarrow> wake_inv w"
  using thread_inv_init by (auto simp: wake_inv_def worker_init.simps new_worker_def)

interpretation wake_system: invariant_system worker_init worker_step wake_inv
  by unfold_locales (auto intro: wake_inv_init wake_inv_step)

text \<open>A stop request is final until the next start, and lets at most one more tick begin.\<close>

definition ticks_begun :: "worker_event list \<Rightarrow> nat" where
  "ticks_begun es = length (filter (\<lambda>e. e = Counts) es)"

definition ticks_left :: "worker \<Rightarrow> nat" where
  "ticks_left w = (if pc w = Begin_tick then 1 else 0)"

lemma stop_requested_step:
  assumes "worker_step w e w'" and "m_stop_requested w" and "e \<noteq> Start_reset"
  shows "m_stop_requested w' \<and> (if e = Counts then 1 else 0) + ticks_left w' \<le> ticks_left w"
  using assms
proof (induct rule: worker_step.induct)
  case (start_call c n w w') then show ?case by (auto simp: ticks_left_def start_cas_Inr)
next case (start_joined w n c w') then show ?case by (auto simp: ticks_left_def start_joined_def wait_for_stop_Inr split: if_splits)
next case (joined c w w') then show ?case by (auto simp: ticks_left_def wait_for_stop_Inr split: if_splits)
qed (auto simp: ticks_left_def worker_defs split: sum.splits)

lemma stop_requested_run:
  "run worker_step w es w' \<Longrightarrow> m_stop_requested w \<Longrightarrow> Start_reset \<notin> set es \<Longrightarrow>
     ticks_begun es + ticks_left w' \<le> ticks_left w"
proof (induction rule: run.induct)
  case (run_Cons s e s' es s'')
  then show ?case
    using stop_requested_step [of s e s'] by (auto simp: ticks_begun_def split: if_splits)
qed (simp add: ticks_begun_def)

section \<open>Counted runs\<close>

text \<open>The steps of a run in which nobody asks for a stop or changes its target.\<close>

fun quiet :: "worker_event \<Rightarrow> bool" where
  "quiet Start_reset = False"
| "quiet Request_stop = False"
| "quiet (Stop_after n) = (n \<noteq> 0)"
| "quiet (Stop_after_stored _) = False"
| "quiet _ = True"

definition counted :: "u64 \<Rightarrow> worker \<Rightarrow> bool" where
  "counted N w \<longleftrightarrow> calls_inv w \<and> m_stop_at_iteration w = N \<and> \<not> m_stop_requested w \<and>
     \<not> reset (starter w) \<and> unat (m_iterations_done w) \<le> max 1 (unat N) \<and>
     (pc w \<in> {Check_stop, Begin_tick, Waiting, Draining} \<longrightarrow>
        m_iterations_done w = 0 \<or> m_iterations_done w < N) \<and>
     (pc w \<in> {In_tick, After_tick} \<longrightarrow> m_iterations_done w \<noteq> 0) \<and>
     (pc w \<in> {Set_stopped None, In_stop None} \<longrightarrow> unat (m_iterations_done w) = max 1 (unat N))"

lemma counted_step:
  assumes "counted N w" and "worker_step w e w'" and "quiet e"
  shows "counted N w'"
proof -
  have t: "calls_inv w'" using assms calls_inv_step by (auto simp: counted_def)
  have "m_stop_at_iteration w' = N \<and> \<not> m_stop_requested w' \<and>
     \<not> reset (starter w') \<and> unat (m_iterations_done w') \<le> max 1 (unat N) \<and>
     (pc w' \<in> {Check_stop, Begin_tick, Waiting, Draining} \<longrightarrow>
        m_iterations_done w' = 0 \<or> m_iterations_done w' < N) \<and>
     (pc w' \<in> {In_tick, After_tick} \<longrightarrow> m_iterations_done w' \<noteq> 0) \<and>
     (pc w' \<in> {Set_stopped None, In_stop None} \<longrightarrow> unat (m_iterations_done w') = max 1 (unat N))"
    using assms(2,1,3)
  proof (induct rule: worker_step.induct)
    case (start_call c n w w') then show ?case by (auto simp: counted_def start_cas_Inr)
  next case (start_joined w n c w') then show ?case by (auto simp: counted_def start_joined_def wait_for_stop_Inr split: if_splits)
  next case (joined c w w') then show ?case by (auto simp: counted_def wait_for_stop_Inr split: if_splits)
  next case (thread_enters w) then show ?case by (auto simp: counted_def calls_inv_def worker_defs)
  next case (start_callback_ends w r) then show ?case by (auto simp: counted_def calls_inv_def worker_defs split: sum.splits)
  next case (counts w)
    then have "m_iterations_done w < MAX_ITERATION_COUNT" by (simp add: counted_def calls_inv_def)
    note unat_Suc_below [OF this]
    with counts show ?case by (auto simp: counted_def worker_defs word_less_nat_alt)
  next case (checks_target w elapsed)
    have "Suc 0 \<le> unat (m_iterations_done w)" if "m_iterations_done w \<noteq> 0"
      using that by (simp add: Suc_le_eq unat_gt_0)
    with checks_target show ?case by (auto simp: counted_def worker_defs word_le_nat_alt word_less_nat_alt)
  qed (auto simp: counted_def worker_defs split: sum.splits)
  with t show ?thesis by (simp add: counted_def)
qed

lemma counted_run: "run worker_step w es w' \<Longrightarrow> counted N w \<Longrightarrow> list_all quiet es \<Longrightarrow> counted N w'"
  by (induction rule: run.induct) (auto intro: counted_step)

section \<open>Progress\<close>

text \<open>The events of the worker thread itself.\<close>

fun own_event :: "worker_event \<Rightarrow> bool" where
  "own_event Thread_enters = True"
| "own_event (Start_callback_ends _) = True"
| "own_event Checks_stop = True"
| "own_event Counts = True"
| "own_event (Tick_callback_ends _) = True"
| "own_event (Checks_target _) = True"
| "own_event Acquires = True"
| "own_event Times_out = True"
| "own_event Drains = True"
| "own_event Sets_stopped = True"
| "own_event (Stop_callback_ends _) = True"
| "own_event Returns = True"
| "own_event _ = False"

text \<open>How far the thread is from its end once a stop has been requested.\<close>

definition distance :: "worker \<Rightarrow> nat" where
  "distance w = m_notify_sem w +
     (case pc w of No_thread \<Rightarrow> 0 | Finished \<Rightarrow> 0 | Returning _ \<Rightarrow> 1 | In_stop _ \<Rightarrow> 2 | Set_stopped _ \<Rightarrow> 3
      | Check_stop \<Rightarrow> 4 | Draining \<Rightarrow> 5 | Waiting \<Rightarrow> 6 | After_tick \<Rightarrow> 7 | In_tick \<Rightarrow> 8 | Begin_tick \<Rightarrow> 9
      | In_start \<Rightarrow> 10 | Entered \<Rightarrow> 11)"

lemma own_step_distance:
  assumes "worker_step w e w'" and "own_event e" and "m_stop_requested w"
  shows "distance w' < distance w \<and> m_stop_requested w'"
  using assms
  by (induct rule: worker_step.induct) (auto simp: distance_def worker_defs split: sum.splits)

lemma own_run_distance:
  "run worker_step w es w' \<Longrightarrow> list_all own_event es \<Longrightarrow> m_stop_requested w \<Longrightarrow>
     length es + distance w' \<le> distance w"
proof (induction rule: run.induct)
  case (run_Cons s e s' es s'')
  then show ?case using own_step_distance [of s e s'] by auto
qed simp

lemma own_step_enabled:
  assumes "pc w \<notin> {No_thread, Finished}"
  shows "\<exists>e w'. own_event e \<and> worker_step w e w'"
proof (cases "pc w")
  case Waiting
  then show ?thesis
    using acquires [of w] times_out [of w] own_event.simps by (cases "m_notify_sem w") fastforce+
qed (use assms in \<open>auto intro!: exI worker_step.intros(15-20) worker_step.intros(23-)\<close>)

section \<open>Executable steps\<close>

text \<open>The step an event stands for, as a function; client 0 acts for all clients.\<close>

fun next_worker :: "worker_event \<Rightarrow> worker \<Rightarrow> worker option" where
  "next_worker (Start_call n) w =
     (case start_cas (Client 0) n w of
        (w', Inr _) \<Rightarrow> if starter w = Not_starting then Some w' else None | _ \<Rightarrow> None)"
| "next_worker Start_joined w =
     (case (starter w, wait_for_stop (Client 0) w) of
        (Joining n, Some (w', Inr _)) \<Rightarrow> Some (start_joined n w') | _ \<Rightarrow> None)"
| "next_worker Start_reset w = (case starter w of Resetting n \<Rightarrow> Some (start_reset n w) | _ \<Rightarrow> None)"
| "next_worker Start_discard w = (if starter w = Discarding then Some (start_discard w) else None)"
| "next_worker Start_spawned w = (if starter w = Spawning then Some (start_spawn w) else None)"
| "next_worker Start_spawn_failed w = (if starter w = Spawning then Some (start_spawn_failed w) else None)"
| "next_worker (Start_returned r) w =
     (if starter w = Awaiting \<and> start_promise w = Some r then Some (start_finish r w) else None)"
| "next_worker Request_stop w = Some (request_stop_store w)"
| "next_worker Notify w = Some (notify w)"
| "next_worker Notify_due w = (if notifies_due w > 0 then Some (notify_due w) else None)"
| "next_worker (Stop_after n) w = Some (stop_after_load n w)"
| "next_worker (Stop_after_stored t) w =
     (if t \<in> set (targets_due w) then Some (stop_after_store t w) else None)"
| "next_worker (Set_interval i) w = Some (set_interval i w)"
| "next_worker Joined w =
     (case wait_for_stop (Client 0) w of Some (w', Inr _) \<Rightarrow> Some w' | _ \<Rightarrow> None)"
| "next_worker Thread_enters w = (if pc w = Entered then Some (action_enter w) else None)"
| "next_worker (Start_callback_ends r) w = (if pc w = In_start then Some (action_started r w) else None)"
| "next_worker Checks_stop w = (if pc w = Check_stop then Some (action_check w) else None)"
| "next_worker Counts w = (if pc w = Begin_tick then Some (action_count w) else None)"
| "next_worker (Tick_callback_ends r) w = (if pc w = In_tick then Some (action_ticked r w) else None)"
| "next_worker (Checks_target t) w = (if pc w = After_tick then Some (action_after_tick t w) else None)"
| "next_worker Acquires w = (if pc w = Waiting \<and> m_notify_sem w > 0 then Some (wait_acquired w) else None)"
| "next_worker Times_out w = (if pc w = Waiting \<and> m_notify_sem w = 0 then Some (wait_timed_out w) else None)"
| "next_worker Drains w = (if pc w = Draining then Some (drain w) else None)"
| "next_worker Sets_stopped w = (case pc w of Set_stopped ex \<Rightarrow> Some (action_stopped ex w) | _ \<Rightarrow> None)"
| "next_worker (Stop_callback_ends r) w =
     (case pc w of In_stop ex \<Rightarrow> Some (action_stop_called ex r w) | _ \<Rightarrow> None)"
| "next_worker Returns w = (case pc w of Returning r \<Rightarrow> Some (task_finished r w) | _ \<Rightarrow> None)"

lemma next_worker_sound: "next_worker e w = Some w' \<Longrightarrow> worker_step w e w'"
  by (cases e)
    (auto split: if_splits option.splits sum.splits prod.splits start_pc.splits worker_pc.splits
      intro: worker_step.intros simp: start_cas_Inr wait_for_stop_Inr)

lemma worker_reach_exec:
  "exec_run next_worker es (new_worker i st sp c) = Some w \<Longrightarrow> reach worker_init worker_step w"
  by (rule reach_run [OF reach_init [where init = worker_init]])
    (auto intro: worker_init.intros exec_run_sound next_worker_sound)

text \<open>Starting with a bound of one iteration and entering the thread.\<close>

definition started :: "u64 \<Rightarrow> worker_event list" where
  "started n = [Start_call n, Start_joined, Start_reset, Start_discard, Start_spawned, Thread_enters,
     Start_callback_ends (Inr ()), Start_returned (Inr ())]"

section \<open>Properties\<close>





text \<open>
  C12: After a stop request at most one more tick begins until the worker is started again, and none
  unless the worker had already read the flag; and the worker thread reaches its end in a bounded
  number of its own steps, provided the callbacks return: it is never stuck before.
\<close>

theorem worker_stops:
  assumes "run worker_step w es w'" and "m_stop_requested w" and "Start_reset \<notin> set es"
  shows "ticks_begun es \<le> (if pc w = Begin_tick then 1 else 0) \<and>
    (list_all own_event es \<longrightarrow> length es \<le> m_notify_sem w + 11) \<and>
    ((\<exists>e w''. own_event e \<and> worker_step w' e w'') \<or> pc w' = Finished \<or> pc w' = No_thread)"
proof -
  have "distance w \<le> m_notify_sem w + 11" by (simp add: distance_def split: worker_pc.split)
  then show ?thesis
    using stop_requested_run [OF assms] own_run_distance [OF assms(1) _ assms(2)] own_step_enabled [of w']
    by (fastforce simp: ticks_left_def)
qed

lemma worker_stops_witness:
  "\<exists>w es w'. run worker_step w es w' \<and> m_stop_requested w \<and> pc w = Begin_tick \<and>
     ticks_begun es = 1 \<and> pc w' = Finished \<and> length es \<le> m_notify_sem w + 11"
proof -
  let ?es = "started 9 @ [Checks_stop, Request_stop, Notify_due]"
  let ?es' = "[Counts, Tick_callback_ends (Inr ()), Checks_target 0, Acquires, Drains, Checks_stop,
     Sets_stopped, Stop_callback_ends (Inr ()), Returns]"
  obtain w w' where w: "exec_run next_worker ?es (new_worker 5 True True False) = Some w"
    "pc w = Begin_tick" "m_stop_requested w" "exec_run next_worker ?es' w = Some w'" "pc w' = Finished"
    by (simp add: started_def worker_defs start_cas_def wait_for_stop_def word_le_nat_alt)
  have "run worker_step w ?es' w'" by (rule exec_run_sound [OF next_worker_sound w(4)])
  with worker_stops [OF this w(3)] w(2,3,5) show ?thesis
    by (intro exI [of _ w] exI [of _ ?es'] exI [of _ w'] conjI) (simp_all add: ticks_begun_def)
qed

text \<open>
  A worker started with \<open>stopAtIteration = N\<close> that nobody asks to stop and whose target nobody
  changes ticks at most \<open>max 1 N\<close> times, and when it leaves the loop without an exception it has
  ticked exactly so often: the counter never wraps.
\<close>

theorem worker_counted_run:
  assumes "reach worker_init worker_step w" and "pc w = Entered" and "\<not> m_stop_requested w"
    and "m_stop_at_iteration w = N" and "run worker_step w es w'" and "list_all quiet es"
  shows "unat (m_iterations_done w') \<le> max 1 (unat N) \<and>
    (pc w' = Set_stopped None \<or> pc w' = In_stop None \<longrightarrow>
       calls w' = prologue (has_start_callback w') (max 1 (unat N)))"
proof -
  have c: "calls_inv w" by (rule worker_system.reach_inv [OF assms(1)])
  with assms(2-4) have "counted N w" by (auto simp: counted_def calls_inv_def thread_inv_def)
  then have "counted N w'" by (rule counted_run [OF assms(5) _ assms(6)])
  then have n: "unat (m_iterations_done w') \<le> max 1 (unat N)"
    and stopped: "pc w' \<in> {Set_stopped None, In_stop None} \<Longrightarrow> unat (m_iterations_done w') = max 1 (unat N)"
    and calls: "run_ok (pc w') (has_start_callback w') (has_stop_callback w') (m_iterations_done w')
      (calls w') (m_result_future w')"
    by (simp_all only: counted_def calls_inv_def)
  have "calls w' = prologue (has_start_callback w') (max 1 (unat N))"
    if "pc w' = Set_stopped None \<or> pc w' = In_stop None"
    using that calls stopped by (elim disjE) (simp_all only: run_ok_simps loop_left_def option.case, simp_all)
  with n show ?thesis by blast
qed

lemma worker_counted_run_witness:
  "\<exists>w es w'. reach worker_init worker_step w \<and> run worker_step w es w' \<and> pc w' = In_stop None \<and>
     calls w' = [Call_start (Inr ()), Call_tick (Inr ()), Call_tick (Inr ())] \<and>
     calls w' = prologue (has_start_callback w') (max 1 (unat (2 :: u64)))"
proof -
  let ?es = "[Start_call 2, Start_joined, Start_reset, Start_discard, Start_spawned]"
  let ?es' = "[Thread_enters, Start_callback_ends (Inr ()), Checks_stop, Counts,
     Tick_callback_ends (Inr ()), Checks_target 0, Times_out, Drains, Checks_stop, Counts,
     Tick_callback_ends (Inr ()), Checks_target 0, Sets_stopped]"
  obtain w w' where w: "exec_run next_worker ?es (new_worker 5 True True False) = Some w"
    "pc w = Entered" "\<not> m_stop_requested w" "m_stop_at_iteration w = 2"
    "exec_run next_worker ?es' w = Some w'" "pc w' = In_stop None"
    "calls w' = [Call_start (Inr ()), Call_tick (Inr ()), Call_tick (Inr ())]"
    by (simp add: worker_defs start_cas_def wait_for_stop_def word_le_nat_alt)
  have r: "reach worker_init worker_step w" by (rule worker_reach_exec [OF w(1)])
  moreover have "run worker_step w ?es' w'" by (rule exec_run_sound [OF next_worker_sound w(5)])
  moreover note worker_counted_run [OF r w(2-4) this]
  ultimately show ?thesis using w(6,7)
    by (intro exI [of _ w] exI [of _ ?es'] exI [of _ w'] conjI) simp_all
qed

text \<open>
  The target of \<open>request_stop_after_iterations\<close> is never the sentinel for "no stop", does not lie
  before the iterations already done, and is exact where the sum fits.
\<close>

lemma stop_target_correct:
  assumes "finished < MAX_ITERATION_COUNT"
  shows "stop_target n finished < MAX_ITERATION_COUNT" "finished \<le> stop_target n finished"
    "unat finished + unat n < unat MAX_ITERATION_COUNT \<Longrightarrow> unat (stop_target n finished) = unat finished + unat n"
proof -
  let ?M = "unat MAX_ITERATION_COUNT"
  have M: "unat (MAX_ITERATION_COUNT - finished) = ?M - unat finished" "unat (MAX_ITERATION_COUNT - 1) = ?M - 1"
    "?M = 2 ^ 64 - 1"
    using assms by (simp_all add: unat_sub MAX_ITERATION_COUNT_def less_imp_le unsigned_minus_1_eq_mask
        mask_eq_exp_minus_1)
  have f: "unat finished < ?M" using assms by (simp add: word_less_nat_alt)
  have sum: "unat (finished + n) = unat finished + unat n" if "unat n < ?M - unat finished"
    using that M(3) by (simp add: unat_add_lem [THEN iffD1])
  show "stop_target n finished < MAX_ITERATION_COUNT" "finished \<le> stop_target n finished"
    "unat finished + unat n < ?M \<Longrightarrow> unat (stop_target n finished) = unat finished + unat n"
    using f sum M unfolding stop_target_def word_less_nat_alt word_le_nat_alt by auto
qed

section \<open>Where the code differs from what it means to do\<close>

text \<open>
  \<open>start()\<close> called in the stop callback, where the worker already counts as stopped: the
  \<open>wait_for_stop()\<close> outside the try block throws and leaves the state \<open>running\<close>. No later step resets it,
  so every further \<open>start()\<close> is refused although no thread runs.
\<close>

definition wedged :: "worker \<Rightarrow> bool" where
  "wedged w \<longleftrightarrow> m_running w \<and> starter w = Not_starting \<and> \<not> active (pc w)"

lemma wedged_step:
  assumes "wedged w" and "worker_step w e w'"
  shows "wedged w'"
  using assms(2,1)
proof (induct rule: worker_step.induct)
  case (start_call c n w w') then show ?case by (auto simp: wedged_def start_cas_Inr)
next case (start_joined w n c w') then show ?case by (auto simp: wedged_def)
next case (joined c w w') then show ?case by (auto simp: wedged_def wait_for_stop_Inr split: if_splits)
qed (auto simp: wedged_def worker_defs split: sum.splits)

lemma start_in_stop_callback_wedges:
  assumes "reach worker_init worker_step w" and "pc w = In_stop ex" and "starter w = Not_starting"
    and "start_cas Worker_thread n w = (w', r)" and "run worker_step w' es w''"
  shows "r = Inl Logic_error" "start_cas (Client c) m w'' = (w'', Inl Runtime_error)"
proof -
  have t: "thread_inv w" by (rule thread_system.reach_inv [OF assms(1)])
  then have "w' = w\<lparr>m_running := True\<rparr> \<and> r = Inl Logic_error"
    using assms(2-4) by (auto simp: thread_inv_def start_cas_def Let_def)
  then show "r = Inl Logic_error" by simp
  have "wedged w'" using \<open>w' = _ \<and> _\<close> assms(2,3) by (simp add: wedged_def)
  with assms(5) have "wedged w''" by (induction rule: run.induct) (auto intro: wedged_step)
  then show "start_cas (Client c) m w'' = (w'', Inl Runtime_error)"
    by (simp add: wedged_def start_cas_def)
qed

end
