(* ===== verification/TcpSession.thy ===== *)
theory TcpSession
  imports Prelude
begin

text \<open>
  One TCP connection: \<open>net/include/sg/net/tcp_session.h\<close> and \<open>net/src/tcp_session.cpp\<close>.

  Any thread may call \<open>write\<close>, \<open>stop_async\<close>, \<open>stop_async_force\<close> and \<open>set_timeout\<close>; one thread runs
  \<open>start\<close>; the coroutines \<open>reader\<close> and \<open>writer\<close> and the handler \<open>close_impl\<close> run on the strand. Each
  critical section, atomic access or stretch of a coroutine between two suspension points is one
  function on the record \<open>session\<close>, and \<open>session_step\<close> has a rule for each, with its place in the
  code given by \<open>starter\<close>, \<open>reader\<close>, \<open>writer\<close>, \<open>rechecking\<close> and \<open>closer\<close>. Handlers that the strand
  serialises may interleave here at those boundaries, so every behaviour of the strand is included
  (also \<open>close_impl\<close> running inside a callback that closes the session).

  The socket and the callbacks are arbitrary: a rule labels what the network or the user code does.
  \<open>accepted\<close>, \<open>wire\<close> and \<open>disconnects\<close> are ghosts: the bytes of all accepted messages, the bytes the
  socket has taken, and the calls of \<open>onDisconnected\<close>.
\<close>

section \<open>State\<close>

datatype state_t = Running | Stop_requested | Stopping | Stopped

type_synonym msg = "byte list"

record options_t =
  dont_read :: bool
  timeout_msec :: nat
  write_high_water_mark :: nat

datatype session_start_pc = S_idle | S_setup | S_connecting | S_spawning | S_failed exn | S_stopping | S_done

datatype reader_pc = R_none | R_spawned | R_reading | R_callback | R_failed exn | R_closing | R_done

text \<open>\<open>W_idle\<close>: no writer coroutine; \<open>W_ready\<close>: at the top of its loop; \<open>W_writing\<close>: suspended, with the
  bytes of the batch the socket has not taken.\<close>

datatype writer_pc = W_idle | W_ready | W_writing "byte list" | W_failed exn | W_closing | W_dead

datatype closer_pc = C_none | C_dispatched | C_callback | C_storing | C_done

record session =
  m_options :: options_t
  has_on_connected :: bool
  has_on_disconnected :: bool
  has_on_data :: bool
  m_disconnection_callback_owed :: bool
  m_write_scheduled :: bool
  m_write_msgs :: "msg list"
  m_queued_bytes :: nat
  m_writing_bytes :: nat
  m_state :: state_t
  m_start_called :: bool
  m_exception :: "exn option"
  m_socket_open :: bool
  starter :: session_start_pc
  reader :: reader_pc
  writer :: writer_pc
  rechecking :: bool
  closer :: closer_pc
  closes_due :: nat
  accepted :: "byte list"
  wire :: "byte list"
  disconnects :: "exn option list"

definition new_session :: "options_t \<Rightarrow> bool \<Rightarrow> bool \<Rightarrow> bool \<Rightarrow> session res" where
  "new_session opts on_connected on_disconnected on_data =
     (if dont_read opts \<and> \<not> on_data then Inl Invalid_argument
      else Inr \<lparr>m_options = opts, has_on_connected = on_connected,
        has_on_disconnected = on_disconnected, has_on_data = on_data,
        m_disconnection_callback_owed = False, m_write_scheduled = False, m_write_msgs = [],
        m_queued_bytes = 0, m_writing_bytes = 0, m_state = Stopped, m_start_called = False,
        m_exception = None, m_socket_open = True, starter = S_idle, reader = R_none,
        writer = W_idle, rechecking = False, closer = C_none, closes_due = 0, accepted = [],
        wire = [], disconnects = []\<rparr>)"

section \<open>Closing\<close>

definition close :: "session \<Rightarrow> session" where
  "close s =
     (if m_state s = Running \<or> m_state s = Stop_requested
      then s\<lparr>m_state := Stopping, closer := C_dispatched\<rparr> else s)"

text \<open>\<open>close_impl\<close>: shut the socket down, call \<open>onDisconnected\<close>, then publish \<open>stopped\<close>.\<close>

definition close_impl :: "session \<Rightarrow> session" where
  "close_impl s =
     (let exPtr = m_exception s; s = s\<lparr>m_socket_open := False\<rparr>
      in if m_disconnection_callback_owed s \<and> has_on_disconnected s
         then s\<lparr>disconnects := disconnects s @ [exPtr], closer := C_callback\<rparr>
         else s\<lparr>closer := C_storing\<rparr>)"

definition close_impl_returned :: "unit res \<Rightarrow> session \<Rightarrow> session" where
  "close_impl_returned r s = s\<lparr>closer := C_storing\<rparr>"

definition close_impl_store :: "session \<Rightarrow> session" where
  "close_impl_store s = s\<lparr>m_state := Stopped, closer := C_done\<rparr>"

text \<open>Where the code catches an exception: it is kept if the session was meant to be running.\<close>

definition record_exception :: "exn \<Rightarrow> session \<Rightarrow> session" where
  "record_exception e s =
     (if m_state s = Running \<and> m_exception s = None then s\<lparr>m_exception := Some e\<rparr> else s)"

text \<open>\<open>stop_async\<close>: the critical section; the \<open>close()\<close> after it is due where no writer is scheduled.\<close>

definition stop_async_locked :: "session \<Rightarrow> session \<times> bool" where
  "stop_async_locked s =
     (if m_state s \<noteq> Running then (s, False)
      else (s\<lparr>m_state := Stop_requested\<rparr>, \<not> m_write_scheduled s))"

definition stop_async :: "session \<Rightarrow> session" where
  "stop_async s =
     (let (s, shouldClose) = stop_async_locked s
      in if shouldClose then s\<lparr>closes_due := closes_due s + 1\<rparr> else s)"

definition stop_async_close :: "session \<Rightarrow> session" where
  "stop_async_close s = close (s\<lparr>closes_due := closes_due s - 1\<rparr>)"

definition stop_async_force :: "session \<Rightarrow> session" where
  "stop_async_force s = close s"

text \<open>\<open>wait_until_stopped\<close> throws on the I/O pool and otherwise blocks (\<open>None\<close>) until stopped.\<close>

definition wait_until_stopped :: "bool \<Rightarrow> session \<Rightarrow> unit res option" where
  "wait_until_stopped running_in_io_thread s =
     (if running_in_io_thread then Some (Inl Logic_error)
      else if m_state s = Stopped then Some (Inr ()) else None)"

definition is_connected :: "session \<Rightarrow> bool" where
  "is_connected s \<longleftrightarrow> m_state s = Running"

section \<open>Starting\<close>

definition session_start :: "session \<Rightarrow> session \<times> unit res" where
  "session_start s =
     (if m_start_called s then (s, Inl Logic_error)
      else let s = s\<lparr>m_start_called := True\<rparr>
           in if m_state s \<noteq> Stopped then (s, Inl Runtime_error)
              else (s\<lparr>m_state := Running, starter := S_setup\<rparr>, Inr ()))"

text \<open>The socket options and end points: any of these calls may throw.\<close>

definition start_setup :: "unit res \<Rightarrow> session \<Rightarrow> session" where
  "start_setup r s =
     (case r of Inl e \<Rightarrow> s\<lparr>starter := S_failed e\<rparr>
      | Inr _ \<Rightarrow> let s = s\<lparr>m_disconnection_callback_owed := True\<rparr>
          in if has_on_connected s then s\<lparr>starter := S_connecting\<rparr> else s\<lparr>starter := S_spawning\<rparr>)"

definition start_connected :: "unit res \<Rightarrow> session \<Rightarrow> session" where
  "start_connected r s =
     (case r of Inl e \<Rightarrow> s\<lparr>starter := S_failed e\<rparr> | Inr _ \<Rightarrow> s\<lparr>starter := S_spawning\<rparr>)"

definition start_spawn_reader :: "session \<Rightarrow> session" where
  "start_spawn_reader s = s\<lparr>reader := R_spawned, starter := S_done\<rparr>"

definition start_catch :: "exn \<Rightarrow> session \<Rightarrow> session" where
  "start_catch e s = (record_exception e s)\<lparr>starter := S_stopping\<rparr>"

definition start_stop :: "session \<Rightarrow> session" where
  "start_stop s = (stop_async s)\<lparr>starter := S_done\<rparr>"

section \<open>Writing\<close>

definition pending_bytes :: "session \<Rightarrow> nat" where
  "pending_bytes s = m_queued_bytes s + m_writing_bytes s"

definition session_write :: "msg \<Rightarrow> session \<Rightarrow> session \<times> unit res" where
  "session_write msg s =
     (if m_state s \<noteq> Running then (s, Inl Runtime_error)
      else let mark = write_high_water_mark (m_options s)
      in if mark \<noteq> 0 \<and> pending_bytes s \<ge> mark then (s, Inl Buffer_full)
      else let need_spawn = \<not> m_write_scheduled s;
             s = s\<lparr>m_queued_bytes := m_queued_bytes s + length msg,
                   m_write_msgs := m_write_msgs s @ [msg], m_write_scheduled := True,
                   accepted := accepted s @ msg\<rparr>
           in (if need_spawn then s\<lparr>writer := W_ready\<rparr> else s, Inr ()))"

definition set_timeout :: "nat \<Rightarrow> session \<Rightarrow> session" where
  "set_timeout timeoutMSec s = s\<lparr>m_options := (m_options s)\<lparr>timeout_msec := timeoutMSec\<rparr>\<rparr>"

text \<open>The top of the writer's loop; with nothing to write it only looks at the state once more.\<close>

definition writer_swap :: "session \<Rightarrow> session" where
  "writer_swap s =
     (let buffers = m_write_msgs s;
          batch = sum_list (map length buffers);
          s = s\<lparr>m_write_msgs := [], m_queued_bytes := m_queued_bytes s - batch,
                m_writing_bytes := batch\<rparr>
      in if buffers = [] then s\<lparr>m_write_scheduled := False, writer := W_idle, rechecking := True\<rparr>
         else s\<lparr>writer := W_writing (concat buffers)\<rparr>)"

definition writer_check :: "session \<Rightarrow> session" where
  "writer_check s =
     (let s = s\<lparr>rechecking := False\<rparr> in if m_state s \<noteq> Running then close s else s)"

text \<open>The socket takes \<open>n\<close> bytes of the batch.\<close>

definition socket_takes :: "nat \<Rightarrow> byte list \<Rightarrow> session \<Rightarrow> session" where
  "socket_takes n rest s = s\<lparr>wire := wire s @ take n rest, writer := W_writing (drop n rest)\<rparr>"

definition writer_written :: "session \<Rightarrow> session" where
  "writer_written s = s\<lparr>writer := W_ready\<rparr>"

text \<open>\<open>async_write\<close> completed with the error code \<open>ec\<close>.\<close>

datatype ec = Ec_timed_out | Ec_operation_aborted | Ec_other nat

definition ec_code :: "ec \<Rightarrow> nat" where
  "ec_code ec = (case ec of Ec_timed_out \<Rightarrow> 0 | Ec_operation_aborted \<Rightarrow> 1 | Ec_other n \<Rightarrow> n + 2)"

definition writer_error :: "ec \<Rightarrow> session \<Rightarrow> session" where
  "writer_error ec s =
     (if timeout_msec (m_options s) \<noteq> 0 \<and> m_state s = Running \<and>
         (ec = Ec_timed_out \<or> ec = Ec_operation_aborted)
      then s\<lparr>writer := W_failed Time_out\<rparr> else s\<lparr>writer := W_failed (System_error (ec_code ec))\<rparr>)"

definition writer_catch :: "exn \<Rightarrow> session \<Rightarrow> session" where
  "writer_catch e s = (record_exception e s)\<lparr>writer := W_closing\<rparr>"

definition writer_close :: "session \<Rightarrow> session" where
  "writer_close s = (close s)\<lparr>writer := W_dead\<rparr>"

section \<open>Reading\<close>

text \<open>The loop condition.\<close>

definition reader_loop :: "session \<Rightarrow> session" where
  "reader_loop s = (if m_socket_open s then s\<lparr>reader := R_reading\<rparr> else s\<lparr>reader := R_closing\<rparr>)"

definition reader_begin :: "unit res \<Rightarrow> session \<Rightarrow> session" where
  "reader_begin r s = (case r of Inl e \<Rightarrow> s\<lparr>reader := R_failed e\<rparr> | Inr _ \<Rightarrow> reader_loop s)"

text \<open>Bytes arrived (or, with \<open>dont_read\<close>, the socket became readable), or the read failed.\<close>

definition reader_received :: "unit res \<Rightarrow> session \<Rightarrow> session" where
  "reader_received r s =
     (case r of Inl e \<Rightarrow> s\<lparr>reader := R_failed e\<rparr>
      | Inr _ \<Rightarrow> if dont_read (m_options s) \<or> has_on_data s then s\<lparr>reader := R_callback\<rparr>
               else reader_loop s)"

definition reader_returned :: "unit res \<Rightarrow> session \<Rightarrow> session" where
  "reader_returned r s = (case r of Inl e \<Rightarrow> s\<lparr>reader := R_failed e\<rparr> | Inr _ \<Rightarrow> reader_loop s)"

definition reader_catch :: "exn \<Rightarrow> session \<Rightarrow> session" where
  "reader_catch e s = (record_exception e s)\<lparr>reader := R_closing\<rparr>"

definition reader_close :: "session \<Rightarrow> session" where
  "reader_close s = (close s)\<lparr>reader := R_done\<rparr>"

section \<open>Steps\<close>

datatype session_event =
    Start
  | Set_up "unit res"
  | Connected "unit res"
  | Spawn_reader
  | Start_catch
  | Start_stop
  | Write msg
  | Set_timeout nat
  | Stop_async
  | Stop_async_close
  | Stop_async_force
  | Writer_swap
  | Writer_check
  | Socket_takes nat
  | Writer_written
  | Writer_error ec
  | Writer_catch
  | Writer_close
  | Reader_begin "unit res"
  | Reader_received "unit res"
  | Reader_returned "unit res"
  | Reader_catch
  | Reader_close
  | Close_impl
  | Close_returned "unit res"
  | Close_store

inductive session_step :: "session \<Rightarrow> session_event \<Rightarrow> session \<Rightarrow> bool" where
  start: "session_start s = (s', Inr ()) \<Longrightarrow> session_step s Start s'"
| set_up: "starter s = S_setup \<Longrightarrow> session_step s (Set_up r) (start_setup r s)"
| connects: "starter s = S_connecting \<Longrightarrow> session_step s (Connected r) (start_connected r s)"
| spawn_reader: "starter s = S_spawning \<Longrightarrow> session_step s Spawn_reader (start_spawn_reader s)"
| start_catch: "starter s = S_failed e \<Longrightarrow> session_step s Start_catch (start_catch e s)"
| start_stop: "starter s = S_stopping \<Longrightarrow> session_step s Start_stop (start_stop s)"
| writes: "session_write msg s = (s', Inr ()) \<Longrightarrow> session_step s (Write msg) s'"
| set_timeout: "session_step s (Set_timeout n) (set_timeout n s)"
| stop_async: "session_step s Stop_async (stop_async s)"
| stop_async_close: "closes_due s > 0 \<Longrightarrow> session_step s Stop_async_close (stop_async_close s)"
| stop_async_force: "session_step s Stop_async_force (stop_async_force s)"
| writer_swap: "writer s = W_ready \<Longrightarrow> \<not> rechecking s \<Longrightarrow> session_step s Writer_swap (writer_swap s)"
| writer_check: "rechecking s \<Longrightarrow> session_step s Writer_check (writer_check s)"
| socket_takes: "writer s = W_writing rest \<Longrightarrow> n \<le> length rest \<Longrightarrow> m_socket_open s \<Longrightarrow>
    session_step s (Socket_takes n) (socket_takes n rest s)"
| writer_written: "writer s = W_writing [] \<Longrightarrow> session_step s Writer_written (writer_written s)"
| writer_error: "writer s = W_writing rest \<Longrightarrow> session_step s (Writer_error c) (writer_error c s)"
| writer_catch: "writer s = W_failed e \<Longrightarrow> session_step s Writer_catch (writer_catch e s)"
| writer_close: "writer s = W_closing \<Longrightarrow> session_step s Writer_close (writer_close s)"
| reader_begin: "reader s = R_spawned \<Longrightarrow> session_step s (Reader_begin r) (reader_begin r s)"
| reader_received: "reader s = R_reading \<Longrightarrow>
    session_step s (Reader_received r) (reader_received r s)"
| reader_returned: "reader s = R_callback \<Longrightarrow>
    session_step s (Reader_returned r) (reader_returned r s)"
| reader_catch: "reader s = R_failed e \<Longrightarrow> session_step s Reader_catch (reader_catch e s)"
| reader_close: "reader s = R_closing \<Longrightarrow> session_step s Reader_close (reader_close s)"
| close_impl: "closer s = C_dispatched \<Longrightarrow> session_step s Close_impl (close_impl s)"
| close_returned: "closer s = C_callback \<Longrightarrow>
    session_step s (Close_returned r) (close_impl_returned r s)"
| close_store: "closer s = C_storing \<Longrightarrow> session_step s Close_store (close_impl_store s)"

inductive session_init :: "session \<Rightarrow> bool" where
  "new_session opts c d r = Inr s \<Longrightarrow> session_init s"

section \<open>Invariants\<close>

named_theorems session_defs
declare close_def [session_defs] close_impl_def [session_defs] close_impl_returned_def [session_defs]
  close_impl_store_def [session_defs] record_exception_def [session_defs]
  stop_async_locked_def [session_defs] stop_async_def [session_defs]
  stop_async_close_def [session_defs] stop_async_force_def [session_defs]
  session_start_def [session_defs] start_setup_def [session_defs] start_connected_def [session_defs]
  start_spawn_reader_def [session_defs] start_catch_def [session_defs] start_stop_def [session_defs]
  session_write_def [session_defs] set_timeout_def [session_defs] writer_swap_def [session_defs]
  writer_check_def [session_defs] socket_takes_def [session_defs] writer_written_def [session_defs]
  writer_error_def [session_defs] writer_catch_def [session_defs] writer_close_def [session_defs]
  reader_loop_def [session_defs] reader_begin_def [session_defs] reader_received_def [session_defs]
  reader_returned_def [session_defs] reader_catch_def [session_defs]
  reader_close_def [session_defs] Let_def [session_defs]

text \<open>
  The data: what the socket took, the bytes in flight (or lost with a failed write) and the queued
  messages add up to the accepted bytes, in order; the counter of the batch covers the bytes in
  flight.
\<close>

fun flow :: "writer_pc \<Rightarrow> msg list \<Rightarrow> nat \<Rightarrow> byte list \<Rightarrow> byte list \<Rightarrow> bool" where
  "flow W_idle msgs batch w acc \<longleftrightarrow> msgs = [] \<and> batch = 0 \<and> w = acc"
| "flow W_ready msgs batch w acc \<longleftrightarrow> w @ concat msgs = acc"
| "flow (W_writing rest) msgs batch w acc \<longleftrightarrow> w @ rest @ concat msgs = acc \<and> length rest \<le> batch"
| "flow _ msgs batch w acc \<longleftrightarrow> (\<exists>lost. w @ lost @ concat msgs = acc \<and> length lost \<le> batch)"

definition data_inv :: "session \<Rightarrow> bool" where
  "data_inv s \<longleftrightarrow>
     m_queued_bytes s = sum_list (map length (m_write_msgs s)) \<and>
     (m_write_scheduled s \<longleftrightarrow> writer s \<noteq> W_idle) \<and>
     flow (writer s) (m_write_msgs s) (m_writing_bytes s) (wire s) (accepted s)"

lemma flow_append:
  "flow p msgs batch w acc \<Longrightarrow> flow (if p = W_idle then W_ready else p) (msgs @ [m]) batch w (acc @ m)"
  by (cases p) auto

lemma data_inv_write:
  assumes "data_inv s" and "session_write msg s = (s', Inr ())"
  shows "data_inv s'"
  using assms flow_append [of "writer s" "m_write_msgs s" "m_writing_bytes s" "wire s" "accepted s" msg]
  by (auto simp: data_inv_def session_write_def Let_def split: if_splits)

lemma data_inv_step:
  assumes "data_inv s" and "session_step s e s'"
  shows "data_inv s'"
  using assms(2,1)
proof (induct rule: session_step.induct)
  case (start s s') then show ?case by (auto simp: data_inv_def session_defs split: if_splits)
next case (writes msg s s') then show ?case by (auto intro: data_inv_write)
next case (writer_swap s) then show ?case by (auto simp: data_inv_def session_defs length_concat)
next case (socket_takes s rest n) then show ?case by (auto simp: data_inv_def session_defs)
qed (auto simp: data_inv_def session_defs split: sum.splits)

lemma data_inv_init: "session_init s \<Longrightarrow> data_inv s"
  by (auto simp: session_init.simps new_session_def data_inv_def split: if_splits)

interpretation data_system: invariant_system session_init session_step data_inv
  by unfold_locales (auto intro: data_inv_init data_inv_step)

text \<open>
  The life cycle: how state, closing handler and socket fit together, and who is going to close a
  session that has been asked to stop.
\<close>

fun operating :: "state_t \<Rightarrow> bool" where
  "operating Running = True"
| "operating Stop_requested = True"
| "operating Stopping = False"
| "operating Stopped = False"

fun closing :: "closer_pc \<Rightarrow> bool" where
  "closing C_dispatched = True"
| "closing C_callback = True"
| "closing C_storing = True"
| "closing C_none = False"
| "closing C_done = False"

definition life_inv :: "session \<Rightarrow> bool" where
  "life_inv s \<longleftrightarrow> data_inv s \<and>
     (m_start_called s \<longleftrightarrow> starter s \<noteq> S_idle) \<and>
     (\<not> m_start_called s \<longrightarrow> writer s = W_idle \<and> closes_due s = 0 \<and> m_state s = Stopped) \<and>
     (m_state s = Stopped \<longrightarrow> closer s = (if m_start_called s then C_done else C_none)) \<and>
     (m_state s = Stopping \<longleftrightarrow> closing (closer s)) \<and>
     (operating (m_state s) \<longrightarrow> closer s = C_none) \<and>
     (closer s = C_none \<longrightarrow> m_socket_open s \<and> writer s \<noteq> W_dead \<and> reader s \<noteq> R_done) \<and>
     (m_state s = Stop_requested \<longrightarrow> closes_due s > 0 \<or> rechecking s \<or> writer s \<noteq> W_idle) \<and>
     (closes_due s > 0 \<longrightarrow> m_state s \<noteq> Running) \<and>
     (reader s \<noteq> R_none \<longrightarrow> starter s = S_done)"

lemma life_inv_other:
  assumes "life_inv s" and "data_inv s'" and "m_state s' = m_state s" and "closer s' = closer s"
    and "m_start_called s' = m_start_called s" and "m_socket_open s' = m_socket_open s"
    and "closes_due s' = closes_due s" and "rechecking s' = rechecking s"
    and "writer s' = writer s \<or> writer s \<noteq> W_idle \<and> writer s' \<noteq> W_idle \<and> writer s' \<noteq> W_dead"
    and "reader s' = reader s \<and> starter s \<noteq> S_idle \<and> starter s' \<noteq> S_idle \<and> starter s \<noteq> S_done \<or>
         starter s' = starter s \<and> (reader s' = reader s \<or> reader s \<noteq> R_none \<and> reader s' \<noteq> R_done) \<or>
         starter s' = S_done \<and> starter s \<noteq> S_idle \<and> reader s' = R_spawned"
  shows "life_inv s'"
  using assms unfolding life_inv_def by (elim conjE disjE) simp_all

lemma state_cases:
  obtains "m_state s = Running" | "m_state s = Stop_requested" | "m_state s = Stopping" | "m_state s = Stopped"
  by (cases "m_state s") auto

lemma life_inv_step:
  assumes "life_inv s" and "session_step s e s'"
  shows "life_inv s'"
proof -
  have d: "data_inv s'" using assms data_inv_step by (auto simp: life_inv_def)
  show ?thesis
    using assms(2,1) d
  proof (induct rule: session_step.induct)
    case (start s s') then show ?case by (auto simp: life_inv_def session_defs split: if_splits)
  next case (writes msg s s') then show ?case by (auto simp: life_inv_def session_defs split: if_splits)
  next case (start_stop s) then show ?case by (cases s rule: state_cases) (auto simp: life_inv_def session_defs data_inv_def)
  next case (stop_async s) then show ?case by (cases s rule: state_cases) (auto simp: life_inv_def session_defs data_inv_def)
  next case (stop_async_close s) then show ?case by (cases s rule: state_cases) (auto simp: life_inv_def session_defs)
  next case (stop_async_force s) then show ?case by (cases s rule: state_cases) (auto simp: life_inv_def session_defs)
  next case (writer_check s) then show ?case by (cases s rule: state_cases) (auto simp: life_inv_def session_defs)
  next case (writer_close s) then show ?case by (cases s rule: state_cases) (auto simp: life_inv_def session_defs)
  next case (reader_close s) then show ?case by (cases s rule: state_cases) (auto simp: life_inv_def session_defs)
  next case (writer_swap s) then show ?case by (auto simp: life_inv_def session_defs)
  next case (close_impl s) then show ?case by (auto simp: life_inv_def session_defs)
  next case (close_returned s r) then show ?case by (auto simp: life_inv_def session_defs)
  next case (close_store s) then show ?case by (auto simp: life_inv_def session_defs)
  qed (rule life_inv_other, assumption, assumption; auto simp: session_defs split: sum.splits)+
qed

lemma life_inv_init: "session_init s \<Longrightarrow> life_inv s"
  using data_inv_init by (auto simp: session_init.simps new_session_def life_inv_def split: if_splits)

interpretation life_system: invariant_system session_init session_step life_inv
  by unfold_locales (auto intro: life_inv_init life_inv_step)

text \<open>The notification of the disconnection.\<close>

definition notice_inv :: "session \<Rightarrow> bool" where
  "notice_inv s \<longleftrightarrow> life_inv s \<and>
     (disconnects s = [] \<or> disconnects s = [m_exception s] \<and> closer s \<noteq> C_none \<and>
        closer s \<noteq> C_dispatched \<and> m_disconnection_callback_owed s \<and> has_on_disconnected s) \<and>
     (dont_read (m_options s) \<longrightarrow> has_on_data s)"

lemma life_inv_closer: "life_inv s \<Longrightarrow> operating (m_state s) \<Longrightarrow> closer s = C_none"
  by (simp add: life_inv_def)

lemma life_inv_unstarted:
  "life_inv s \<Longrightarrow> \<not> m_start_called s \<Longrightarrow> writer s = W_idle \<and> reader s = R_none \<and> closes_due s = 0"
  by (auto simp: life_inv_def)

lemma life_inv_scheduled: "life_inv s \<Longrightarrow> m_write_scheduled s \<longleftrightarrow> writer s \<noteq> W_idle"
  by (simp add: life_inv_def data_inv_def)

lemma life_inv_due: "life_inv s \<Longrightarrow> m_state s = Running \<Longrightarrow> closes_due s = 0"
  by (auto simp: life_inv_def)

lemma notice_inv_step:
  assumes "notice_inv s" and "session_step s e s'"
  shows "notice_inv s'"
proof -
  have d: "life_inv s'" using assms life_inv_step by (auto simp: notice_inv_def)
  show ?thesis
    using assms(2,1) d
  proof (induct rule: session_step.induct)
    case (start s s') then show ?case by (auto simp: notice_inv_def session_defs split: if_splits)
  next case (writes msg s s') then show ?case by (auto simp: notice_inv_def session_defs split: if_splits)
  next case (stop_async_close s) then show ?case by (cases s rule: state_cases) (auto simp: notice_inv_def life_inv_closer session_defs)
  next case (stop_async_force s) then show ?case by (cases s rule: state_cases) (auto simp: notice_inv_def life_inv_closer session_defs)
  next case (writer_check s) then show ?case by (cases s rule: state_cases) (auto simp: notice_inv_def life_inv_closer session_defs)
  next case (writer_close s) then show ?case by (cases s rule: state_cases) (auto simp: notice_inv_def life_inv_closer session_defs)
  next case (reader_close s) then show ?case by (cases s rule: state_cases) (auto simp: notice_inv_def life_inv_closer session_defs)
  next case (close_impl s) then show ?case by (auto simp: notice_inv_def session_defs)
  next case (start_catch s e) then show ?case by (auto simp: notice_inv_def life_inv_closer session_defs)
  next case (writer_catch s e) then show ?case by (auto simp: notice_inv_def life_inv_closer session_defs)
  next case (reader_catch s e) then show ?case by (auto simp: notice_inv_def life_inv_closer session_defs)
  qed (auto simp: notice_inv_def session_defs split: sum.splits)
qed

lemma notice_inv_init: "session_init s \<Longrightarrow> notice_inv s"
  using life_inv_init by (auto simp: session_init.simps new_session_def notice_inv_def split: if_splits)

interpretation notice_system: invariant_system session_init session_step notice_inv
  by unfold_locales (auto intro: notice_inv_init notice_inv_step)

text \<open>The state only moves forward, and once the session does not run no exception is recorded.\<close>

fun rank :: "bool \<Rightarrow> state_t \<Rightarrow> nat" where
  "rank started Running = 1"
| "rank started Stop_requested = 2"
| "rank started Stopping = 3"
| "rank started Stopped = (if started then 4 else 0)"

definition forward :: "session \<Rightarrow> session \<Rightarrow> bool" where
  "forward s s' \<longleftrightarrow> rank (m_start_called s) (m_state s) \<le> rank (m_start_called s') (m_state s') \<and>
     (m_start_called s \<longrightarrow> m_start_called s') \<and>
     (m_start_called s \<and> m_state s \<noteq> Running \<longrightarrow> m_state s' \<noteq> Running \<and> m_exception s' = m_exception s \<and>
        accepted s' = accepted s)"

lemma forward_refl: "forward s s"
  by (simp add: forward_def)

lemma forward_trans: "forward s s' \<Longrightarrow> forward s' s'' \<Longrightarrow> forward s s''"
  by (auto simp: forward_def)

lemma session_step_forward:
  assumes "session_step s e s'" and "life_inv s"
  shows "forward s s'"
  using assms
proof (induct rule: session_step.induct)
  case (start s s') then show ?case by (auto simp: forward_def session_defs split: if_splits)
next case (writes msg s s') then show ?case by (auto simp: forward_def session_defs split: if_splits)
next case (close_store s)
  then have "m_state s = Stopping" by (auto simp: life_inv_def)
  moreover from this close_store have "m_start_called s" by (auto simp: life_inv_def)
  ultimately show ?case by (simp add: forward_def session_defs)
qed (auto simp: forward_def session_defs split: sum.splits)

lemma session_run_forward: "run session_step s es s' \<Longrightarrow> life_inv s \<Longrightarrow> forward s s'"
  by (induction rule: run.induct)
    (auto intro: forward_refl forward_trans session_step_forward life_inv_step)

section \<open>Graceful stops\<close>

text \<open>
  The steps of a session that is stopped gracefully: nobody forces the stop, nothing fails while the
  session operates, and no message is accepted in the moment between the writer's finding its queue
  empty and its looking at the state.
\<close>

fun graceful :: "session \<Rightarrow> session_event \<Rightarrow> bool" where
  "graceful s Stop_async_force = False"
| "graceful s (Write _) = (\<not> rechecking s)"
| "graceful s (Set_up r) = (r = Inr ())"
| "graceful s (Connected r) = (r = Inr ())"
| "graceful s (Writer_error _) = (\<not> operating (m_state s))"
| "graceful s (Reader_begin r) = (r = Inr () \<or> \<not> operating (m_state s))"
| "graceful s (Reader_received r) = (r = Inr () \<or> \<not> operating (m_state s))"
| "graceful s (Reader_returned r) = (r = Inr () \<or> \<not> operating (m_state s))"
| "graceful s _ = True"

definition graceful_step :: "session \<Rightarrow> session_event \<Rightarrow> session \<Rightarrow> bool" where
  "graceful_step s e s' \<longleftrightarrow> session_step s e s' \<and> graceful s e"

fun writer_works :: "writer_pc \<Rightarrow> bool" where
  "writer_works W_idle = True"
| "writer_works W_ready = True"
| "writer_works (W_writing _) = True"
| "writer_works _ = False"

fun reader_works :: "reader_pc \<Rightarrow> bool" where
  "reader_works (R_failed _) = False"
| "reader_works R_closing = False"
| "reader_works R_done = False"
| "reader_works _ = True"

fun start_works :: "session_start_pc \<Rightarrow> bool" where
  "start_works (S_failed _) = False"
| "start_works S_stopping = False"
| "start_works _ = True"

definition drained_inv :: "session \<Rightarrow> bool" where
  "drained_inv s \<longleftrightarrow> life_inv s \<and> start_works (starter s) \<and>
     (operating (m_state s) \<longrightarrow> writer_works (writer s) \<and> reader_works (reader s)) \<and>
     (rechecking s \<longrightarrow> writer s = W_idle) \<and>
     (closes_due s > 0 \<longrightarrow> writer s = W_idle) \<and>
     (\<not> operating (m_state s) \<longrightarrow> wire s = accepted s)"

lemma life_inv_idle: "life_inv s \<Longrightarrow> writer s = W_idle \<Longrightarrow> wire s = accepted s"
  by (simp add: life_inv_def data_inv_def)

lemma life_inv_open: "life_inv s \<Longrightarrow> operating (m_state s) \<Longrightarrow> m_socket_open s"
  by (simp add: life_inv_def)

lemma life_inv_taken:
  "life_inv s \<Longrightarrow> writer s = W_writing rest \<Longrightarrow> wire s = accepted s \<Longrightarrow> rest = []"
  by (auto simp: life_inv_def data_inv_def)

lemma operatingI: "m_state s = Running \<Longrightarrow> operating (m_state s)" "m_state s = Stop_requested \<Longrightarrow> operating (m_state s)"
  by simp_all

lemma drained_inv_step:
  assumes "drained_inv s" and "graceful_step s e s'"
  shows "drained_inv s'"
proof -
  have step: "session_step s e s'" and g: "graceful s e" using assms(2) by (auto simp: graceful_step_def)
  have d: "life_inv s'" using assms(1) step life_inv_step by (auto simp: drained_inv_def)
  show ?thesis
    using step assms(1) d g
  proof (induct rule: session_step.induct)
    case (start s s') then show ?case
      using life_inv_unstarted [of s] by (auto simp: drained_inv_def session_defs split: if_splits)
  next case (writes msg s s')
    then have "closes_due s = 0" by (auto simp: drained_inv_def session_write_def life_inv_due split: if_splits)
    with writes show ?case
      using life_inv_scheduled [of s] by (auto simp: drained_inv_def session_defs split: if_splits)
  next case (stop_async s) then show ?case
      using life_inv_scheduled [of s] by (auto simp: drained_inv_def session_defs)
  next case (stop_async_close s) then show ?case
      by (cases s rule: state_cases) (auto simp: drained_inv_def session_defs life_inv_idle)
  next case (writer_check s) then show ?case
      by (cases s rule: state_cases) (auto simp: drained_inv_def session_defs life_inv_idle)
  next case (socket_takes s rest n) then show ?case
      using life_inv_taken [of s rest] by (auto simp: drained_inv_def session_defs)
  next case (writer_error s rest c) then show ?case by (auto simp: drained_inv_def session_defs)
  next case (close_store s) then show ?case
      using life_inv_closer [of s] by (auto simp: drained_inv_def session_defs)
  next case (reader_begin s r) then show ?case
      using life_inv_open [of s] by (auto simp: drained_inv_def session_defs split: sum.splits)
  next case (reader_received s r) then show ?case
      using life_inv_open [of s] by (auto simp: drained_inv_def session_defs split: sum.splits)
  next case (reader_returned s r) then show ?case
      using life_inv_open [of s] by (auto simp: drained_inv_def session_defs split: sum.splits)
  qed (auto simp: drained_inv_def session_defs split: sum.splits)
qed

lemma drained_inv_init: "session_init s \<Longrightarrow> drained_inv s"
  using life_inv_init by (auto simp: session_init.simps new_session_def drained_inv_def split: if_splits)

interpretation graceful_system: invariant_system session_init graceful_step drained_inv
  by unfold_locales (auto intro: drained_inv_init drained_inv_step)

section \<open>Executable steps\<close>

fun next_session :: "session_event \<Rightarrow> session \<Rightarrow> session option" where
  "next_session Start s = (case session_start s of (s', Inr _) \<Rightarrow> Some s' | _ \<Rightarrow> None)"
| "next_session (Set_up r) s = (if starter s = S_setup then Some (start_setup r s) else None)"
| "next_session (Connected r) s = (if starter s = S_connecting then Some (start_connected r s) else None)"
| "next_session Spawn_reader s = (if starter s = S_spawning then Some (start_spawn_reader s) else None)"
| "next_session Start_catch s = (case starter s of S_failed e \<Rightarrow> Some (start_catch e s) | _ \<Rightarrow> None)"
| "next_session Start_stop s = (if starter s = S_stopping then Some (start_stop s) else None)"
| "next_session (Write msg) s = (case session_write msg s of (s', Inr _) \<Rightarrow> Some s' | _ \<Rightarrow> None)"
| "next_session (Set_timeout n) s = Some (set_timeout n s)"
| "next_session Stop_async s = Some (stop_async s)"
| "next_session Stop_async_close s = (if closes_due s > 0 then Some (stop_async_close s) else None)"
| "next_session Stop_async_force s = Some (stop_async_force s)"
| "next_session Writer_swap s =
     (if writer s = W_ready \<and> \<not> rechecking s then Some (writer_swap s) else None)"
| "next_session Writer_check s = (if rechecking s then Some (writer_check s) else None)"
| "next_session (Socket_takes n) s =
     (case writer s of
        W_writing rest \<Rightarrow> if n \<le> length rest \<and> m_socket_open s then Some (socket_takes n rest s) else None
      | _ \<Rightarrow> None)"
| "next_session Writer_written s = (if writer s = W_writing [] then Some (writer_written s) else None)"
| "next_session (Writer_error c) s =
     (case writer s of W_writing _ \<Rightarrow> Some (writer_error c s) | _ \<Rightarrow> None)"
| "next_session Writer_catch s = (case writer s of W_failed e \<Rightarrow> Some (writer_catch e s) | _ \<Rightarrow> None)"
| "next_session Writer_close s = (if writer s = W_closing then Some (writer_close s) else None)"
| "next_session (Reader_begin r) s = (if reader s = R_spawned then Some (reader_begin r s) else None)"
| "next_session (Reader_received r) s = (if reader s = R_reading then Some (reader_received r s) else None)"
| "next_session (Reader_returned r) s = (if reader s = R_callback then Some (reader_returned r s) else None)"
| "next_session Reader_catch s = (case reader s of R_failed e \<Rightarrow> Some (reader_catch e s) | _ \<Rightarrow> None)"
| "next_session Reader_close s = (if reader s = R_closing then Some (reader_close s) else None)"
| "next_session Close_impl s = (if closer s = C_dispatched then Some (close_impl s) else None)"
| "next_session (Close_returned r) s = (if closer s = C_callback then Some (close_impl_returned r s) else None)"
| "next_session Close_store s = (if closer s = C_storing then Some (close_impl_store s) else None)"

lemma next_session_sound: "next_session e s = Some s' \<Longrightarrow> session_step s e s'"
  by (cases e)
    (auto split: if_splits option.splits sum.splits prod.splits session_start_pc.splits
      writer_pc.splits reader_pc.splits intro: session_step.intros)

text \<open>A session with callbacks and no limits, and one that has been started.\<close>

definition plain_options :: options_t where
  "plain_options = \<lparr>dont_read = False, timeout_msec = 5000, write_high_water_mark = 0\<rparr>"

definition plain_session :: session where
  "plain_session = (case new_session plain_options True True True of Inr s \<Rightarrow> s)"

lemma plain_session_init: "session_init plain_session"
  by (rule session_init.intros [of plain_options True True True]) (simp add: plain_session_def new_session_def plain_options_def)

lemma session_reach_exec:
  "exec_run next_session es plain_session = Some s \<Longrightarrow> reach session_init session_step s"
  by (rule reach_run [OF reach_init [of session_init, OF plain_session_init]])
    (auto intro: exec_run_sound next_session_sound)

fun next_graceful :: "session_event \<Rightarrow> session \<Rightarrow> session option" where
  "next_graceful e s = (if graceful s e then next_session e s else None)"

lemma next_graceful_sound: "next_graceful e s = Some s' \<Longrightarrow> graceful_step s e s'"
  by (auto simp: graceful_step_def next_session_sound split: if_splits)

lemma graceful_reach_exec:
  "exec_run next_graceful es plain_session = Some s \<Longrightarrow> reach session_init graceful_step s"
  by (rule reach_run [OF reach_init [of session_init, OF plain_session_init]])
    (auto intro: exec_run_sound next_graceful_sound)

definition session_up :: "session_event list" where
  "session_up = [Start, Set_up (Inr ()), Connected (Inr ()), Spawn_reader, Reader_begin (Inr ())]"

lemmas session_eval = session_defs session_up_def plain_session_def new_session_def plain_options_def
  pending_bytes_def

lemma data_inv_order:
  assumes "data_inv s"
  shows "take (length (wire s)) (accepted s) = wire s \<and>
    length (accepted s) \<le> length (wire s) + pending_bytes s \<and>
    (writer s \<in> {W_idle, W_ready} \<longrightarrow> accepted s = wire s @ concat (m_write_msgs s))"
  using assms
  by (cases "writer s") (auto simp: data_inv_def pending_bytes_def length_concat dest: sym [of _ "accepted s"])

section \<open>Properties\<close>

text \<open>
  C1: Bytes reach the socket in the order in which messages were accepted, none twice: at every
  moment what the socket took is a prefix of the accepted bytes, and \<open>pending_bytes()\<close> covers the
  rest, whatever fails and whenever the session is stopped.
\<close>

theorem session_stream_order:
  assumes "reach session_init session_step s"
  shows "take (length (wire s)) (accepted s) = wire s \<and>
    length (accepted s) \<le> length (wire s) + pending_bytes s \<and>
    (writer s \<in> {W_idle, W_ready} \<longrightarrow> accepted s = wire s @ concat (m_write_msgs s))"
  by (rule data_inv_order [OF data_system.reach_inv [OF assms]])

lemma session_stream_order_witness:
  "\<exists>s. reach session_init session_step s \<and> wire s = [1] \<and> accepted s = [1, 2, 3] \<and>
     take (length (wire s)) (accepted s) = wire s \<and> length (accepted s) \<le> length (wire s) + pending_bytes s"
proof -
  let ?es = "session_up @ [Write [1, 2], Writer_swap, Write [3], Socket_takes 1]"
  obtain s where s: "exec_run next_session ?es plain_session = Some s" "wire s = [1]" "accepted s = [1, 2, 3]"
    by (simp add: session_eval)
  have "reach session_init session_step s" by (rule session_reach_exec [OF s(1)])
  with session_stream_order [OF this] s show ?thesis by blast
qed

text \<open>
  C2: A graceful stop loses nothing: if no stop is forced, nothing fails before the session is
  closing, and no message is accepted between the writer's finding its queue empty and its second
  look at the state, then when the session is closing or stopped the socket has taken every
  accepted byte.
\<close>

theorem session_graceful_stop_drains:
  assumes "reach session_init graceful_step s" and "m_state s \<in> {Stopping, Stopped}"
  shows "wire s = accepted s"
  using graceful_system.reach_inv [OF assms(1)] assms(2) by (auto simp: drained_inv_def)

text \<open>The stop is requested while the first message is being written and the second is queued.\<close>

lemma session_graceful_stop_drains_witness:
  "\<exists>s. reach session_init graceful_step s \<and> m_state s = Stopped \<and> disconnects s = [None] \<and>
     accepted s = [1, 2, 3] \<and> wire s = accepted s"
proof -
  let ?es = "session_up @ [Write [1, 2], Writer_swap, Write [3], Stop_async, Socket_takes 2,
    Writer_written, Writer_swap, Socket_takes 1, Writer_written, Writer_swap, Writer_check, Close_impl,
    Close_returned (Inr ()), Close_store]"
  obtain s where s: "exec_run next_graceful ?es plain_session = Some s" "m_state s = Stopped"
    "accepted s = [1, 2, 3]" "disconnects s = [None]"
    by (simp add: session_eval)
  have r: "reach session_init graceful_step s" by (rule graceful_reach_exec [OF s(1)])
  have "m_state s \<in> {Stopping, Stopped}" using s(2) by simp
  with session_graceful_stop_drains [OF r this] r s show ?thesis by blast
qed



text \<open>
  C10: A session is used once and a requested stop is final and clean: from the moment it has left
  the running state it never runs again, accepts no more data, and nothing that fails later is
  recorded: the exception the disconnection callback sees is the one recorded before.
\<close>

theorem session_stop_final:
  assumes "reach session_init session_step s" and "m_start_called s" and "m_state s \<noteq> Running"
    and "run session_step s es s'"
  shows "m_state s' \<noteq> Running \<and> accepted s' = accepted s \<and> set (disconnects s') \<subseteq> {m_exception s} \<and>
    session_start s' = (s', Inl Logic_error) \<and> session_write msg s' = (s', Inl Runtime_error)"
proof -
  have f: "forward s s'"
    by (rule session_run_forward [OF assms(4) life_system.reach_inv [OF assms(1)]])
  have "notice_inv s'" by (rule notice_system.reach_inv [OF reach_run [OF assms(1,4)]])
  then show ?thesis
    using f assms(2,3) by (auto simp: forward_def notice_inv_def session_start_def session_write_def)
qed

text \<open>The write that is in flight when the stop is forced fails, but the disconnection is clean.\<close>

lemma session_stop_final_witness:
  "\<exists>s s'. reach session_init session_step s \<and> m_state s = Stopping \<and>
     disconnects s' = [None] \<and> set (disconnects s') \<subseteq> {m_exception s} \<and>
     session_write [7] s' = (s', Inl Runtime_error)"
proof -
  let ?es = "session_up @ [Write [1, 2], Writer_swap, Stop_async_force]"
  let ?es' = "[Writer_error Ec_operation_aborted, Writer_catch, Writer_close, Close_impl,
     Close_returned (Inr ()), Close_store]"
  obtain s s' where s: "exec_run next_session ?es plain_session = Some s" "m_state s = Stopping"
    "m_start_called s" "exec_run next_session ?es' s = Some s'" "disconnects s' = [None]"
    by (simp add: session_eval)
  have r: "reach session_init session_step s" by (rule session_reach_exec [OF s(1)])
  have "m_state s \<noteq> Running" using s(2) by simp
  from session_stop_final [OF r s(3) this exec_run_sound [OF next_session_sound s(4)], of "[7]"] r s
  show ?thesis by blast
qed

text \<open>The high-water mark is tested before a message is counted, so one message may exceed it.\<close>

fun message_bound :: "nat \<Rightarrow> session_event \<Rightarrow> bool" where
  "message_bound L (Write msg) = (length msg \<le> L)"
| "message_bound L _ = True"

definition marked :: "nat \<Rightarrow> nat \<Rightarrow> session \<Rightarrow> bool" where
  "marked M L s \<longleftrightarrow> data_inv s \<and> write_high_water_mark (m_options s) = M \<and> pending_bytes s < M + L"

lemma marked_step:
  assumes "marked M L s" and "session_step s e s'" and "message_bound L e" and "0 < M"
  shows "marked M L s'"
proof -
  have d: "data_inv s'" using assms data_inv_step by (auto simp: marked_def)
  show ?thesis
    using assms(2,1,3,4) d
  proof (induct rule: session_step.induct)
    case (start s s') then show ?case by (auto simp: marked_def session_defs pending_bytes_def split: if_splits)
  next case (writes msg s s') then show ?case by (auto simp: marked_def session_defs pending_bytes_def split: if_splits)
  next case (writer_swap s) then show ?case by (auto simp: marked_def session_defs pending_bytes_def data_inv_def)
  qed (auto simp: marked_def session_defs pending_bytes_def split: sum.splits)
qed

lemma marked_run:
  "run session_step s es s' \<Longrightarrow> marked M L s \<Longrightarrow> list_all (message_bound L) es \<Longrightarrow> 0 < M \<Longrightarrow> marked M L s'"
  by (induction rule: run.induct) (auto intro: marked_step)

text \<open>
  C33: Backpressure: with a high-water mark \<open>M\<close> and messages of at most \<open>L\<close> bytes, the pending bytes
  stay below \<open>M + L\<close> for the whole life of the session, whatever the network does; and with fewer than
  \<open>M\<close> pending bytes a running session accepts any message.
\<close>

theorem session_backpressure:
  assumes "new_session opts c d r = Inr s" and "write_high_water_mark opts = M" and "0 < M"
    and "run session_step s es s'" and "list_all (message_bound L) es"
  shows "pending_bytes s' < M + L \<and>
    (m_state s' = Running \<and> pending_bytes s' < M \<longleftrightarrow> snd (session_write msg s') = Inr ())"
proof -
  have "data_inv s" by (rule data_inv_init [OF session_init.intros [OF assms(1)]])
  then have "marked M L s"
    using assms(1-3) by (auto simp: marked_def new_session_def pending_bytes_def split: if_splits)
  then have "marked M L s'" by (rule marked_run [OF assms(4) _ assms(5,3)])
  then show ?thesis using assms(3) by (auto simp: marked_def session_write_def Let_def)
qed

lemma session_backpressure_witness:
  "\<exists>s s' es. new_session \<lparr>dont_read = False, timeout_msec = 0, write_high_water_mark = 2\<rparr> True True True = Inr s \<and>
     run session_step s es s' \<and> pending_bytes s' = 3 \<and> pending_bytes s' < 2 + 3 \<and>
     snd (session_write [9] s') \<noteq> Inr ()"
proof -
  let ?opts = "\<lparr>dont_read = False, timeout_msec = 0, write_high_water_mark = 2\<rparr>"
  let ?es = "session_up @ [Write [1, 2, 3]]"
  obtain s where s: "new_session ?opts True True True = Inr s" by (simp add: new_session_def)
  moreover obtain s' where s': "exec_run next_session ?es s = Some s'" "pending_bytes s' = 3"
    using s by (auto simp: session_eval)
  moreover have r: "run session_step s ?es s'" by (rule exec_run_sound [OF next_session_sound s'(1)])
  moreover have "list_all (message_bound 3) ?es" by (simp add: session_up_def)
  ultimately show ?thesis
    using session_backpressure [OF s _ _ r, of 2 3 "[9]"]
    by (intro exI [of _ s] exI [of _ s'] exI [of _ ?es] conjI) simp_all
qed

text \<open>
  A session that has been asked to stop is never stranded: some closing step of its own is possible
  until it is stopped.
\<close>

lemma session_stop_progress:
  assumes "reach session_init session_step s" and "m_state s \<in> {Stop_requested, Stopping}"
  shows "\<exists>e s'. session_step s e s' \<and>
    e \<in> {Stop_async_close, Writer_check, Writer_swap, Writer_error Ec_timed_out, Writer_catch,
         Writer_close, Close_impl, Close_returned (Inr ()), Close_store}"
proof -
  have l: "life_inv s" by (rule life_system.reach_inv [OF assms(1)])
  show ?thesis
  proof (cases "m_state s = Stopping")
    case True
    with l have "closing (closer s)" by (simp add: life_inv_def)
    then show ?thesis
      using close_impl [of s] close_returned [of s "Inr ()"] close_store [of s] by (cases "closer s") auto
  next
    case False
    with assms(2) l have "closes_due s > 0 \<or> rechecking s \<or> writer s \<noteq> W_idle" "writer s \<noteq> W_dead"
      by (auto simp: life_inv_def)
    then show ?thesis
      using stop_async_close [of s] writer_check [of s] writer_swap [of s] writer_error [of s]
        writer_catch [of s] writer_close [of s]
      by (cases "writer s") blast+
  qed
qed

section \<open>Where the code differs from what it means to do\<close>

text \<open>
  A message accepted between the writer's finding its queue empty and its second look at the state,
  followed by \<open>stop_async()\<close>, is dropped: \<open>stop_async\<close> leaves the closing to the writer that \<open>write\<close>
  has scheduled, but the old writer sees the new state and closes the socket first. No stop was
  forced and nothing failed; "queued writes are drained first" does not hold.
\<close>

lemma stop_async_drops_accepted_message:
  "\<exists>s. reach session_init session_step s \<and> m_state s = Stopped \<and> m_exception s = None \<and>
     disconnects s = [None] \<and> accepted s = [1, 2] \<and> wire s = [1]"
proof -
  let ?es = "session_up @ [Write [1], Writer_swap, Socket_takes 1, Writer_written, Writer_swap,
    Write [2], Stop_async, Writer_check, Close_impl, Close_returned (Inr ()), Close_store]"
  obtain s where s: "exec_run next_session ?es plain_session = Some s" "m_state s = Stopped"
    "m_exception s = None" "disconnects s = [None]" "accepted s = [1, 2]" "wire s = [1]"
    by (simp add: session_eval)
  have "reach session_init session_step s" by (rule session_reach_exec [OF s(1)])
  with s show ?thesis by blast
qed

text \<open>
  A stop forced while \<open>start()\<close> is still setting the socket up closes the session before the
  disconnection callback is owed; \<open>start()\<close> then goes on and calls the connection callback of a
  session that is stopped, and no disconnection is ever reported for it.
\<close>

lemma connection_without_disconnection:
  "\<exists>s. reach session_init session_step s \<and> starter s = S_connecting \<and> m_state s = Stopped \<and>
     closer s = C_done \<and> has_on_disconnected s \<and> disconnects s = []"
proof -
  let ?es = "[Start, Stop_async_force, Close_impl, Close_store, Set_up (Inr ())]"
  obtain s where s: "exec_run next_session ?es plain_session = Some s" "starter s = S_connecting"
    "m_state s = Stopped" "closer s = C_done" "has_on_disconnected s" "disconnects s = []"
    by (simp add: session_eval)
  have "reach session_init session_step s" by (rule session_reach_exec [OF s(1)])
  with s show ?thesis by blast
qed

end
