(* ===== verification/TcpServer.thy ===== *)
theory TcpServer
  imports Prelude
begin

text \<open>
  The TCP server: \<open>net/include/sg/net/tcp_server.h\<close> and \<open>net/src/tcp_server.cpp\<close>.

  The record \<open>server\<close> holds the members; \<open>server_step\<close> has a rule for every action of the listener
  coroutines (one per acceptor), of the stopping thread, of the sessions (as far as the server sees
  them, through the callbacks it gives them) and of the threads that call \<open>start\<close> and \<open>stop_async\<close>.
  \<open>start()\<close> is one step: it holds the start/stop mutex throughout and no listener can run before its
  last call; it is not called while the stopping thread of an earlier failed start is at work. The
  network and the user callbacks are arbitrary. \<open>created\<close>, \<open>disconnected\<close> and
  \<open>stopped_calls\<close> are ghosts: the sessions \<open>OnSessionCreated\<close> was due for, those whose disconnection
  has been reported, and the calls of \<open>OnStoppedListening\<close>.
\<close>

section \<open>Errors of accept\<close>

datatype accept_error =
    No_descriptors | Too_many_files_open_in_system | No_buffer_space | No_memory
  | No_stream_resources | Interrupted | Try_again | Would_block
  | Connection_aborted | Connection_reset | Timed_out
  | Network_down | Network_unreachable_error | Network_reset | Host_unreachable | No_protocol_option
  | Operation_not_supported | Protocol_error | In_progress | Ehostdown | Enonet
  | Operation_aborted | Bad_descriptor | Other_error nat

text \<open>\<open>posix\<close>: the two errors without a portable name are only matched there.\<close>

fun is_transient_accept_error :: "bool \<Rightarrow> accept_error \<Rightarrow> bool" where
  "is_transient_accept_error posix Ehostdown = posix"
| "is_transient_accept_error posix Enonet = posix"
| "is_transient_accept_error posix Operation_aborted = False"
| "is_transient_accept_error posix Bad_descriptor = False"
| "is_transient_accept_error posix (Other_error _) = False"
| "is_transient_accept_error posix _ = True"

definition accept_retry_min :: nat where "accept_retry_min = 1"
definition accept_retry_max :: nat where "accept_retry_max = 500"

text \<open>Whether a failure is reported, and the next delay.\<close>

definition reports_failure :: "nat \<Rightarrow> bool" where
  "reports_failure backoff \<longleftrightarrow> backoff = accept_retry_min \<or> backoff \<ge> accept_retry_max"

definition next_backoff :: "nat \<Rightarrow> nat" where
  "next_backoff backoff = min (backoff * 2) accept_retry_max"

section \<open>State\<close>

text \<open>Where a listener is; the number is its current backoff.\<close>

datatype listener_pc =
    L_check nat
  | L_accepting nat
  | L_backing_off nat
  | L_filtering nat
  | L_setup nat nat
  | L_connecting nat nat
  | L_created nat nat
  | L_leaving
  | L_done

text \<open>
  A session as the server sees it: its id taken by listener \<open>i\<close>, counted, registered, its
  disconnection being reported, erased from the map, released from the count.
\<close>

datatype sess_pc =
    Absent | Reserved nat | Counted nat | Live | Reporting | Reported | Erased | Released | Unused

datatype stop_pc = No_stop | Closing | Wait_listeners | Disconnecting | Wait_sessions | Stop_context
  | Clear_running | Stop_done

datatype context_t = No_context | Context_running | Context_stopped

record server =
  m_running :: bool
  m_sessions :: "nat set"
  m_active_sessions :: nat
  m_last_id :: nat
  m_local_endpoints :: "nat list"
  m_context :: context_t
  acceptors_open :: "bool list"
  closes_posted :: "bool list"
  m_acceptors_running_count :: nat
  m_last_error :: "accept_error option"
  m_stop_in_operation :: bool
  listeners :: "listener_pc list"
  sess :: "nat \<Rightarrow> sess_pc"
  stopper :: stop_pc
  has_should_accept :: bool
  accept_reports :: "accept_error list"
  created :: "nat list"
  disconnected :: "nat list"
  stopped_calls :: "accept_error option list"

definition new_server :: "bool \<Rightarrow> server" where
  "new_server filtering =
     \<lparr>m_running = False, m_sessions = {}, m_active_sessions = 0, m_last_id = 0, m_local_endpoints = [],
      m_context = No_context, acceptors_open = [], closes_posted = [], m_acceptors_running_count = 0,
      m_last_error = None, m_stop_in_operation = True, listeners = [], sess = (\<lambda>_. Absent),
      stopper = No_stop, has_should_accept = filtering, accept_reports = [], created = [],
      disconnected = [], stopped_calls = []\<rparr>"

section \<open>Starting and stopping\<close>

text \<open>
  Binding the endpoints one after the other: each either yields the local port or throws, which
  leaves the acceptors published so far.
\<close>

fun bind_acceptors :: "(nat res) list \<Rightarrow> nat list \<Rightarrow> nat list \<times> unit res" where
  "bind_acceptors [] bound = (bound, Inr ())"
| "bind_acceptors (r # rs) bound =
     (case r of Inl e \<Rightarrow> (bound, Inl e) | Inr port \<Rightarrow> bind_acceptors rs (bound @ [port]))"

text \<open>
  A stopping thread that has finished counts as none.
  \<open>binds\<close>, \<open>started_cb\<close> and \<open>run_res\<close> are the outcomes of the calls that may throw: opening and binding
  each endpoint, the \<open>OnStartedListening\<close> callback and \<open>m_context->run()\<close>.
\<close>

definition server_start :: "(nat res) list \<Rightarrow> unit res \<Rightarrow> unit res \<Rightarrow> server \<Rightarrow> server \<times> unit res" where
  "server_start binds started_cb run_res s =
     (if binds = [] then (s, Inl Invalid_argument)
      else if m_running s then (s, Inl Runtime_error)
      else
        let s = s\<lparr>m_running := True, m_stop_in_operation := False, m_last_id := 0, m_last_error := None,
                  m_local_endpoints := [], m_context := Context_stopped,
                  stopper := (if stopper s = Stop_done then No_stop else stopper s),
                  sess := (\<lambda>_. Absent), created := [], disconnected := [], stopped_calls := [],
                  accept_reports := []\<rparr>;
            (bound, r) = bind_acceptors binds [];
            n = length bound;
            failed = (\<lambda>s. s\<lparr>acceptors_open := [], closes_posted := [], listeners := [],
                         m_context := No_context, m_acceptors_running_count := 0, m_running := False\<rparr>)
        in case r of Inl e \<Rightarrow> (failed s, Inl e)
         | Inr _ \<Rightarrow>
            let s = s\<lparr>m_local_endpoints := bound, acceptors_open := replicate n True,
                      closes_posted := replicate n False,
                      listeners := replicate n (L_check accept_retry_min),
                      m_acceptors_running_count := n\<rparr>
            in case started_cb of Inl e \<Rightarrow> (failed s, Inl e)
             | Inr _ \<Rightarrow> (case run_res of Inl e \<Rightarrow> (failed s, Inl e)
                 | Inr _ \<Rightarrow> (s\<lparr>m_context := Context_running\<rparr>, Inr ())))"

text \<open>The first call starts the stopping thread.\<close>

definition server_stop_async :: "server \<Rightarrow> server" where
  "server_stop_async s =
     (if m_stop_in_operation s then s else s\<lparr>m_stop_in_operation := True, stopper := Closing\<rparr>)"

text \<open>The stopping thread. Without a running context the acceptors are closed directly.\<close>

definition stop_close :: "server \<Rightarrow> server" where
  "stop_close s =
     (if m_context s = Context_running
      then s\<lparr>closes_posted := map (\<lambda>_. True) (closes_posted s), stopper := Wait_listeners\<rparr>
      else s\<lparr>acceptors_open := map (\<lambda>_. False) (acceptors_open s), stopper := Wait_listeners\<rparr>)"

definition stop_waited :: "server \<Rightarrow> server" where
  "stop_waited s =
     (if m_context s = Context_running then s\<lparr>stopper := Disconnecting\<rparr>
      else s\<lparr>m_acceptors_running_count := 0, stopper := Disconnecting\<rparr>)"

definition stop_disconnect_all :: "server \<Rightarrow> server" where
  "stop_disconnect_all s = s\<lparr>stopper := Wait_sessions\<rparr>"

definition stop_sessions_gone :: "server \<Rightarrow> server" where
  "stop_sessions_gone s = s\<lparr>stopper := Stop_context\<rparr>"

text \<open>Stopping the pool calls \<open>on_io_pool_stopped\<close>, and so \<open>OnStoppedListening\<close>, before it returns.\<close>

definition stop_context :: "server \<Rightarrow> server" where
  "stop_context s =
     (if m_context s = Context_running
      then s\<lparr>m_context := Context_stopped, stopped_calls := stopped_calls s @ [m_last_error s],
             stopper := Clear_running\<rparr>
      else s\<lparr>stopper := Clear_running\<rparr>)"

definition stop_clear_running :: "server \<Rightarrow> server" where
  "stop_clear_running s = s\<lparr>m_running := False, stopper := Stop_done\<rparr>"

section \<open>Listeners\<close>

definition goto :: "nat \<Rightarrow> listener_pc \<Rightarrow> server \<Rightarrow> server" where
  "goto i p s = s\<lparr>listeners := (listeners s)[i := p]\<rparr>"

definition record_error :: "accept_error \<Rightarrow> server \<Rightarrow> server" where
  "record_error e s = (if m_last_error s = None then s\<lparr>m_last_error := Some e\<rparr> else s)"

text \<open>The close posted to the acceptor's strand.\<close>

definition acceptor_close :: "nat \<Rightarrow> server \<Rightarrow> server" where
  "acceptor_close i s = s\<lparr>acceptors_open := (acceptors_open s)[i := False]\<rparr>"

definition listener_check :: "nat \<Rightarrow> nat \<Rightarrow> server \<Rightarrow> server" where
  "listener_check i backoff s =
     (if m_stop_in_operation s then goto i L_leaving s else goto i (L_accepting backoff) s)"

definition listener_failed :: "bool \<Rightarrow> nat \<Rightarrow> nat \<Rightarrow> accept_error \<Rightarrow> server \<Rightarrow> server" where
  "listener_failed posix i backoff ec s =
     (if \<not> is_transient_accept_error posix ec then
        let s = (if ec \<noteq> Operation_aborted then record_error ec s else s)
        in goto i L_leaving (server_stop_async s)
      else if m_stop_in_operation s then goto i (L_check backoff) s
      else
        let s = (if reports_failure backoff then s\<lparr>accept_reports := accept_reports s @ [ec]\<rparr> else s)
        in goto i (L_backing_off backoff) s)"

definition listener_waited :: "nat \<Rightarrow> nat \<Rightarrow> server \<Rightarrow> server" where
  "listener_waited i backoff s = goto i (L_check (next_backoff backoff)) s"

text \<open>Taking an id for an accepted connection.\<close>

definition listener_take_id :: "nat \<Rightarrow> server \<Rightarrow> server" where
  "listener_take_id i s =
     (let sid = m_last_id s
      in goto i (L_setup accept_retry_min sid)
           (s\<lparr>m_last_id := sid + 1, sess := (sess s)(sid := Reserved i)\<rparr>))"

definition listener_accepted :: "nat \<Rightarrow> server \<Rightarrow> server" where
  "listener_accepted i s =
     (if m_stop_in_operation s then goto i (L_check accept_retry_min) s
      else if has_should_accept s then goto i (L_filtering accept_retry_min) s
      else listener_take_id i s)"

text \<open>The filter returned, or it (or \<open>remote_endpoint\<close>) threw.\<close>

definition listener_filtered :: "nat \<Rightarrow> bool res \<Rightarrow> server \<Rightarrow> server" where
  "listener_filtered i r s =
     (case r of Inr True \<Rightarrow> listener_take_id i s | _ \<Rightarrow> goto i (L_check accept_retry_min) s)"

text \<open>
  \<open>tcp_session::create\<close> and \<open>start\<close> up to \<open>onConnected\<close>, which counts the session, registers it and
  calls \<open>OnSessionCreated\<close>.
\<close>

definition listener_set_up :: "nat \<Rightarrow> nat \<Rightarrow> nat \<Rightarrow> unit res \<Rightarrow> server \<Rightarrow> server" where
  "listener_set_up i backoff sid r s =
     (case r of Inl _ \<Rightarrow> goto i (L_check backoff) (s\<lparr>sess := (sess s)(sid := Unused)\<rparr>)
      | Inr _ \<Rightarrow> goto i (L_connecting backoff sid)
          (s\<lparr>m_active_sessions := m_active_sessions s + 1, sess := (sess s)(sid := Counted i)\<rparr>))"

definition listener_register :: "nat \<Rightarrow> nat \<Rightarrow> nat \<Rightarrow> server \<Rightarrow> server" where
  "listener_register i backoff sid s =
     goto i (L_created backoff sid)
       (s\<lparr>m_sessions := insert sid (m_sessions s), sess := (sess s)(sid := Live),
          created := created s @ [sid]\<rparr>)"

definition listener_created :: "nat \<Rightarrow> nat \<Rightarrow> server \<Rightarrow> server" where
  "listener_created i backoff s = goto i (L_check backoff) s"

definition listener_leave :: "nat \<Rightarrow> server \<Rightarrow> server" where
  "listener_leave i s =
     goto i L_done (s\<lparr>m_acceptors_running_count := m_acceptors_running_count s - 1\<rparr>)"

section \<open>Sessions\<close>

text \<open>\<open>on_session_stopped\<close>: the user's callback, then the map, then the count.\<close>

definition session_report :: "nat \<Rightarrow> server \<Rightarrow> server" where
  "session_report sid s =
     s\<lparr>disconnected := disconnected s @ [sid], sess := (sess s)(sid := Reporting)\<rparr>"

definition session_reported :: "nat \<Rightarrow> server \<Rightarrow> server" where
  "session_reported sid s = s\<lparr>sess := (sess s)(sid := Reported)\<rparr>"

definition session_erase :: "nat \<Rightarrow> server \<Rightarrow> server" where
  "session_erase sid s = s\<lparr>m_sessions := m_sessions s - {sid}, sess := (sess s)(sid := Erased)\<rparr>"

definition session_release :: "nat \<Rightarrow> server \<Rightarrow> server" where
  "session_release sid s =
     s\<lparr>m_active_sessions := m_active_sessions s - 1, sess := (sess s)(sid := Released)\<rparr>"

section \<open>Steps\<close>

datatype server_event =
    Start "(nat res) list"
  | Start_failed
  | Stop_async
  | Stop_close
  | Stop_waited
  | Stop_disconnect_all
  | Stop_sessions_gone
  | Stop_context_done
  | Stop_clear_running
  | Acceptor_close nat
  | L_checks nat
  | L_fails nat accept_error
  | L_waits nat
  | L_accepts nat
  | L_filters nat "bool res"
  | L_sets_up nat "unit res"
  | L_registers nat
  | L_created_returns nat
  | L_leaves nat
  | Session_report nat
  | Session_reported nat
  | Session_erase nat
  | Session_release nat

inductive server_step :: "bool \<Rightarrow> server \<Rightarrow> server_event \<Rightarrow> server \<Rightarrow> bool" for posix :: bool where
  server_starts: "server_start binds cb run_res s = (s', Inr ()) \<Longrightarrow>
    stopper s \<in> {No_stop, Stop_done} \<Longrightarrow> server_step posix s (Start binds) s'"
| server_start_fails: "server_start binds cb run_res s = (s', Inl e) \<Longrightarrow>
    stopper s \<in> {No_stop, Stop_done} \<Longrightarrow> server_step posix s Start_failed s'"
| stop_asyncs: "server_step posix s Stop_async (server_stop_async s)"
| stop_closes: "stopper s = Closing \<Longrightarrow> server_step posix s Stop_close (stop_close s)"
| stop_waits: "stopper s = Wait_listeners \<Longrightarrow>
    m_context s = Context_running \<longrightarrow> m_acceptors_running_count s = 0 \<Longrightarrow>
    server_step posix s Stop_waited (stop_waited s)"
| stop_disconnects: "stopper s = Disconnecting \<Longrightarrow>
    server_step posix s Stop_disconnect_all (stop_disconnect_all s)"
| stop_sessions: "stopper s = Wait_sessions \<Longrightarrow> m_active_sessions s = 0 \<Longrightarrow>
    server_step posix s Stop_sessions_gone (stop_sessions_gone s)"
| stop_contexts: "stopper s = Stop_context \<Longrightarrow> server_step posix s Stop_context_done (stop_context s)"
| stop_clears: "stopper s = Clear_running \<Longrightarrow>
    server_step posix s Stop_clear_running (stop_clear_running s)"
| acceptor_closes: "i < length (closes_posted s) \<Longrightarrow> closes_posted s ! i \<Longrightarrow>
    server_step posix s (Acceptor_close i) (acceptor_close i s)"
| l_checks: "i < length (listeners s) \<Longrightarrow> listeners s ! i = L_check b \<Longrightarrow>
    server_step posix s (L_checks i) (listener_check i b s)"
| l_fails: "i < length (listeners s) \<Longrightarrow> listeners s ! i = L_accepting b \<Longrightarrow>
    server_step posix s (L_fails i ec) (listener_failed posix i b ec s)"
| l_waits: "i < length (listeners s) \<Longrightarrow> listeners s ! i = L_backing_off b \<Longrightarrow>
    server_step posix s (L_waits i) (listener_waited i b s)"
| l_accepts: "i < length (listeners s) \<Longrightarrow> listeners s ! i = L_accepting b \<Longrightarrow>
    server_step posix s (L_accepts i) (listener_accepted i s)"
| l_filters: "i < length (listeners s) \<Longrightarrow> listeners s ! i = L_filtering b \<Longrightarrow>
    server_step posix s (L_filters i r) (listener_filtered i r s)"
| l_sets_up: "i < length (listeners s) \<Longrightarrow> listeners s ! i = L_setup b sid \<Longrightarrow>
    server_step posix s (L_sets_up i r) (listener_set_up i b sid r s)"
| l_registers: "i < length (listeners s) \<Longrightarrow> listeners s ! i = L_connecting b sid \<Longrightarrow>
    server_step posix s (L_registers i) (listener_register i b sid s)"
| l_created_returns: "i < length (listeners s) \<Longrightarrow> listeners s ! i = L_created b sid \<Longrightarrow>
    server_step posix s (L_created_returns i) (listener_created i b s)"
| l_leaves: "i < length (listeners s) \<Longrightarrow> listeners s ! i = L_leaving \<Longrightarrow>
    server_step posix s (L_leaves i) (listener_leave i s)"
| session_reports: "sess s sid = Live \<Longrightarrow> server_step posix s (Session_report sid) (session_report sid s)"
| session_reporteds: "sess s sid = Reporting \<Longrightarrow>
    server_step posix s (Session_reported sid) (session_reported sid s)"
| session_erases: "sess s sid = Reported \<Longrightarrow> server_step posix s (Session_erase sid) (session_erase sid s)"
| session_releases: "sess s sid = Erased \<Longrightarrow> server_step posix s (Session_release sid) (session_release sid s)"

inductive server_init :: "server \<Rightarrow> bool" where
  "server_init (new_server filtering)"

section \<open>Invariants\<close>

named_theorems server_defs
declare server_stop_async_def [server_defs] stop_close_def [server_defs] stop_waited_def [server_defs]
  stop_disconnect_all_def [server_defs] stop_sessions_gone_def [server_defs]
  stop_context_def [server_defs] stop_clear_running_def [server_defs] goto_def [server_defs]
  record_error_def [server_defs] acceptor_close_def [server_defs] listener_check_def [server_defs]
  listener_failed_def [server_defs] listener_waited_def [server_defs]
  listener_take_id_def [server_defs] listener_accepted_def [server_defs]
  listener_filtered_def [server_defs] listener_set_up_def [server_defs]
  listener_register_def [server_defs] listener_created_def [server_defs]
  listener_leave_def [server_defs] session_report_def [server_defs]
  session_reported_def [server_defs] session_erase_def [server_defs]
  session_release_def [server_defs] Let_def [server_defs]

fun counted :: "sess_pc \<Rightarrow> bool" where
  "counted (Counted _) = True"
| "counted Live = True"
| "counted Reporting = True"
| "counted Reported = True"
| "counted Erased = True"
| "counted _ = False"

fun registered :: "sess_pc \<Rightarrow> bool" where
  "registered Live = True"
| "registered Reporting = True"
| "registered Reported = True"
| "registered _ = False"

fun was_created :: "sess_pc \<Rightarrow> bool" where
  "was_created Live = True"
| "was_created Reporting = True"
| "was_created Reported = True"
| "was_created Erased = True"
| "was_created Released = True"
| "was_created _ = False"

text \<open>A listener that handles a connection owns the state of that connection.\<close>

fun owns :: "listener_pc \<Rightarrow> nat \<Rightarrow> (nat \<Rightarrow> sess_pc) \<Rightarrow> bool" where
  "owns (L_setup b sid) i ss = (ss sid = Reserved i)"
| "owns (L_connecting b sid) i ss = (ss sid = Counted i)"
| "owns _ i ss = True"

text \<open>Ids, the count of active sessions, the map of sessions, and what has been reported.\<close>

definition sess_inv :: "server \<Rightarrow> bool" where
  "sess_inv s \<longleftrightarrow>
     (\<forall>sid \<ge> m_last_id s. sess s sid = Absent) \<and>
     m_active_sessions s = card {sid. counted (sess s sid)} \<and>
     m_sessions s = {sid. registered (sess s sid)} \<and>
     (\<forall>i < length (listeners s). owns (listeners s ! i) i (sess s)) \<and>
     distinct (created s) \<and> set (created s) = {sid. was_created (sess s sid)} \<and>
     distinct (disconnected s) \<and>
     set (disconnected s) = {sid. was_created (sess s sid) \<and> sess s sid \<noteq> Live}"

lemma finite_sess:
  fixes n :: nat
  assumes "\<forall>sid \<ge> n. ss sid = Absent" and "\<not> P Absent"
  shows "finite {sid. P (ss sid)}"
proof (rule finite_subset [of _ "{..<n}"])
  show "{sid. P (ss sid)} \<subseteq> {..<n}"
    using assms by (auto simp: not_less [symmetric] intro: ccontr)
qed simp

text \<open>Changing one session's state moves it in or out of a set.\<close>

lemma sess_set_update:
  "{x. P ((ss(sid := q)) x)} = (if P q then insert sid {x. P (ss x)} else {x. P (ss x)} - {sid})"
  by auto

lemma owns_update:
  assumes "owns p i ss" and "ss sid \<noteq> Reserved i" and "ss sid \<noteq> Counted i"
  shows "owns p i (ss(sid := q))"
  using assms by (cases p) auto

text \<open>Steps that leave the sessions alone.\<close>

lemma sess_inv_frame:
  assumes "sess_inv s" and "sess s' = sess s" and "m_last_id s' = m_last_id s"
    and "m_active_sessions s' = m_active_sessions s" and "m_sessions s' = m_sessions s"
    and "created s' = created s" and "disconnected s' = disconnected s"
    and "\<And>i. i < length (listeners s') \<Longrightarrow>
           i < length (listeners s) \<and> listeners s' ! i = listeners s ! i \<or> owns (listeners s' ! i) i (sess s)"
  shows "sess_inv s'"
  using assms unfolding sess_inv_def by metis

lemma sess_inv_goto:
  assumes "sess_inv s" and "owns p i (sess s)"
  shows "sess_inv (goto i p s)"
proof (rule sess_inv_frame [OF assms(1)])
  fix j assume "j < length (listeners (goto i p s))"
  with assms(2) show "j < length (listeners s) \<and> listeners (goto i p s) ! j = listeners s ! j \<or>
      owns (listeners (goto i p s) ! j) j (sess s)"
    by (cases "j = i") (simp_all add: goto_def)
qed (simp_all add: goto_def)

lemma sess_inv_frames [simp]:
  "sess_inv (s\<lparr>m_stop_in_operation := b\<rparr>) = sess_inv s" "sess_inv (s\<lparr>stopper := st\<rparr>) = sess_inv s"
  "sess_inv (s\<lparr>m_last_error := e\<rparr>) = sess_inv s" "sess_inv (s\<lparr>accept_reports := r\<rparr>) = sess_inv s"
  "sess_inv (s\<lparr>acceptors_open := ao\<rparr>) = sess_inv s" "sess_inv (s\<lparr>closes_posted := cp\<rparr>) = sess_inv s"
  "sess_inv (s\<lparr>m_acceptors_running_count := n\<rparr>) = sess_inv s" "sess_inv (s\<lparr>m_context := c\<rparr>) = sess_inv s"
  "sess_inv (s\<lparr>stopped_calls := sc\<rparr>) = sess_inv s" "sess_inv (s\<lparr>m_running := b\<rparr>) = sess_inv s"
  by (simp_all add: sess_inv_def)

lemma owns_simple [simp]:
  "owns (L_check b) i ss" "owns (L_accepting b) i ss" "owns (L_backing_off b) i ss"
  "owns (L_filtering b) i ss" "owns (L_created b sid) i ss" "owns L_leaving i ss" "owns L_done i ss"
  by simp_all

text \<open>Steps that move one session on.\<close>

lemma sess_inv_move:
  assumes inv: "sess_inv s"
    and sess: "sess s' = (sess s)(sid := q)"
    and lid: "sid < m_last_id s'" "m_last_id s \<le> m_last_id s'"
    and own: "\<And>j. sess s sid \<noteq> Reserved j \<and> sess s sid \<noteq> Counted j \<or> j = i"
    and lis: "listeners s' = listeners s \<and> (\<forall>j. sess s sid \<noteq> Reserved j \<and> sess s sid \<noteq> Counted j) \<or>
      listeners s' = (listeners s)[i := p] \<and> owns p i (sess s')"
    and act: "m_active_sessions s' + (if counted (sess s sid) then 1 else 0) =
      m_active_sessions s + (if counted q then 1 else 0)"
    and map: "m_sessions s' = (if registered q then insert sid (m_sessions s) else m_sessions s - {sid})"
    and cre: "was_created (sess s sid) \<and> was_created q \<and> created s' = created s \<or>
      \<not> was_created (sess s sid) \<and> (if was_created q then created s' = created s @ [sid] else created s' = created s)"
    and dis: "(was_created q \<and> q \<noteq> Live) = (was_created (sess s sid) \<and> sess s sid \<noteq> Live) \<and> disconnected s' = disconnected s \<or>
      sess s sid = Live \<and> was_created q \<and> q \<noteq> Live \<and> disconnected s' = disconnected s @ [sid]"
  shows "sess_inv s'"
proof -
  have fin: "finite {x. counted (sess s x)}"
    by (rule finite_sess [of "m_last_id s"]) (use inv in \<open>simp_all add: sess_inv_def\<close>)
  have card: "m_active_sessions s = card {x. counted (sess s x)}" using inv by (simp add: sess_inv_def)
  have "m_active_sessions s' = card {x. counted (sess s' x)}"
  proof (cases "counted (sess s sid)")
    case True
    then have "card {x. counted (sess s x)} > 0" using fin by (auto simp: card_gt_0_iff)
    with True show ?thesis
      using act fin unfolding sess sess_set_update card by (simp add: insert_absorb card_Diff_singleton_if split: if_splits)
  next
    case False
    then show ?thesis
      using act fin unfolding sess sess_set_update card by (simp add: card_Diff_singleton_if split: if_splits)
  qed
  moreover have "\<forall>x \<ge> m_last_id s'. sess s' x = Absent"
    using inv lid by (simp add: sess_inv_def sess)
  moreover have "m_sessions s' = {x. registered (sess s' x)}"
    unfolding sess sess_set_update map using inv by (simp add: sess_inv_def)
  moreover have "owns (listeners s' ! j) j (sess s')" if j: "j < length (listeners s')" for j
  proof -
    have keep: "owns (listeners s ! j) j (sess s')" if "sess s sid \<noteq> Reserved j" "sess s sid \<noteq> Counted j"
      unfolding sess using inv j lis that by (intro owns_update) (auto simp: sess_inv_def)
    show ?thesis using lis
    proof (elim disjE conjE)
      assume "listeners s' = listeners s" and "\<forall>j. sess s sid \<noteq> Reserved j \<and> sess s sid \<noteq> Counted j"
      then show ?thesis using keep by simp
    next
      assume l: "listeners s' = (listeners s)[i := p]" and p: "owns p i (sess s')"
      show ?thesis
      proof (cases "j = i")
        case True
        with l p j show ?thesis by simp
      next
        case False
        with own [of j] keep l show ?thesis by simp
      qed
    qed
  qed
  moreover have "distinct (created s') \<and> set (created s') = {x. was_created (sess s' x)}"
    unfolding sess sess_set_update using cre inv by (auto simp: sess_inv_def insert_absorb split: if_splits)
  moreover have "distinct (disconnected s') \<and> set (disconnected s') = {x. was_created (sess s' x) \<and> sess s' x \<noteq> Live}"
    unfolding sess using sess_set_update [of "\<lambda>p. was_created p \<and> p \<noteq> Live" "sess s" sid q] dis inv
    by (auto simp: sess_inv_def insert_absorb split: if_splits)
  ultimately show ?thesis by (simp add: sess_inv_def)
qed

text \<open>The whole server: the counters, and how far the stopping thread is.\<close>

fun past_listeners :: "stop_pc \<Rightarrow> bool" where
  "past_listeners No_stop = False"
| "past_listeners Closing = False"
| "past_listeners Wait_listeners = False"
| "past_listeners _ = True"

fun past_sessions :: "stop_pc \<Rightarrow> bool" where
  "past_sessions Stop_context = True"
| "past_sessions Clear_running = True"
| "past_sessions Stop_done = True"
| "past_sessions _ = False"

fun past_context :: "stop_pc \<Rightarrow> bool" where
  "past_context Clear_running = True"
| "past_context Stop_done = True"
| "past_context _ = False"

definition all_done :: "listener_pc list \<Rightarrow> bool" where
  "all_done ls \<longleftrightarrow> (\<forall>p \<in> set ls. p = L_done)"

definition busy :: "listener_pc list \<Rightarrow> nat" where
  "busy ls = length (filter (\<lambda>p. p \<noteq> L_done) ls)"

definition server_inv :: "server \<Rightarrow> bool" where
  "server_inv s \<longleftrightarrow> sess_inv s \<and>
     m_acceptors_running_count s = busy (listeners s) \<and>
     (m_context s \<noteq> Context_running \<and> \<not> past_context (stopper s) \<longrightarrow> listeners s = []) \<and>
     (past_listeners (stopper s) \<or> \<not> m_running s \<longrightarrow> all_done (listeners s)) \<and>
     (past_sessions (stopper s) \<or> \<not> m_running s \<longrightarrow> m_active_sessions s = 0) \<and>
     (m_context s = Context_running \<longrightarrow> m_running s \<and> \<not> past_context (stopper s) \<and> listeners s \<noteq> []) \<and>
     (stopper s = Stop_done \<longrightarrow> \<not> m_running s) \<and>
     (\<not> m_stop_in_operation s \<longrightarrow> stopper s = No_stop) \<and>
     stopped_calls s = (if past_context (stopper s) \<and> listeners s \<noteq> [] then [m_last_error s] else [])"

lemma past_order: "past_context st \<Longrightarrow> past_sessions st" "past_sessions st \<Longrightarrow> past_listeners st"
  by (cases st; simp)+

lemma busy_update:
  "i < length ls \<Longrightarrow> ls ! i \<noteq> L_done \<Longrightarrow> busy (ls[i := p]) = (if p = L_done then busy ls - 1 else busy ls)"
proof (induction ls arbitrary: i)
  case (Cons q ls)
  have "busy ls > 0" if "j < length ls" "ls ! j \<noteq> L_done" for j
    using that by (auto simp: busy_def filter_empty_conv dest: nth_mem)
  with Cons show ?case by (cases i) (auto simp: busy_def)
qed simp

lemma all_done_nth: "all_done ls \<Longrightarrow> i < length ls \<Longrightarrow> ls ! i = L_done"
  by (auto simp: all_done_def)

lemma all_done_Nil [simp]: "all_done []"
  by (simp add: all_done_def)

lemma busy_0: "busy ls = 0 \<longleftrightarrow> all_done ls"
  by (auto simp: busy_def all_done_def filter_empty_conv)

text \<open>What a step of one listener changes.\<close>

lemma server_inv_listener:
  assumes inv: "server_inv s" and i: "i < length (listeners s)" "listeners s ! i \<noteq> L_done"
    and sess: "sess_inv s'"
    and l: "listeners s' = (listeners s)[i := p]"
    and cnt: "m_acceptors_running_count s' =
      (if p = L_done then m_acceptors_running_count s - 1 else m_acceptors_running_count s)"
    and ctx: "m_context s' = m_context s" and run: "m_running s' = m_running s"
    and stp: "stopper s' = stopper s \<and> m_stop_in_operation s' = m_stop_in_operation s \<or>
      stopper s' = Closing \<and> m_stop_in_operation s'"
    and calls: "stopped_calls s' = stopped_calls s"
  shows "server_inv s'"
proof -
  have nd: "\<not> all_done (listeners s)" using i all_done_nth by blast
  then have p: "\<not> past_listeners (stopper s)" "m_running s" "\<not> past_context (stopper s)"
    using inv past_order [of "stopper s"] by (auto simp: server_inv_def)
  then have c: "m_context s = Context_running" using inv i by (auto simp: server_inv_def)
  have q: "\<not> past_listeners (stopper s')" "\<not> past_sessions (stopper s')" "\<not> past_context (stopper s')"
    "stopper s' \<noteq> Stop_done"
    using p stp by (cases "stopper s"; auto)+
  show ?thesis
    using inv sess cnt p c q stp unfolding server_inv_def l ctx run calls busy_update [OF i] by auto
qed

lemma sess_inv_l_take_id:
  assumes "sess_inv s"
  shows "sess_inv (listener_take_id i s)"
  by (rule sess_inv_move [OF assms, of _ "m_last_id s" "Reserved i" i "L_setup accept_retry_min (m_last_id s)"])
    (use assms in \<open>auto simp: listener_take_id_def goto_def sess_inv_def Let_def\<close>)

lemma sess_inv_at:
  assumes "sess_inv s" and "i < length (listeners s)"
  shows "owns (listeners s ! i) i (sess s)"
  using assms by (simp add: sess_inv_def)

lemma sess_inv_below:
  assumes "sess_inv s" and "sess s sid \<noteq> Absent"
  shows "sid < m_last_id s"
  using assms by (auto simp: sess_inv_def not_less [symmetric])

lemma sess_inv_positive:
  assumes "sess_inv s" and "counted (sess s sid)"
  shows "m_active_sessions s > 0"
proof -
  have "finite {x. counted (sess s x)}"
    by (rule finite_sess [of "m_last_id s"]) (use assms in \<open>simp_all add: sess_inv_def\<close>)
  then have "card {x. counted (sess s x)} > 0" using assms(2) by (auto simp: card_gt_0_iff)
  then show ?thesis using assms(1) by (simp add: sess_inv_def)
qed

lemma sess_inv_l_set_up:
  assumes "sess_inv s" and "i < length (listeners s)" and "listeners s ! i = L_setup b sid"
  shows "sess_inv (listener_set_up i b sid r s)"
proof -
  have own: "sess s sid = Reserved i" using sess_inv_at [OF assms(1,2)] assms(3) by simp
  note lid = sess_inv_below [OF assms(1), of sid]
  show ?thesis
  proof (cases r)
    case Inl
    show ?thesis
      by (rule sess_inv_move [OF assms(1), of _ sid Unused i "L_check b"])
        (use own lid Inl assms(1) in \<open>auto simp: listener_set_up_def goto_def sess_inv_def\<close>)
  next
    case Inr
    show ?thesis
      by (rule sess_inv_move [OF assms(1), of _ sid "Counted i" i "L_connecting b sid"])
        (use own lid Inr assms(1) in \<open>auto simp: listener_set_up_def goto_def sess_inv_def\<close>)
  qed
qed

lemma sess_inv_l_register:
  assumes "sess_inv s" and "i < length (listeners s)" and "listeners s ! i = L_connecting b sid"
  shows "sess_inv (listener_register i b sid s)"
proof -
  have own: "sess s sid = Counted i" using sess_inv_at [OF assms(1,2)] assms(3) by simp
  then show ?thesis
    by (intro sess_inv_move [OF assms(1), of _ sid Live i "L_created b sid"])
      (use sess_inv_below [OF assms(1), of sid] in \<open>auto simp: listener_register_def goto_def\<close>)
qed

lemma sess_inv_sessions:
  assumes "sess_inv s"
  shows "sess s sid = Live \<Longrightarrow> sess_inv (session_report sid s)"
    "sess s sid = Reporting \<Longrightarrow> sess_inv (session_reported sid s)"
    "sess s sid = Reported \<Longrightarrow> sess_inv (session_erase sid s)"
    "sess s sid = Erased \<Longrightarrow> sess_inv (session_release sid s)"
proof -
  note b = sess_inv_below [OF assms, of sid] and pos = sess_inv_positive [OF assms, of sid]
  have map: "registered (sess s sid) \<Longrightarrow> insert sid (m_sessions s) = m_sessions s"
    "\<not> registered (sess s sid) \<Longrightarrow> m_sessions s - {sid} = m_sessions s"
    using assms by (auto simp: sess_inv_def)
  show "sess s sid = Live \<Longrightarrow> sess_inv (session_report sid s)"
    by (rule sess_inv_move [OF assms, of _ sid Reporting]) (use b map in \<open>auto simp: session_report_def\<close>)
  show "sess s sid = Reporting \<Longrightarrow> sess_inv (session_reported sid s)"
    by (rule sess_inv_move [OF assms, of _ sid Reported]) (use b map in \<open>auto simp: session_reported_def\<close>)
  show "sess s sid = Reported \<Longrightarrow> sess_inv (session_erase sid s)"
    by (rule sess_inv_move [OF assms, of _ sid Erased]) (use b in \<open>auto simp: session_erase_def\<close>)
  show "sess s sid = Erased \<Longrightarrow> sess_inv (session_release sid s)"
    by (rule sess_inv_move [OF assms, of _ sid Released]) (use b map pos in \<open>auto simp: session_release_def\<close>)
qed

lemma sess_inv_l_failed: "sess_inv s \<Longrightarrow> sess_inv (listener_failed posix i b ec s)"
  by (auto simp: listener_failed_def server_stop_async_def record_error_def Let_def intro!: sess_inv_goto)

lemma sess_inv_l_accepted: "sess_inv s \<Longrightarrow> sess_inv (listener_accepted i s)"
  by (auto simp: listener_accepted_def intro: sess_inv_goto sess_inv_l_take_id)

lemma sess_inv_l_filtered: "sess_inv s \<Longrightarrow> sess_inv (listener_filtered i r s)"
  by (auto simp: listener_filtered_def split: sum.split bool.split intro: sess_inv_goto sess_inv_l_take_id)

lemma registered_counted: "registered p \<Longrightarrow> counted p"
  by (cases p) simp_all

lemma bind_acceptors_length:
  "bind_acceptors binds acc = (bound, r) \<Longrightarrow> r = Inr () \<Longrightarrow> length bound = length acc + length binds"
  by (induction binds arbitrary: acc) (auto split: sum.splits)

lemma server_inv_start:
  assumes inv: "server_inv s" and start: "server_start binds cb run_res s = (s', r)"
    and st: "stopper s \<in> {No_stop, Stop_done}"
  shows "server_inv s'"
proof (cases "binds = [] \<or> m_running s")
  case True
  with inv start show ?thesis by (auto simp: server_start_def split: if_splits)
next
  case False
  then have idle: "m_active_sessions s = 0" "m_sessions s = {}"
    using inv sess_inv_positive [of s] registered_counted by (fastforce simp: server_inv_def sess_inv_def)+
  obtain bound br where b: "bind_acceptors binds [] = (bound, br)" by (cases "bind_acceptors binds []")
  have ge: "server_inv s''"
    if "stopper s'' \<in> {No_stop}" "sess s'' = (\<lambda>_. Absent)" "m_active_sessions s'' = 0" "m_sessions s'' = {}"
      "created s'' = []" "disconnected s'' = []" "stopped_calls s'' = []"
      "m_acceptors_running_count s'' = length (listeners s'')"
      "\<forall>p \<in> set (listeners s''). p = L_check accept_retry_min"
      "m_context s'' = Context_running \<and> m_running s'' \<and> listeners s'' \<noteq> [] \<or> m_context s'' = No_context \<and> \<not> m_running s'' \<and> listeners s'' = []"
    for s'' :: server
  proof -
    have "owns (listeners s'' ! i) i (sess s'')" if "i < length (listeners s'')" for i
      using \<open>\<forall>p \<in> set _. _\<close> that nth_mem by fastforce
    moreover have "filter (\<lambda>p. p \<noteq> L_done) (listeners s'') = listeners s''"
      using \<open>\<forall>p \<in> set _. _\<close> by (auto simp: filter_id_conv)
    ultimately show ?thesis
      using that by (auto simp: server_inv_def sess_inv_def busy_def all_done_def)
  qed
  show ?thesis
    using False start st idle b bind_acceptors_length [OF b]
    by (intro ge) (auto simp: server_start_def Let_def split: if_splits sum.splits)
qed

text \<open>Every step of a listener, with the point it goes to.\<close>

lemma server_inv_goto:
  assumes "server_inv s" and "i < length (listeners s)" and "listeners s ! i \<noteq> L_done" and "p \<noteq> L_done"
    and "sess_inv (goto i p s1)"
    and "listeners s1 = listeners s" and "m_acceptors_running_count s1 = m_acceptors_running_count s"
    and "m_context s1 = m_context s" and "m_running s1 = m_running s"
    and "stopper s1 = stopper s \<and> m_stop_in_operation s1 = m_stop_in_operation s \<or>
      stopper s1 = Closing \<and> m_stop_in_operation s1"
    and "stopped_calls s1 = stopped_calls s"
  shows "server_inv (goto i p s1)"
  using assms by (intro server_inv_listener [OF assms(1-3,5), of p]) (auto simp: goto_def)

lemma server_inv_sess: "server_inv s \<Longrightarrow> sess_inv s"
  by (simp add: server_inv_def)

lemma server_inv_take_id:
  assumes "server_inv s" and "i < length (listeners s)" and "listeners s ! i \<noteq> L_done"
  shows "server_inv (listener_take_id i s)"
  using sess_inv_l_take_id [OF server_inv_sess [OF assms(1)], of i] assms
  unfolding listener_take_id_def Let_def by (intro server_inv_goto) simp_all

lemma server_inv_listeners:
  assumes inv: "server_inv s" and i: "i < length (listeners s)"
  shows "listeners s ! i = L_check b \<Longrightarrow> server_inv (listener_check i b s)"
    "listeners s ! i = L_accepting b \<Longrightarrow> server_inv (listener_failed posix i b ec s)"
    "listeners s ! i = L_backing_off b \<Longrightarrow> server_inv (listener_waited i b s)"
    "listeners s ! i = L_accepting b \<Longrightarrow> server_inv (listener_accepted i s)"
    "listeners s ! i = L_filtering b \<Longrightarrow> server_inv (listener_filtered i r s)"
    "listeners s ! i = L_setup b sid \<Longrightarrow> server_inv (listener_set_up i b sid r' s)"
    "listeners s ! i = L_connecting b sid \<Longrightarrow> server_inv (listener_register i b sid s)"
    "listeners s ! i = L_created b sid \<Longrightarrow> server_inv (listener_created i b s)"
    "listeners s ! i = L_leaving \<Longrightarrow> server_inv (listener_leave i s)"
proof -
  note se = server_inv_sess [OF inv]
  show "listeners s ! i = L_check b \<Longrightarrow> server_inv (listener_check i b s)"
    unfolding listener_check_def using inv i se by (auto intro!: server_inv_goto sess_inv_goto)
  show "listeners s ! i = L_backing_off b \<Longrightarrow> server_inv (listener_waited i b s)"
    unfolding listener_waited_def using inv i se by (auto intro!: server_inv_goto sess_inv_goto)
  show "listeners s ! i = L_accepting b \<Longrightarrow> server_inv (listener_accepted i s)"
    unfolding listener_accepted_def using inv i se
    by (auto intro!: server_inv_goto sess_inv_goto server_inv_take_id)
  show "listeners s ! i = L_filtering b \<Longrightarrow> server_inv (listener_filtered i r s)"
    unfolding listener_filtered_def using inv i se
    by (auto intro!: server_inv_goto sess_inv_goto server_inv_take_id split: sum.split bool.split)
  show "listeners s ! i = L_created b sid \<Longrightarrow> server_inv (listener_created i b s)"
    unfolding listener_created_def using inv i se by (auto intro!: server_inv_goto sess_inv_goto)
  show "listeners s ! i = L_setup b sid \<Longrightarrow> server_inv (listener_set_up i b sid r' s)"
    using inv i sess_inv_l_set_up [OF se i, of b sid r'] unfolding listener_set_up_def
    by (auto intro!: server_inv_goto split: sum.splits)
  show "listeners s ! i = L_connecting b sid \<Longrightarrow> server_inv (listener_register i b sid s)"
    using inv i sess_inv_l_register [OF se i, of b sid] unfolding listener_register_def
    by (auto intro!: server_inv_goto)
  show "listeners s ! i = L_accepting b \<Longrightarrow> server_inv (listener_failed posix i b ec s)"
    using inv i sess_inv_l_failed [OF se, of posix i b ec]
    unfolding listener_failed_def server_stop_async_def record_error_def Let_def
    by (auto intro!: server_inv_goto split: if_splits)
  show "listeners s ! i = L_leaving \<Longrightarrow> server_inv (listener_leave i s)"
    by (rule server_inv_listener [OF inv i, of _ L_done])
      (use inv se sess_inv_goto [of "s\<lparr>m_acceptors_running_count := m_acceptors_running_count s - 1\<rparr>" L_done i]
        in \<open>auto simp: listener_leave_def goto_def\<close>)
qed

lemma server_inv_sessions:
  assumes "server_inv s" and "sess_inv s'" and "listeners s' = listeners s"
    and "m_acceptors_running_count s' = m_acceptors_running_count s" and "m_context s' = m_context s"
    and "m_running s' = m_running s" and "stopper s' = stopper s"
    and "m_stop_in_operation s' = m_stop_in_operation s" and "stopped_calls s' = stopped_calls s"
    and "m_last_error s' = m_last_error s" and "m_active_sessions s' \<le> m_active_sessions s"
  shows "server_inv s'"
  using assms by (auto simp: server_inv_def)

lemma server_inv_step:
  assumes "server_inv s" and "server_step posix s e s'"
  shows "server_inv s'"
  using assms(2,1)
proof (induct rule: server_step.induct)
  case (server_starts binds cb r s s') then show ?case by (blast intro: server_inv_start)
next case (server_start_fails binds cb r s s' e) then show ?case by (blast intro: server_inv_start)
next case (stop_asyncs s) then show ?case by (auto simp: server_inv_def server_stop_async_def)
next case (stop_closes s) then show ?case by (auto simp: server_inv_def stop_close_def)
next case (stop_waits s) then show ?case by (auto simp: server_inv_def stop_waited_def busy_0)
next case (stop_disconnects s) then show ?case by (auto simp: server_inv_def stop_disconnect_all_def)
next case (stop_sessions s) then show ?case by (auto simp: server_inv_def stop_sessions_gone_def)
next case (stop_contexts s) then show ?case by (auto simp: server_inv_def stop_context_def)
next case (stop_clears s) then show ?case by (auto simp: server_inv_def stop_clear_running_def)
next case (acceptor_closes i s) then show ?case by (auto simp: server_inv_def acceptor_close_def)
next case (session_reports s sid)
  note sess_inv_sessions(1) [OF server_inv_sess [OF session_reports(2)] session_reports(1)]
  from server_inv_sessions [OF session_reports(2) this] show ?case by (simp add: session_report_def)
next case (session_reporteds s sid)
  note sess_inv_sessions(2) [OF server_inv_sess [OF session_reporteds(2)] session_reporteds(1)]
  from server_inv_sessions [OF session_reporteds(2) this] show ?case by (simp add: session_reported_def)
next case (session_erases s sid)
  note sess_inv_sessions(3) [OF server_inv_sess [OF session_erases(2)] session_erases(1)]
  from server_inv_sessions [OF session_erases(2) this] show ?case by (simp add: session_erase_def)
next case (session_releases s sid)
  note sess_inv_sessions(4) [OF server_inv_sess [OF session_releases(2)] session_releases(1)]
  from server_inv_sessions [OF session_releases(2) this] show ?case by (simp add: session_release_def)
qed (blast intro: server_inv_listeners)+

lemma server_inv_init: "server_init s \<Longrightarrow> server_inv s"
  by (auto simp: server_init.simps new_server_def server_inv_def sess_inv_def busy_def)

interpretation server_system: invariant_system server_init "server_step posix" server_inv for posix
  by unfold_locales (auto intro: server_inv_init server_inv_step)

text \<open>The error a step stops the server with, and the first of a run.\<close>

text \<open>Without an active session none is registered, and every one created has been reported.\<close>

lemma idle_tables:
  assumes "server_inv s" and "m_active_sessions s = 0"
  shows "m_sessions s = {}" and "set (disconnected s) = set (created s)"
proof -
  have "\<not> counted (sess s sid)" for sid using sess_inv_positive [OF server_inv_sess [OF assms(1)]] assms(2) by auto
  then have "\<not> registered (sess s sid)" "sess s sid \<noteq> Live" for sid
    using registered_counted by (auto dest: arg_cong [of _ _ counted])
  then show "m_sessions s = {}" "set (disconnected s) = set (created s)"
    using server_inv_sess [OF assms(1)] by (simp_all add: sess_inv_def)
qed

fun fatal_of :: "bool \<Rightarrow> server_event \<Rightarrow> accept_error option" where
  "fatal_of posix (L_fails i ec) =
     (if \<not> is_transient_accept_error posix ec \<and> ec \<noteq> Operation_aborted then Some ec else None)"
| "fatal_of posix _ = None"

fun first_fatal :: "bool \<Rightarrow> server_event list \<Rightarrow> accept_error option" where
  "first_fatal posix [] = None"
| "first_fatal posix (e # es) =
     (case fatal_of posix e of Some x \<Rightarrow> Some x | None \<Rightarrow> first_fatal posix es)"

fun starts :: "server_event \<Rightarrow> bool" where
  "starts (Start _) = True"
| "starts Start_failed = True"
| "starts _ = False"

lemma last_error_step:
  assumes "server_step posix s e s'" and "\<not> starts e"
  shows "m_last_error s' = (case m_last_error s of Some x \<Rightarrow> Some x | None \<Rightarrow> fatal_of posix e)"
  using assms
  by (induct rule: server_step.induct)
    (auto simp: server_defs split: sum.split bool.split option.split)

lemma last_error_run:
  "run (server_step posix) s es s' \<Longrightarrow> \<not> list_ex starts es \<Longrightarrow>
     m_last_error s' = (case m_last_error s of Some x \<Rightarrow> Some x | None \<Rightarrow> first_fatal posix es)"
  by (induction rule: run.induct) (auto dest!: last_error_step split: option.splits)

section \<open>Executable steps\<close>

definition at_listener :: "nat \<Rightarrow> server \<Rightarrow> (listener_pc \<Rightarrow> server option) \<Rightarrow> server option" where
  "at_listener i s f = (if i < length (listeners s) then f (listeners s ! i) else None)"

fun next_server :: "bool \<Rightarrow> server_event \<Rightarrow> server \<Rightarrow> server option" where
  "next_server posix (Start binds) s =
     (case server_start binds (Inr ()) (Inr ()) s of
        (s', Inr _) \<Rightarrow> if stopper s \<in> {No_stop, Stop_done} then Some s' else None | _ \<Rightarrow> None)"
| "next_server posix Start_failed s = None"
| "next_server posix Stop_async s = Some (server_stop_async s)"
| "next_server posix Stop_close s = (if stopper s = Closing then Some (stop_close s) else None)"
| "next_server posix Stop_waited s =
     (if stopper s = Wait_listeners \<and> (m_context s = Context_running \<longrightarrow> m_acceptors_running_count s = 0)
      then Some (stop_waited s) else None)"
| "next_server posix Stop_disconnect_all s = (if stopper s = Disconnecting then Some (stop_disconnect_all s) else None)"
| "next_server posix Stop_sessions_gone s =
     (if stopper s = Wait_sessions \<and> m_active_sessions s = 0 then Some (stop_sessions_gone s) else None)"
| "next_server posix Stop_context_done s = (if stopper s = Stop_context then Some (stop_context s) else None)"
| "next_server posix Stop_clear_running s = (if stopper s = Clear_running then Some (stop_clear_running s) else None)"
| "next_server posix (Acceptor_close i) s =
     (if i < length (closes_posted s) \<and> closes_posted s ! i then Some (acceptor_close i s) else None)"
| "next_server posix (L_checks i) s =
     at_listener i s (\<lambda>p. case p of L_check b \<Rightarrow> Some (listener_check i b s) | _ \<Rightarrow> None)"
| "next_server posix (L_fails i ec) s =
     at_listener i s (\<lambda>p. case p of L_accepting b \<Rightarrow> Some (listener_failed posix i b ec s) | _ \<Rightarrow> None)"
| "next_server posix (L_waits i) s =
     at_listener i s (\<lambda>p. case p of L_backing_off b \<Rightarrow> Some (listener_waited i b s) | _ \<Rightarrow> None)"
| "next_server posix (L_accepts i) s =
     at_listener i s (\<lambda>p. case p of L_accepting b \<Rightarrow> Some (listener_accepted i s) | _ \<Rightarrow> None)"
| "next_server posix (L_filters i r) s =
     at_listener i s (\<lambda>p. case p of L_filtering b \<Rightarrow> Some (listener_filtered i r s) | _ \<Rightarrow> None)"
| "next_server posix (L_sets_up i r) s =
     at_listener i s (\<lambda>p. case p of L_setup b sid \<Rightarrow> Some (listener_set_up i b sid r s) | _ \<Rightarrow> None)"
| "next_server posix (L_registers i) s =
     at_listener i s (\<lambda>p. case p of L_connecting b sid \<Rightarrow> Some (listener_register i b sid s) | _ \<Rightarrow> None)"
| "next_server posix (L_created_returns i) s =
     at_listener i s (\<lambda>p. case p of L_created b sid \<Rightarrow> Some (listener_created i b s) | _ \<Rightarrow> None)"
| "next_server posix (L_leaves i) s =
     at_listener i s (\<lambda>p. if p = L_leaving then Some (listener_leave i s) else None)"
| "next_server posix (Session_report sid) s = (if sess s sid = Live then Some (session_report sid s) else None)"
| "next_server posix (Session_reported sid) s = (if sess s sid = Reporting then Some (session_reported sid s) else None)"
| "next_server posix (Session_erase sid) s = (if sess s sid = Reported then Some (session_erase sid s) else None)"
| "next_server posix (Session_release sid) s = (if sess s sid = Erased then Some (session_release sid s) else None)"

lemma next_server_sound: "next_server posix e s = Some s' \<Longrightarrow> server_step posix s e s'"
  by (cases e)
    (auto simp: at_listener_def split: if_splits sum.splits prod.splits listener_pc.splits
      intro: server_step.intros)

lemma server_reach_exec:
  "exec_run (next_server posix) es (new_server f) = Some s \<Longrightarrow> reach server_init (server_step posix) s"
  by (rule reach_run [OF reach_init [of server_init, OF server_init.intros]])
    (auto intro: exec_run_sound next_server_sound)

text \<open>Accepting one connection on listener 0, and the whole of a stop.\<close>

definition accept_one :: "server_event list" where
  "accept_one = [L_checks 0, L_accepts 0, L_sets_up 0 (Inr ()), L_registers 0, L_created_returns 0]"

lemmas server_eval = server_defs accept_one_def new_server_def server_start_def at_listener_def
  accept_retry_min_def accept_retry_max_def next_backoff_def reports_failure_def

section \<open>Properties\<close>

text \<open>
  C3: When a stop has completed, whatever the listeners, the sessions and other threads did in the
  meantime: the server does not run, every listener has left, no session is active or registered,
  every session \<open>OnSessionCreated\<close> was due for has had its disconnection reported exactly once, no id
  was used twice, and \<open>OnStoppedListening\<close> has been called exactly once, with \<open>last_error()\<close>.
\<close>

theorem server_stop_complete:
  assumes "reach server_init (server_step posix) s" and "stopper s = Stop_done" and "listeners s \<noteq> []"
  shows "\<not> m_running s \<and> all_done (listeners s) \<and> m_active_sessions s = 0 \<and> m_sessions s = {} \<and>
    distinct (created s) \<and> distinct (disconnected s) \<and> set (disconnected s) = set (created s) \<and>
    stopped_calls s = [m_last_error s]"
proof -
  have inv: "server_inv s" by (rule server_system.reach_inv [OF assms(1)])
  then have "m_active_sessions s = 0" using assms(2) by (simp add: server_inv_def)
  with inv idle_tables [OF inv] assms(2,3) show ?thesis by (simp add: server_inv_def sess_inv_def)
qed

text \<open>One session, a stop, and the accept that the stop aborts.\<close>

lemma server_stop_complete_witness:
  "\<exists>s. reach server_init (server_step True) s \<and> stopper s = Stop_done \<and> listeners s \<noteq> [] \<and>
     created s = [0] \<and> set (disconnected s) = set (created s) \<and> stopped_calls s = [None] \<and>
     stopped_calls s = [m_last_error s]"
proof -
  let ?es = "Start [Inr 80] # accept_one @ [L_checks 0, Stop_async, Stop_close, Acceptor_close 0,
    L_fails 0 Operation_aborted, L_leaves 0, Stop_waited, Stop_disconnect_all, Session_report 0,
    Session_reported 0, Session_erase 0, Session_release 0, Stop_sessions_gone, Stop_context_done,
    Stop_clear_running]"
  obtain s where s: "exec_run (next_server True) ?es (new_server False) = Some s" "stopper s = Stop_done"
    "listeners s \<noteq> []" "created s = [0]" "stopped_calls s = [None]"
    by (simp add: server_eval)
  have r: "reach server_init (server_step True) s" by (rule server_reach_exec [OF s(1)])
  from server_stop_complete [OF r s(2,3)] r s show ?thesis by blast
qed



text \<open>
  C18: The error \<open>OnStoppedListening\<close> reports is the first fatal accept error of the run, if there was
  one (later ones, of the other listeners, do not mask it), and none if the server was only asked to
  stop; transient errors and the aborted accepts of a stop never count.
\<close>

theorem server_first_error_reported:
  assumes "reach server_init (server_step posix) s" and "run (server_step posix) s es s'"
    and "\<not> list_ex starts es" and "m_last_error s = None"
    and "stopper s' = Stop_done" and "listeners s' \<noteq> []"
  shows "stopped_calls s' = [first_fatal posix es]"
proof -
  have "server_inv s'" by (rule server_system.reach_inv [OF reach_run [OF assms(1,2)]])
  then have "stopped_calls s' = [m_last_error s']" using assms(5,6) by (simp add: server_inv_def)
  with last_error_run [OF assms(2,3)] assms(4) show ?thesis by simp
qed

text \<open>Two listeners whose sockets break one after the other.\<close>

lemma server_first_error_reported_witness:
  "\<exists>s es s'. run (server_step True) s es s' \<and> stopped_calls s' = [first_fatal True es] \<and>
     stopped_calls s' = [Some Bad_descriptor]"
proof -
  let ?up = "[Start [Inr 80, Inr 81], L_checks 0, L_checks 1]"
  let ?es = "[L_fails 0 Bad_descriptor, L_fails 1 (Other_error 5), L_leaves 0, L_leaves 1, Stop_close,
    Stop_waited, Stop_disconnect_all, Stop_sessions_gone, Stop_context_done, Stop_clear_running]"
  obtain s s' where s: "exec_run (next_server True) ?up (new_server False) = Some s" "m_last_error s = None"
    "exec_run (next_server True) ?es s = Some s'" "stopper s' = Stop_done" "listeners s' \<noteq> []"
    by (simp add: server_eval)
  have e: "\<not> list_ex starts ?es" by simp
  have r: "run (server_step True) s ?es s'" by (rule exec_run_sound [OF next_server_sound s(3)])
  have "stopped_calls s' = [first_fatal True ?es]"
    by (rule server_first_error_reported [OF server_reach_exec [OF s(1)] r e s(2,4,5)])
  with r show ?thesis by (intro exI [of _ s] exI [of _ ?es] exI [of _ s'] conjI) simp_all
qed

text \<open>One failed accept of a listener, its delay, and the next accept.\<close>

definition failure_round :: "nat \<Rightarrow> accept_error \<Rightarrow> server_event list" where
  "failure_round i ec = [L_fails i ec, L_waits i, L_checks i]"

lemma exec_run_append:
  "exec_run f (es @ es') s = (case exec_run f es s of None \<Rightarrow> None | Some s' \<Rightarrow> exec_run f es' s')"
  by (induction es arbitrary: s) (simp_all split: option.split)

lemma failure_round_exec:
  assumes "i < length (listeners s)" and "listeners s ! i = L_accepting b"
    and "is_transient_accept_error posix ec" and "\<not> m_stop_in_operation s"
  shows "exec_run (next_server posix) (failure_round i ec) s =
    Some (s\<lparr>listeners := (listeners s)[i := L_accepting (next_backoff b)],
            accept_reports := accept_reports s @ (if reports_failure b then [ec] else [])\<rparr>)"
  using assms
  by (simp add: failure_round_def at_listener_def listener_failed_def listener_waited_def
      listener_check_def goto_def Let_def)

lemma backoff_power: "next_backoff (min (2 ^ n) 500) = min (2 ^ Suc n) 500"
  by (simp add: next_backoff_def accept_retry_max_def min_def)

lemma power_2_ge_500: "500 \<le> (2 :: nat) ^ n \<longleftrightarrow> 9 \<le> n"
proof
  assume "500 \<le> (2 :: nat) ^ n"
  show "9 \<le> n"
  proof (rule ccontr)
    assume "\<not> 9 \<le> n"
    then have "(2 :: nat) ^ n \<le> 2 ^ 8" by (intro power_increasing) simp_all
    with \<open>500 \<le> 2 ^ n\<close> show False by simp
  qed
next
  assume "9 \<le> n"
  then have "(2 :: nat) ^ 9 \<le> 2 ^ n" by (intro power_increasing) simp_all
  then show "500 \<le> (2 :: nat) ^ n" by simp
qed

lemma reports_power: "reports_failure (min (2 ^ n) 500) \<longleftrightarrow> n = 0 \<or> 9 \<le> n"
  using power_2_ge_500 [of n]
  by (cases n) (auto simp: reports_failure_def accept_retry_min_def accept_retry_max_def min_def)

text \<open>
  C34: The backoff of a listener whose accepts keep failing: the delay before accept \<open>n + 1\<close> is
  \<open>min (2^n) 500\<close> milliseconds, and of \<open>n\<close> failures in a row the first and those from the tenth on
  are reported.
\<close>

theorem server_backoff:
  assumes "i < length (listeners s)" and "listeners s ! i = L_accepting accept_retry_min"
    and "is_transient_accept_error posix ec" and "\<not> m_stop_in_operation s"
  shows "exec_run (next_server posix) (concat (replicate n (failure_round i ec))) s =
    Some (s\<lparr>listeners := (listeners s)[i := L_accepting (min (2 ^ n) 500)],
            accept_reports := accept_reports s @ replicate (min n 1 + (n - 9)) ec\<rparr>)"
proof (induction n)
  case 0
  have "(listeners s)[i := L_accepting (min (2 ^ 0) 500)] = listeners s"
    using assms(1,2) by (simp add: accept_retry_min_def list_update_same_conv)
  then show ?case by simp
next
  case (Suc n)
  let ?s = "s\<lparr>listeners := (listeners s)[i := L_accepting (min (2 ^ n) 500)],
            accept_reports := accept_reports s @ replicate (min n 1 + (n - 9)) ec\<rparr>"
  have "exec_run (next_server posix) (failure_round i ec) ?s =
      Some (?s\<lparr>listeners := (listeners ?s)[i := L_accepting (min (2 ^ Suc n) 500)],
         accept_reports := accept_reports ?s @ (if n = 0 \<or> 9 \<le> n then [ec] else [])\<rparr>)"
    using failure_round_exec [of i ?s "min (2 ^ n) 500" posix ec] assms
    by (simp only: backoff_power reports_power) simp
  moreover have "replicate (min n 1 + (n - 9)) ec @ (if n = 0 \<or> 9 \<le> n then [ec] else []) =
      replicate (min (Suc n) 1 + (Suc n - 9)) ec"
  proof (cases "9 \<le> n")
    case True
    then have "min (Suc n) 1 + (Suc n - 9) = Suc (min n 1 + (n - 9))" by (simp add: Suc_diff_le)
    with True show ?thesis by (simp only: replicate_Suc simp_thms if_True replicate_append_same)
  qed (cases n; simp)
  moreover have "concat (replicate (Suc n) (failure_round i ec)) =
      concat (replicate n (failure_round i ec)) @ failure_round i ec"
    by (simp add: replicate_append_same flip: concat_append) (metis append_Nil2 concat.simps concat_append replicate_append_same)
  ultimately show ?case using Suc by (simp add: exec_run_append)
qed

lemma server_backoff_witness:
  "\<exists>s s'. reach server_init (server_step True) s \<and>
     exec_run (next_server True) (concat (replicate 12 (failure_round 0 No_descriptors))) s = Some s' \<and>
     listeners s' = [L_accepting 500] \<and> accept_reports s' = replicate 4 No_descriptors"
proof -
  let ?up = "[Start [Inr 80], L_checks 0]"
  obtain s where s: "exec_run (next_server True) ?up (new_server False) = Some s"
    "listeners s = [L_accepting accept_retry_min]" "\<not> m_stop_in_operation s" "accept_reports s = []"
    by (simp add: server_eval)
  have "exec_run (next_server True) (concat (replicate 12 (failure_round 0 No_descriptors))) s =
    Some (s\<lparr>listeners := (listeners s)[0 := L_accepting (min (2 ^ 12) 500)],
            accept_reports := accept_reports s @ replicate (min 12 1 + (12 - 9)) No_descriptors\<rparr>)"
    by (rule server_backoff) (use s in simp_all)
  with server_reach_exec [OF s(1)] s(2,4) show ?thesis
    by (intro exI [of _ s] exI [of _ "s\<lparr>listeners := [L_accepting 500],
        accept_reports := replicate 4 No_descriptors\<rparr>"] conjI) simp_all
qed

section \<open>Where the code differs from what it means to do\<close>

text \<open>
  "At most a couple of times a second, however fast the accepts fail" does not hold when accepts that
  fail alternate with accepts that succeed, as under a load of connections that are reset: every
  success sets the backoff back to the minimum, so that every failure is reported, with delays of one
  millisecond in between.
\<close>

lemma every_failure_after_a_success_reported:
  assumes "i < length (listeners s)" and "listeners s ! i = L_accepting b"
    and "is_transient_accept_error posix ec" and "\<not> m_stop_in_operation s" and "has_should_accept s"
  shows "exec_run (next_server posix) ([L_accepts i, L_filters i (Inr False), L_checks i] @ failure_round i ec) s =
    Some (s\<lparr>listeners := (listeners s)[i := L_accepting 2], accept_reports := accept_reports s @ [ec]\<rparr>)"
  using assms
  by (simp add: failure_round_def at_listener_def listener_accepted_def listener_filtered_def
      listener_failed_def listener_waited_def listener_check_def goto_def Let_def next_backoff_def
      reports_failure_def accept_retry_min_def accept_retry_max_def)

text \<open>
  A failed \<open>start()\<close> leaves \<open>m_stop_in_operation\<close> unset, so that a following \<open>stop_async()\<close> starts the
  stopping thread although nothing runs; \<open>start()\<close> does not wait for that thread, and a second
  \<open>start()\<close> succeeds while it is about to close the acceptors, now those of the new run.
\<close>

lemma start_during_stop_of_failed_start:
  defines "s \<equiv> fst (server_start [Inl Runtime_error] (Inr ()) (Inr ()) (new_server False))"
  defines "s' \<equiv> fst (server_start [Inr 80] (Inr ()) (Inr ()) (server_stop_async s))"
  shows "snd (server_start [Inr 80] (Inr ()) (Inr ()) (server_stop_async s)) = Inr ()"
    "stopper s' = Closing" "\<not> m_stop_in_operation s'" "closes_posted (stop_close s') = [True]"
  by (simp_all add: s_def s'_def server_start_def new_server_def server_stop_async_def stop_close_def
      Let_def)

end
