(* ===== verification/IoPool.thy ===== *)
theory IoPool
  imports Prelude
begin

text \<open>
  The thread pool around an \<open>io_context\<close>: \<open>net/include/sg/net/asio_io_pool.h\<close> and
  \<open>net/src/asio_io_pool.cpp\<close>.

  \<open>pool_step\<close> has a rule for every action of the worker threads, of the monitor thread that joins them
  and runs the stopped callback, and of the threads that call \<open>run()\<close> and \<open>stop_async()\<close>; the mutex
  that serialises these two is part of the state. Of the \<open>io_context\<close> the documented behaviour is
  modelled: \<open>run()\<close> returns once the context is stopped, and the context stops itself when no handler
  is queued or executing and no work guard is held. Handlers and the callback are arbitrary and may
  call \<open>stop_async()\<close>; a handler does not call \<open>run()\<close> and neither throws (that ends the program).
  \<open>cycles\<close>, \<open>callbacks\<close> and \<open>run_results\<close> are ghosts: the cycles whose monitor was started, the calls
  of the stopped callback, what the calls of \<open>run()\<close> returned.
\<close>

section \<open>State\<close>

datatype pool_state_t = Pool_stopped | Pool_running | Pool_stopping

text \<open>
  A worker thread: inside \<open>io_context::run()\<close>, executing a handler, in \<open>stop_async()\<close> before and after
  it has the mutex, returned.
\<close>

datatype pool_worker = W_idle | W_handling | W_wants_stop | W_stopping | W_done

text \<open>The monitor thread.\<close>

datatype monitor_pc = No_monitor | Joining | In_callback | Cb_wants_stop | Cb_stopping
  | Publishing

text \<open>Who holds the mutex, and how far the call is. \<open>By_stop\<close> carries the caller.\<close>

datatype caller = Outside | Handler nat | Callback

datatype holder = Free | Run_check | Run_waiting | Run_claim | Run_spawning | Run_failed exn
  | Run_returning | Stop_check caller | Stop_act caller | Stop_return caller

record io_pool =
  m_no_workers :: nat
  m_guard_enabled :: bool
  has_stopped_callback :: bool
  m_guard :: bool
  context_stopped :: bool
  queued :: nat
  m_cycle_active :: bool
  m_workers :: "pool_worker list"
  monitor :: monitor_pc
  m_cb_thread_id :: bool
  m_mutex :: holder
  cycles :: nat
  callbacks :: nat
  run_results :: "bool res list"

text \<open>\<open>create()\<close>: zero workers means one per hardware thread, or one if that is unknown.\<close>

definition pool_create :: "nat \<Rightarrow> nat \<Rightarrow> bool \<Rightarrow> bool \<Rightarrow> io_pool" where
  "pool_create hardware_concurrency noWorkers enableGuard cb =
     (let noWorkers = (if noWorkers = 0 then hardware_concurrency else noWorkers);
          noWorkers = (if noWorkers = 0 then 1 else noWorkers)
      in \<lparr>m_no_workers = noWorkers, m_guard_enabled = enableGuard, has_stopped_callback = cb,
          m_guard = False, context_stopped = False, queued = 0, m_cycle_active = False,
          m_workers = [], monitor = No_monitor, m_cb_thread_id = False, m_mutex = Free,
          cycles = 0, callbacks = 0, run_results = []\<rparr>)"

inductive pool_init :: "io_pool \<Rightarrow> bool" where
  "pool_init (pool_create hw n g cb)"

definition pool_state :: "io_pool \<Rightarrow> pool_state_t" where
  "pool_state p =
     (if \<not> m_cycle_active p then Pool_stopped
      else if context_stopped p then Pool_stopping else Pool_running)"

definition pool_is_running :: "io_pool \<Rightarrow> bool" where
  "pool_is_running p \<longleftrightarrow> m_cycle_active p \<and> \<not> context_stopped p"

section \<open>The io_context\<close>

text \<open>Whether a thread is inside a handler, and whether any work is left.\<close>

fun handling :: "pool_worker \<Rightarrow> bool" where
  "handling W_handling = True" | "handling W_wants_stop = True" | "handling W_stopping = True"
| "handling _ = False"

definition has_work :: "io_pool \<Rightarrow> bool" where
  "has_work p \<longleftrightarrow> queued p > 0 \<or> m_guard p \<or> list_ex handling (m_workers p)"

definition stop_if_idle :: "io_pool \<Rightarrow> io_pool" where
  "stop_if_idle p = (if has_work p then p else p\<lparr>context_stopped := True\<rparr>)"

definition set_worker :: "nat \<Rightarrow> pool_worker \<Rightarrow> io_pool \<Rightarrow> io_pool" where
  "set_worker i w p = p\<lparr>m_workers := (m_workers p)[i := w]\<rparr>"

section \<open>run\<close>

text \<open>A call of \<open>run()\<close> in the callback throws; any other takes the mutex.\<close>

definition pool_run_in_callback :: "io_pool \<Rightarrow> io_pool" where
  "pool_run_in_callback p = p\<lparr>run_results := run_results p @ [Inl Logic_error]\<rparr>"

definition pool_run :: "io_pool \<Rightarrow> io_pool" where
  "pool_run p = p\<lparr>m_mutex := Run_check\<rparr>"

definition run_check :: "io_pool \<Rightarrow> io_pool" where
  "run_check p =
     (if m_cycle_active p then
        if \<not> context_stopped p then p\<lparr>m_mutex := Free, run_results := run_results p @ [Inr False]\<rparr>
        else p\<lparr>m_mutex := Run_waiting\<rparr>
      else p\<lparr>m_mutex := Run_claim\<rparr>)"

definition run_claim :: "io_pool \<Rightarrow> io_pool" where
  "run_claim p =
     p\<lparr>context_stopped := False, m_guard := m_guard_enabled p, m_cycle_active := True,
       m_mutex := Run_spawning\<rparr>"

definition run_spawn_worker :: "io_pool \<Rightarrow> io_pool" where
  "run_spawn_worker p = p\<lparr>m_workers := m_workers p @ [W_idle]\<rparr>"

definition run_spawn_monitor :: "io_pool \<Rightarrow> io_pool" where
  "run_spawn_monitor p = p\<lparr>monitor := Joining, cycles := cycles p + 1, m_mutex := Run_returning\<rparr>"

definition run_return :: "io_pool \<Rightarrow> io_pool" where
  "run_return p = p\<lparr>m_mutex := Free, run_results := run_results p @ [Inr True]\<rparr>"

definition run_spawn_failed :: "exn \<Rightarrow> io_pool \<Rightarrow> io_pool" where
  "run_spawn_failed e p = p\<lparr>m_guard := False, context_stopped := True, m_mutex := Run_failed e\<rparr>"

definition run_failed_joined :: "exn \<Rightarrow> io_pool \<Rightarrow> io_pool" where
  "run_failed_joined e p =
     p\<lparr>m_workers := [], m_cycle_active := False, m_mutex := Free,
       run_results := run_results p @ [Inl e]\<rparr>"

section \<open>stop_async\<close>

fun pool_stop_enter :: "caller \<Rightarrow> io_pool \<Rightarrow> io_pool" where
  "pool_stop_enter Outside p = p\<lparr>m_mutex := Stop_check Outside\<rparr>"
| "pool_stop_enter (Handler i) p = set_worker i W_stopping (p\<lparr>m_mutex := Stop_check (Handler i)\<rparr>)"
| "pool_stop_enter Callback p = p\<lparr>m_mutex := Stop_check Callback, monitor := Cb_stopping\<rparr>"

definition pool_stop_check :: "caller \<Rightarrow> io_pool \<Rightarrow> io_pool" where
  "pool_stop_check c p = p\<lparr>m_mutex := (if m_cycle_active p then Stop_act c else Stop_return c)\<rparr>"

definition pool_stop_act :: "caller \<Rightarrow> io_pool \<Rightarrow> io_pool" where
  "pool_stop_act c p = p\<lparr>m_guard := False, context_stopped := True, m_mutex := Stop_return c\<rparr>"

text \<open>Returning, which lets the handler or the callback that called go on.\<close>

fun pool_stop_return :: "caller \<Rightarrow> io_pool \<Rightarrow> io_pool" where
  "pool_stop_return Outside p = p\<lparr>m_mutex := Free\<rparr>"
| "pool_stop_return (Handler i) p = set_worker i W_handling (p\<lparr>m_mutex := Free\<rparr>)"
| "pool_stop_return Callback p = p\<lparr>m_mutex := Free, monitor := In_callback\<rparr>"

text \<open>\<open>wait_for_stop()\<close> may return in this state.\<close>

definition pool_wait_for_stop :: "bool \<Rightarrow> io_pool \<Rightarrow> bool" where
  "pool_wait_for_stop in_stopped_callback p \<longleftrightarrow> in_stopped_callback \<or> \<not> m_cycle_active p"

section \<open>The monitor\<close>

definition monitor_joined :: "io_pool \<Rightarrow> io_pool" where
  "monitor_joined p =
     (if has_stopped_callback p
      then p\<lparr>m_workers := [], m_cb_thread_id := True, monitor := In_callback,
             callbacks := callbacks p + 1\<rparr>
      else p\<lparr>m_workers := [], monitor := Publishing\<rparr>)"

definition monitor_called :: "io_pool \<Rightarrow> io_pool" where
  "monitor_called p = p\<lparr>m_cb_thread_id := False, monitor := Publishing\<rparr>"

definition monitor_publish :: "io_pool \<Rightarrow> io_pool" where
  "monitor_publish p = p\<lparr>m_cycle_active := False, monitor := No_monitor\<rparr>"

section \<open>Steps\<close>

datatype pool_event =
    Post | Takes nat | Finishes nat | Returns nat | Handler_stops nat
  | Calls_run | Checks_run | Wakes_run | Claims | Spawns_worker | Spawn_fails exn | Spawns_monitor
  | Run_returns | Failed_joined
  | Calls_stop | Handler_enters nat | Callback_enters | Checks_stop | Stops | Stop_returns
  | Joins | Callback_stops | Callback_runs | Callback_returns | Publishes

definition at_worker :: "nat \<Rightarrow> pool_worker \<Rightarrow> io_pool \<Rightarrow> bool" where
  "at_worker i w p \<longleftrightarrow> i < length (m_workers p) \<and> m_workers p ! i = w"

fun next_pool :: "pool_event \<Rightarrow> io_pool \<Rightarrow> io_pool option" where
  "next_pool Post p = Some (p\<lparr>queued := queued p + 1\<rparr>)"
| "next_pool (Takes i) p =
     guarded (at_worker i W_idle p \<and> \<not> context_stopped p \<and> queued p > 0)
       (set_worker i W_handling (p\<lparr>queued := queued p - 1\<rparr>))"
| "next_pool (Finishes i) p =
     guarded (at_worker i W_handling p) (stop_if_idle (set_worker i W_idle p))"
| "next_pool (Returns i) p =
     guarded (at_worker i W_idle p \<and> (context_stopped p \<or> \<not> has_work p))
       (set_worker i W_done (p\<lparr>context_stopped := True\<rparr>))"
| "next_pool (Handler_stops i) p = guarded (at_worker i W_handling p) (set_worker i W_wants_stop p)"
| "next_pool (Handler_enters i) p =
     guarded (at_worker i W_wants_stop p \<and> m_mutex p = Free) (pool_stop_enter (Handler i) p)"
| "next_pool Calls_run p = guarded (m_mutex p = Free) (pool_run p)"
| "next_pool Checks_run p = guarded (m_mutex p = Run_check) (run_check p)"
| "next_pool Wakes_run p =
     guarded (m_mutex p = Run_waiting \<and> \<not> m_cycle_active p)
       (p\<lparr>m_mutex := Run_check\<rparr>)"
| "next_pool Claims p = guarded (m_mutex p = Run_claim) (run_claim p)"
| "next_pool Spawns_worker p =
     guarded (m_mutex p = Run_spawning \<and> length (m_workers p) < m_no_workers p)
       (run_spawn_worker p)"
| "next_pool (Spawn_fails e) p = guarded (m_mutex p = Run_spawning) (run_spawn_failed e p)"
| "next_pool Spawns_monitor p =
     guarded (m_mutex p = Run_spawning \<and> length (m_workers p) = m_no_workers p)
       (run_spawn_monitor p)"
| "next_pool Run_returns p = guarded (m_mutex p = Run_returning) (run_return p)"
| "next_pool Failed_joined p =
     (case m_mutex p of
        Run_failed e \<Rightarrow> guarded (list_all (\<lambda>w. w = W_done) (m_workers p)) (run_failed_joined e p)
      | _ \<Rightarrow> None)"
| "next_pool Calls_stop p = guarded (m_mutex p = Free) (pool_stop_enter Outside p)"
| "next_pool Callback_enters p =
     guarded (monitor p = Cb_wants_stop \<and> m_mutex p = Free) (pool_stop_enter Callback p)"
| "next_pool Checks_stop p =
     (case m_mutex p of Stop_check c \<Rightarrow> Some (pool_stop_check c p) | _ \<Rightarrow> None)"
| "next_pool Stops p =
     (case m_mutex p of Stop_act c \<Rightarrow> Some (pool_stop_act c p) | _ \<Rightarrow> None)"
| "next_pool Stop_returns p =
     (case m_mutex p of Stop_return c \<Rightarrow> Some (pool_stop_return c p) | _ \<Rightarrow> None)"
| "next_pool Joins p =
     guarded (monitor p = Joining \<and> list_all (\<lambda>w. w = W_done) (m_workers p))
       (monitor_joined p)"
| "next_pool Callback_stops p =
     guarded (monitor p = In_callback) (p\<lparr>monitor := Cb_wants_stop\<rparr>)"
| "next_pool Callback_runs p = guarded (monitor p = In_callback) (pool_run_in_callback p)"
| "next_pool Callback_returns p = guarded (monitor p = In_callback) (monitor_called p)"
| "next_pool Publishes p = guarded (monitor p = Publishing) (monitor_publish p)"

definition pool_step :: "io_pool \<Rightarrow> pool_event \<Rightarrow> io_pool \<Rightarrow> bool" where
  "pool_step p ev p' \<longleftrightarrow> next_pool ev p = Some p'"

lemma pool_run_reach:
  assumes "exec_run next_pool es p = Some p'" and "pool_init p"
  shows "reach pool_init pool_step p'"
  using exec_run_sound [OF _ assms(1), of pool_step] reach_run [OF reach_init [of pool_init, OF assms(2)]]
  by (auto simp: pool_step_def)

section \<open>The invariant\<close>

fun setting_up :: "holder \<Rightarrow> bool" where
  "setting_up Run_spawning = True" | "setting_up (Run_failed _) = True" | "setting_up _ = False"

fun in_callback :: "monitor_pc \<Rightarrow> bool" where
  "in_callback In_callback = True" | "in_callback Cb_wants_stop = True"
| "in_callback Cb_stopping = True" | "in_callback _ = False"

text \<open>What the holder of the mutex and the monitor each know.\<close>

fun holder_ok :: "holder \<Rightarrow> io_pool \<Rightarrow> bool" where
  "holder_ok Run_waiting p = context_stopped p"
| "holder_ok Run_claim p = (\<not> m_cycle_active p)"
| "holder_ok Run_spawning p = (monitor p = No_monitor \<and> length (m_workers p) \<le> m_no_workers p)"
| "holder_ok (Run_failed e) p =
     (monitor p = No_monitor \<and> context_stopped p \<and> length (m_workers p) \<le> m_no_workers p)"
| "holder_ok (Stop_check c) p = (c = Callback \<longrightarrow> monitor p = Cb_stopping)"
| "holder_ok (Stop_act c) p = (c = Callback \<longrightarrow> monitor p = Cb_stopping)"
| "holder_ok (Stop_return c) p = (c = Callback \<longrightarrow> monitor p = Cb_stopping)"
| "holder_ok _ p = True"

fun monitor_ok :: "monitor_pc \<Rightarrow> io_pool \<Rightarrow> bool" where
  "monitor_ok No_monitor p = (m_cycle_active p = setting_up (m_mutex p) \<and>
     (setting_up (m_mutex p) \<or> m_workers p = []))"
| "monitor_ok Joining p = (m_cycle_active p \<and> length (m_workers p) = m_no_workers p)"
| "monitor_ok Publishing p = (m_cycle_active p \<and> m_workers p = [] \<and> context_stopped p)"
| "monitor_ok _ p = (m_cycle_active p \<and> m_workers p = [] \<and> context_stopped p \<and> has_stopped_callback p)"

definition pool_inv :: "io_pool \<Rightarrow> bool" where
  "pool_inv p \<longleftrightarrow> m_no_workers p > 0 \<and> holder_ok (m_mutex p) p \<and> monitor_ok (monitor p) p \<and>
    (W_done \<in> set (m_workers p) \<longrightarrow> context_stopped p) \<and>
    (m_guard p \<longrightarrow> m_cycle_active p \<and> \<not> context_stopped p) \<and>
    (m_cb_thread_id p = in_callback (monitor p)) \<and>
    (callbacks p + (if has_stopped_callback p \<and> monitor p = Joining then 1 else 0) =
       (if has_stopped_callback p then cycles p else 0)) \<and>
    (length (filter (\<lambda>r. r = Inr True) (run_results p)) +
       (if m_mutex p = Run_returning then 1 else 0) = cycles p)"

lemmas pool_defs = pool_run_in_callback_def pool_run_def run_check_def run_claim_def run_spawn_worker_def
  run_spawn_monitor_def run_return_def run_spawn_failed_def run_failed_joined_def
  pool_stop_check_def pool_stop_act_def monitor_joined_def monitor_called_def monitor_publish_def
  set_worker_def stop_if_idle_def

lemma not_has_work_guard: "\<not> has_work p \<Longrightarrow> \<not> m_guard p"
  by (simp add: has_work_def)

lemma pool_inv_init: "pool_init p \<Longrightarrow> pool_inv p"
  by (auto elim!: pool_init.cases simp: pool_create_def pool_inv_def Let_def)

lemma done_set_update:
  "W_done \<in> set (xs[i := w]) \<Longrightarrow> w = W_done \<or> W_done \<in> set xs"
  using set_update_subset_insert [of xs i w] by auto

text \<open>Steps that neither the holder of the mutex nor the monitor notices.\<close>

lemma holder_ok_frame:
  assumes "holder_ok h p" and "context_stopped p \<longrightarrow> context_stopped q"
    and "m_cycle_active q = m_cycle_active p" and "monitor q = monitor p"
    and "length (m_workers q) = length (m_workers p)" and "m_no_workers q = m_no_workers p"
  shows "holder_ok h q"
  using assms by (cases h) auto

lemma monitor_ok_frame:
  assumes "monitor_ok m p" and "context_stopped p \<longrightarrow> context_stopped q"
    and "m_cycle_active q = m_cycle_active p" and "setting_up (m_mutex q) = setting_up (m_mutex p)"
    and "length (m_workers q) = length (m_workers p)" and "m_no_workers q = m_no_workers p"
    and "has_stopped_callback q = has_stopped_callback p"
  shows "monitor_ok m q"
  using assms by (cases m) (auto simp flip: length_0_conv)

lemma pool_inv_frame:
  assumes "pool_inv p" and "context_stopped p \<longrightarrow> context_stopped q"
    and "m_cycle_active q = m_cycle_active p" and "m_mutex q = m_mutex p" and "monitor q = monitor p"
    and "length (m_workers q) = length (m_workers p)" and "m_no_workers q = m_no_workers p"
    and "has_stopped_callback q = has_stopped_callback p" and "m_guard q = m_guard p"
    and "m_guard q \<longrightarrow> \<not> context_stopped q" and "W_done \<in> set (m_workers q) \<longrightarrow> context_stopped q"
    and "m_cb_thread_id q = m_cb_thread_id p" and "callbacks q = callbacks p" and "cycles q = cycles p"
    and "filter (\<lambda>r. r = Inr True) (run_results q) = filter (\<lambda>r. r = Inr True) (run_results p)"
  shows "pool_inv q"
  using assms holder_ok_frame [of "m_mutex p" p q] monitor_ok_frame [of "monitor p" p q]
  by (simp add: pool_inv_def)

lemma pool_inv_guard: "pool_inv p \<Longrightarrow> m_guard p \<Longrightarrow> \<not> context_stopped p"
  and pool_inv_done: "pool_inv p \<Longrightarrow> W_done \<in> set (m_workers p) \<Longrightarrow> context_stopped p"
  and pool_inv_holder: "pool_inv p \<Longrightarrow> m_mutex p = h \<Longrightarrow> holder_ok h p"
  and pool_inv_monitor: "pool_inv p \<Longrightarrow> monitor p = m \<Longrightarrow> monitor_ok m p"
  by (auto simp: pool_inv_def)

lemma pool_inv_stop_return:
  assumes "pool_inv p" and "m_mutex p = Stop_return c"
  shows "pool_inv (pool_stop_return c p)"
proof (cases c)
  case Callback
  then show ?thesis using assms by (auto simp: pool_inv_def)
next
  case Outside
  then show ?thesis using assms monitor_ok_frame [of "monitor p" p "p\<lparr>m_mutex := Free\<rparr>"]
    by (simp add: pool_inv_def)
next
  case (Handler i)
  then show ?thesis
    using assms monitor_ok_frame [of "monitor p" p "pool_stop_return (Handler i) p"]
    by (auto simp: pool_inv_def set_worker_def dest!: done_set_update)
qed

lemma pool_inv_handler_enters:
  assumes "pool_inv p" and "m_mutex p = Free"
  shows "pool_inv (pool_stop_enter (Handler i) p)"
  using assms
    monitor_ok_frame [of "monitor p" p "pool_stop_enter (Handler i) p"]
  by (auto simp: pool_inv_def set_worker_def dest!: done_set_update)

text \<open>Steps that only move the holder of the mutex.\<close>

lemma pool_inv_mutex:
  assumes "pool_inv p" and "setting_up h = setting_up (m_mutex p)"
    and "holder_ok h p" and "h \<noteq> Run_returning" and "m_mutex p \<noteq> Run_returning"
  shows "pool_inv (p\<lparr>m_mutex := h\<rparr>)"
  using assms monitor_ok_frame [of "monitor p" p "p\<lparr>m_mutex := h\<rparr>"]
    holder_ok_frame [of h p "p\<lparr>m_mutex := h\<rparr>"]
  by (simp add: pool_inv_def)

text \<open>Steps of the monitor.\<close>

lemma holder_ok_monitor:
  assumes "holder_ok h p" and "monitor p \<noteq> No_monitor" and "monitor p \<noteq> Cb_stopping"
    and "m_cycle_active q \<longrightarrow> m_cycle_active p" and "context_stopped q = context_stopped p"
  shows "holder_ok h q"
  using assms by (cases h) auto

lemma not_setting_up: "holder_ok h p \<Longrightarrow> monitor p \<noteq> No_monitor \<Longrightarrow> \<not> setting_up h"
  by (cases h) auto

lemma pool_inv_monitor_step:
  assumes "pool_inv p" and "monitor p \<in> {In_callback, Publishing}"
    and "m \<in> {Cb_wants_stop, Publishing} \<and> monitor p = In_callback \<and> act \<or> m = No_monitor \<and> \<not> act"
  shows "pool_inv (p\<lparr>m_cycle_active := act, m_cb_thread_id := in_callback m, monitor := m\<rparr>)"
proof -
  have h: "holder_ok (m_mutex p) p" and k: "monitor_ok (monitor p) p"
    using assms(1) by (simp_all add: pool_inv_def)
  have "holder_ok (m_mutex p) (p\<lparr>m_cycle_active := act, m_cb_thread_id := in_callback m, monitor := m\<rparr>)"
    by (rule holder_ok_monitor [OF h]) (use assms(2) k in auto)
  moreover have "\<not> setting_up (m_mutex p)" using not_setting_up [OF h] assms(2) by auto
  moreover have "\<not> m_guard p" using assms(1,2) k by (auto simp: pool_inv_def)
  ultimately show ?thesis using assms k by (auto simp: pool_inv_def)
qed

lemma pool_inv_stop_act:
  assumes "pool_inv p" and "m_mutex p = Stop_act c"
  shows "pool_inv (pool_stop_act c p)"
  using assms monitor_ok_frame [of "monitor p" p "pool_stop_act c p"]
  by (simp add: pool_inv_def pool_stop_act_def)

lemma pool_inv_spawn_failed:
  assumes "pool_inv p" and "m_mutex p = Run_spawning"
  shows "pool_inv (run_spawn_failed e p)"
  using assms monitor_ok_frame [of "monitor p" p "run_spawn_failed e p"]
  by (auto simp: pool_inv_def run_spawn_failed_def)

lemma pool_inv_run_check:
  assumes "pool_inv p" and "m_mutex p = Run_check"
  shows "pool_inv (run_check p)"
proof -
  have "pool_inv (p\<lparr>m_mutex := Free\<rparr>)" by (rule pool_inv_mutex [OF assms(1)]) (simp_all add: assms(2))
  then have "pool_inv (p\<lparr>m_mutex := Free, run_results := run_results p @ [Inr False]\<rparr>)"
    by (rule pool_inv_frame) (use pool_inv_guard [OF assms(1)] pool_inv_done [OF assms(1)] in \<open>auto\<close>)
  then show ?thesis using assms by (auto simp: run_check_def intro!: pool_inv_mutex)
qed

lemma pool_inv_joins:
  assumes "pool_inv p" and "monitor p = Joining" and "list_all (\<lambda>w. w = W_done) (m_workers p)"
  shows "pool_inv (monitor_joined p)"
proof -
  have "m_workers p \<noteq> []" using assms(1,2) by (auto simp: pool_inv_def)
  then have "context_stopped p"
    using pool_inv_done [OF assms(1)] assms(3) by (cases "m_workers p") auto
  moreover have "holder_ok (m_mutex p) (monitor_joined p)"
    by (rule holder_ok_monitor [of _ p]) (use assms(1,2) in \<open>auto simp: pool_inv_def monitor_joined_def\<close>)
  ultimately show ?thesis using assms(1,2) by (auto simp: pool_inv_def monitor_joined_def)
qed

lemma pool_inv_claim:
  assumes "pool_inv p" and "m_mutex p = Run_claim"
  shows "pool_inv (run_claim p)"
proof -
  have i: "\<not> m_cycle_active p" using pool_inv_holder [OF assms] by simp
  then have m: "monitor p = No_monitor"
    using pool_inv_monitor [OF assms(1), of "monitor p"] by (cases "monitor p") auto
  then have "m_workers p = []" using pool_inv_monitor [OF assms(1) m] assms(2) by simp
  with m assms show ?thesis by (simp add: pool_inv_def run_claim_def)
qed

lemma pool_inv_failed_joined:
  assumes "pool_inv p" and "m_mutex p = Run_failed e"
  shows "pool_inv (run_failed_joined e p)"
proof -
  have "monitor p = No_monitor" "\<not> m_guard p"
    using pool_inv_holder [OF assms] pool_inv_guard [OF assms(1)] by auto
  then show ?thesis using assms by (simp add: pool_inv_def run_failed_joined_def)
qed

lemma pool_inv_run_return:
  assumes "pool_inv p" and "m_mutex p = Run_returning"
  shows "pool_inv (run_return p)"
  using assms monitor_ok_frame [of "monitor p" p "run_return p"]
  by (simp add: pool_inv_def run_return_def)

lemma pool_inv_spawns:
  assumes "pool_inv p" and "m_mutex p = Run_spawning"
  shows "length (m_workers p) < m_no_workers p \<Longrightarrow> pool_inv (run_spawn_worker p)"
    and "length (m_workers p) = m_no_workers p \<Longrightarrow> pool_inv (run_spawn_monitor p)"
proof -
  have m: "monitor p = No_monitor" using pool_inv_holder [OF assms] by simp
  have "m_cycle_active p" using pool_inv_monitor [OF assms(1) m] assms(2) by simp
  then show "length (m_workers p) < m_no_workers p \<Longrightarrow> pool_inv (run_spawn_worker p)"
    and "length (m_workers p) = m_no_workers p \<Longrightarrow> pool_inv (run_spawn_monitor p)"
    using assms m by (simp_all add: pool_inv_def run_spawn_worker_def run_spawn_monitor_def)
qed

lemma pool_inv_workers:
  assumes "pool_inv p" and "w = W_done \<longrightarrow> context_stopped p"
  shows "pool_inv (set_worker i w p)"
  by (rule pool_inv_frame [OF assms(1)])
    (use assms in \<open>auto simp: set_worker_def dest: pool_inv_guard pool_inv_done dest!: done_set_update\<close>)

lemma pool_inv_queued:
  assumes "pool_inv p"
  shows "pool_inv (p\<lparr>queued := n\<rparr>)"
  by (rule pool_inv_frame [OF assms])
    (use pool_inv_guard [OF assms] pool_inv_done [OF assms] in auto)

lemma pool_inv_context_stops:
  "pool_inv p \<Longrightarrow> \<not> m_guard p \<Longrightarrow> pool_inv (p\<lparr>context_stopped := True\<rparr>)"
  by (erule pool_inv_frame) auto

lemma pool_inv_step:
  assumes "pool_inv p" and "pool_step p ev p'"
  shows "pool_inv p'"
proof -
  have step: "next_pool ev p = Some p'" using assms(2) by (simp add: pool_step_def)
  show ?thesis
  proof (cases ev)
    case (Finishes i)
    then show ?thesis
      using step pool_inv_workers [OF assms(1), of W_idle i] pool_inv_context_stops not_has_work_guard
      by (auto simp: stop_if_idle_def split: if_splits)
  next
    case (Returns i)
    then have "\<not> m_guard p" "p' = set_worker i W_done (p\<lparr>context_stopped := True\<rparr>)"
      using step pool_inv_guard [OF assms(1)] not_has_work_guard [of p]
      by auto
    then show ?thesis using pool_inv_workers pool_inv_context_stops [OF assms(1)] by simp
  next
    case Stop_returns
    then show ?thesis using step assms(1) pool_inv_stop_return
      by (auto split: holder.splits)
  next
    case Stops
    then show ?thesis using step assms(1) pool_inv_stop_act
      by (auto split: holder.splits)
  next
    case Checks_stop
    then show ?thesis using step assms(1) pool_inv_mutex pool_inv_holder [OF assms(1)]
      by (fastforce simp: pool_stop_check_def split: holder.splits if_splits)
  next
    case Callback_runs
    have "pool_inv (pool_run_in_callback p)"
      by (rule pool_inv_frame [OF assms(1)])
        (use pool_inv_guard [OF assms(1)] pool_inv_done [OF assms(1)] in \<open>auto simp: pool_run_in_callback_def\<close>)
    with Callback_runs step show ?thesis by auto
  next
    case Callback_returns
    then have c: "monitor p = In_callback" and "p' = monitor_called p"
      using step by auto
    moreover have "m_cycle_active p" using pool_inv_monitor [OF assms(1) c] by simp
    ultimately show ?thesis using pool_inv_monitor_step [OF assms(1), of Publishing True]
      by (cases p) (simp add: monitor_called_def)
  next
    case Callback_stops
    then have c: "monitor p = In_callback" and "p' = p\<lparr>monitor := Cb_wants_stop\<rparr>"
      using step by auto
    moreover have "m_cycle_active p" using pool_inv_monitor [OF assms(1) c] by simp
    moreover have "m_cb_thread_id p" using assms(1) c by (simp add: pool_inv_def)
    ultimately show ?thesis using pool_inv_monitor_step [OF assms(1), of Cb_wants_stop True] by (cases p) simp
  next
    case Publishes
    then have c: "monitor p = Publishing" and "p' = monitor_publish p"
      using step by auto
    moreover have "\<not> m_cb_thread_id p" using assms(1) c by (simp add: pool_inv_def)
    ultimately show ?thesis using pool_inv_monitor_step [OF assms(1), of No_monitor False]
      by (cases p) (simp add: monitor_publish_def)
  next
    case Failed_joined
    then show ?thesis using step pool_inv_failed_joined [OF assms(1)]
      by (auto split: if_splits holder.splits)
  next
    case Claims
    then show ?thesis using step pool_inv_claim [OF assms(1)]
      by auto
  next
    case Run_returns
    then show ?thesis using step pool_inv_run_return [OF assms(1)]
      by auto
  next
    case (Takes i)
    then show ?thesis using step pool_inv_workers [OF pool_inv_queued [OF assms(1)]]
      by auto
  next
    case (Handler_stops i)
    then show ?thesis using step pool_inv_workers [OF assms(1)]
      by auto
  next
    case (Handler_enters i)
    then show ?thesis using step pool_inv_handler_enters [OF assms(1)]
      by auto
  next
    case Post
    then show ?thesis using step pool_inv_queued [OF assms(1)] by auto
  next
    case Calls_run
    then show ?thesis using step pool_inv_mutex [OF assms(1), of Run_check]
      by (auto simp: pool_run_def split: if_splits)
  next
    case Calls_stop
    then show ?thesis using step pool_inv_mutex [OF assms(1), of "Stop_check Outside"]
      by auto
  next
    case Checks_run
    then show ?thesis using step pool_inv_run_check [OF assms(1)]
      by auto
  next
    case Wakes_run
    then show ?thesis using step pool_inv_mutex [OF assms(1), of Run_check]
      by auto
  next
    case Spawns_worker
    then have "m_mutex p = Run_spawning" "length (m_workers p) < m_no_workers p" "p' = run_spawn_worker p"
      using step by auto
    then show ?thesis using pool_inv_spawns [OF assms(1)] by simp
  next
    case Spawns_monitor
    then have "m_mutex p = Run_spawning" "length (m_workers p) = m_no_workers p" "p' = run_spawn_monitor p"
      using step by auto
    then show ?thesis using pool_inv_spawns [OF assms(1)] by simp
  next
    case (Spawn_fails e)
    then show ?thesis using step pool_inv_spawn_failed [OF assms(1)]
      by auto
  next
    case Callback_enters
    then have "monitor p = Cb_wants_stop" "m_mutex p = Free" "p' = pool_stop_enter Callback p"
      using step by auto
    then show ?thesis using assms(1) pool_inv_monitor [OF assms(1), of Cb_wants_stop] pool_inv_guard [OF assms(1)]
      by (auto simp: pool_inv_def)
  next
    case Joins
    then show ?thesis using step pool_inv_joins [OF assms(1)]
      by auto
  qed
qed

interpretation pool_system: invariant_system pool_init pool_step pool_inv
  by unfold_locales (fact pool_inv_init, rule pool_inv_step)

section \<open>Cycles\<close>

text \<open>
  C19: When the pool is stopped no thread of it is left and no guard is held, and the stopped callback
  has run once for every cycle \<open>run()\<close> has announced; while the callback runs all workers have been
  joined, the context has stopped and the pool is stopping.
\<close>

theorem pool_stopped_callback_once:
  assumes "reach pool_init pool_step p"
  shows "(pool_state p = Pool_stopped \<longrightarrow> m_workers p = [] \<and> monitor p = No_monitor \<and> \<not> m_guard p) \<and>
    (m_cb_thread_id p \<longrightarrow> m_workers p = [] \<and> pool_state p = Pool_stopping) \<and>
    (monitor p \<noteq> Joining \<longrightarrow> callbacks p = (if has_stopped_callback p then cycles p else 0)) \<and>
    (m_mutex p = Free \<longrightarrow> cycles p = length (filter (\<lambda>r. r = Inr True) (run_results p)))"
proof -
  have inv: "pool_inv p" by (rule pool_system.reach_inv [OF assms])
  then have k: "monitor_ok (monitor p) p" by (simp add: pool_inv_def)
  have "monitor p = No_monitor" if "\<not> m_cycle_active p"
    using that k by (cases "monitor p") simp_all
  then have "m_workers p = [] \<and> monitor p = No_monitor" if "\<not> m_cycle_active p"
    using that k by fastforce
  moreover have "m_workers p = [] \<and> context_stopped p \<and> m_cycle_active p" if "in_callback (monitor p)"
    using that k by (cases "monitor p") simp_all
  moreover have "\<not> m_guard p" if "\<not> m_cycle_active p" using that inv by (simp add: pool_inv_def)
  moreover have "m_cb_thread_id p = in_callback (monitor p)" using inv by (simp add: pool_inv_def)
  moreover have "callbacks p = (if has_stopped_callback p then cycles p else 0)" if "monitor p \<noteq> Joining"
    using that inv by (simp add: pool_inv_def)
  moreover have "cycles p = length (filter (\<lambda>r. r = Inr True) (run_results p))" if "m_mutex p = Free"
    using that inv by (simp add: pool_inv_def)
  ultimately show ?thesis by (simp add: pool_state_def)
qed

text \<open>A guardless pool runs out of work, is run again, and a third call finds it stopping.\<close>

lemmas pool_eval = guarded_def at_worker_def pool_create_def Let_def pool_defs has_work_def

definition drained_run :: "pool_event list" where
  "drained_run = [Post, Calls_run, Checks_run, Claims, Spawns_worker, Spawns_monitor, Run_returns,
     Takes 0, Finishes 0, Returns 0, Joins, Callback_returns, Publishes]"

lemma pool_stopped_callback_once_witness:
  "\<exists>p. reach pool_init pool_step p \<and> pool_state p = Pool_stopped \<and> m_workers p = [] \<and>
     callbacks p = 1 \<and> cycles p = 1 \<and> run_results p = [Inr True] \<and> \<not> m_guard p"
proof -
  let ?p = "(pool_create 0 1 False True)
    \<lparr>context_stopped := True, cycles := 1, callbacks := 1, run_results := [Inr True]\<rparr>"
  have "exec_run next_pool drained_run (pool_create 0 1 False True) = Some ?p"
    by (simp add: drained_run_def pool_eval)
  then have r: "reach pool_init pool_step ?p" by (rule pool_run_reach) (rule pool_init.intros)
  show ?thesis using pool_stopped_callback_once [OF r] r
    by (intro exI [of _ ?p]) (simp add: pool_create_def pool_state_def)
qed

section \<open>Winding down\<close>

text \<open>
  The steps of a pool that is winding down: everything but the calls of users from outside and from
  the handlers and the callback, which have returned or return in their next step.
\<close>

fun winding :: "pool_event \<Rightarrow> bool" where
  "winding (Finishes _) = True" | "winding (Returns _) = True" | "winding (Handler_enters _) = True"
| "winding Checks_run = True" | "winding Spawns_worker = True" | "winding Spawns_monitor = True"
| "winding Run_returns = True" | "winding Failed_joined = True" | "winding Callback_enters = True"
| "winding Checks_stop = True" | "winding Stops = True" | "winding Stop_returns = True"
| "winding Joins = True" | "winding Callback_returns = True" | "winding Publishes = True"
| "winding _ = False"

text \<open>How many of them are left.\<close>

fun worker_left :: "pool_worker \<Rightarrow> nat" where
  "worker_left W_idle = 1" | "worker_left W_handling = 2" | "worker_left W_stopping = 2"
| "worker_left W_wants_stop = 9" | "worker_left W_done = 0"

fun monitor_left :: "monitor_pc \<Rightarrow> nat" where
  "monitor_left No_monitor = 0" | "monitor_left Publishing = 1" | "monitor_left In_callback = 2"
| "monitor_left Cb_stopping = 2" | "monitor_left Cb_wants_stop = 9" | "monitor_left Joining = 3"

fun holder_left :: "nat \<Rightarrow> holder \<Rightarrow> nat" where
  "holder_left n Free = 0" | "holder_left n Run_check = 3" | "holder_left n Run_waiting = 2"
| "holder_left n Run_claim = 2" | "holder_left n Run_spawning = 2 * n + 5"
| "holder_left n (Run_failed _) = 1" | "holder_left n Run_returning = 1"
| "holder_left n (Stop_check _) = 6" | "holder_left n (Stop_act _) = 5"
| "holder_left n (Stop_return _) = 4"

definition steps_left :: "io_pool \<Rightarrow> nat" where
  "steps_left p = holder_left (m_no_workers p - length (m_workers p)) (m_mutex p) +
     sum_list (map worker_left (m_workers p)) + monitor_left (monitor p)"

lemma worker_left_update:
  "i < length ws \<Longrightarrow>
    sum_list (map worker_left (ws[i := w])) + worker_left (ws ! i) =
    sum_list (map worker_left ws) + worker_left w"
  by (induction ws arbitrary: i) (auto split: nat.splits)

lemma worker_left_le: "sum_list (map worker_left ws) \<le> 9 * length ws"
proof (induction ws)
  case (Cons w ws)
  then show ?case by (cases w) auto
qed simp

lemma holder_left_unused: "\<not> setting_up h \<Longrightarrow> holder_left m h = holder_left n h"
  by (cases h) auto

lemma worker_left_set:
  "sum_list (map worker_left (ws[i := w])) \<le> sum_list (map worker_left ws) + worker_left w"
  using worker_left_update [of i ws w] by (cases "i < length ws") (auto simp: list_update_beyond)

text \<open>Every such step of a pool that is winding down counts, and it stays so until it has stopped.\<close>

lemma joins_steps_left:
  assumes "pool_inv p" and "monitor p = Joining"
  shows "steps_left (monitor_joined p) < steps_left p"
proof -
  have "holder_ok (m_mutex p) p" using assms(1) by (simp add: pool_inv_def)
  then have "\<not> setting_up (m_mutex p)" using not_setting_up assms(2) by simp
  then have "holder_left (m_no_workers p) (m_mutex p) =
      holder_left (m_no_workers p - length (m_workers p)) (m_mutex p)"
    by (rule holder_left_unused)
  then show ?thesis using assms(2) by (simp add: steps_left_def monitor_joined_def)
qed

lemma stop_return_steps_left:
  assumes "pool_inv p" and "m_mutex p = Stop_return c"
  shows "steps_left (pool_stop_return c p) < steps_left p"
proof (cases c)
  case (Handler i)
  then show ?thesis using assms(2) worker_left_set [of "m_workers p" i W_handling]
    by (simp add: steps_left_def set_worker_def)
qed (use assms pool_inv_holder [OF assms] in \<open>auto simp: steps_left_def\<close>)

lemma winding_step:
  assumes "pool_step p ev p'" and "winding ev" and "pool_inv p" and "pool_state p = Pool_stopping"
  shows "steps_left p' < steps_left p \<and> pool_state p' \<in> {Pool_stopping, Pool_stopped}"
proof -
  have step: "next_pool ev p = Some p'" and c: "m_cycle_active p" "context_stopped p"
    using assms(1,4) by (auto simp: pool_step_def pool_state_def split: if_splits)
  have st: "pool_state p' \<in> {Pool_stopping, Pool_stopped}" if "context_stopped p'"
    using that by (auto simp: pool_state_def)
  show ?thesis
  proof (cases ev)
    case (Finishes i)
    then show ?thesis using step c st worker_left_update [of i "m_workers p" W_idle]
      by (auto simp: steps_left_def at_worker_def stop_if_idle_def set_worker_def)
  next
    case (Returns i)
    then show ?thesis using step c st worker_left_update [of i "m_workers p" W_done]
      by (auto simp: steps_left_def at_worker_def set_worker_def)
  next
    case (Handler_enters i)
    then show ?thesis using step c st worker_left_update [of i "m_workers p" W_stopping]
      by (auto simp: steps_left_def at_worker_def set_worker_def)
  next
    case Checks_run
    then show ?thesis using step c st by (auto simp: steps_left_def run_check_def split: if_splits)
  next
    case Spawns_worker
    then show ?thesis using step c st by (auto simp: steps_left_def run_spawn_worker_def)
  next
    case Spawns_monitor
    then have "monitor p = No_monitor" using step pool_inv_holder [OF assms(3), of Run_spawning] by simp
    with Spawns_monitor show ?thesis using step c st by (auto simp: steps_left_def run_spawn_monitor_def)
  next
    case Stop_returns
    then obtain k where k: "m_mutex p = Stop_return k" "p' = pool_stop_return k p"
      using step by (auto split: holder.splits)
    then have "context_stopped p'" using c by (cases k) (simp_all add: set_worker_def)
    with k st show ?thesis using stop_return_steps_left [OF assms(3) k(1)] by simp
  next
    case Joins
    then have "p' = monitor_joined p" "monitor p = Joining" using step by auto
    then show ?thesis using joins_steps_left [OF assms(3)] c st by (simp add: monitor_joined_def)
  qed (use assms(2) step c st in \<open>auto simp: steps_left_def run_return_def run_failed_joined_def
      pool_stop_check_def pool_stop_act_def monitor_called_def monitor_publish_def pool_state_def
      split: holder.splits\<close>)
qed

lemma winding_stopped:
  assumes "pool_step p ev p'" and "winding ev" and "pool_state p = Pool_stopped" and "pool_inv p"
  shows "pool_state p' = Pool_stopped"
proof -
  have step: "next_pool ev p = Some p'" and c: "\<not> m_cycle_active p"
    using assms(1,3) by (auto simp: pool_step_def pool_state_def split: if_splits)
  have st: "pool_state p' = Pool_stopped" if "\<not> m_cycle_active p'"
    using that by (auto simp: pool_state_def)
  show ?thesis
  proof (cases ev)
    case Stop_returns
    then obtain k where "p' = pool_stop_return k p" using step by (auto split: holder.splits)
    then show ?thesis using c st by (cases k) (simp_all add: set_worker_def)
  qed (use assms(2) step c st in \<open>auto simp: pool_defs split: holder.splits if_splits\<close>)
qed

text \<open>A thread in the middle of \<open>stop_async()\<close> is the one that holds the mutex.\<close>

fun stop_caller :: "holder \<Rightarrow> caller option" where
  "stop_caller (Stop_check c) = Some c" | "stop_caller (Stop_act c) = Some c"
| "stop_caller (Stop_return c) = Some c" | "stop_caller _ = None"

definition caller_inv :: "io_pool \<Rightarrow> bool" where
  "caller_inv p \<longleftrightarrow>
     (\<forall>i < length (m_workers p). m_workers p ! i = W_stopping \<longrightarrow> stop_caller (m_mutex p) = Some (Handler i)) \<and>
     (monitor p = Cb_stopping \<longrightarrow> stop_caller (m_mutex p) = Some Callback)"

lemma caller_inv_step:
  assumes "caller_inv p" and "pool_step p ev p'"
  shows "caller_inv p'"
proof -
  have step: "next_pool ev p = Some p'" using assms(2) by (simp add: pool_step_def)
  show ?thesis
  proof (cases ev)
    case Stop_returns
    then obtain k where k: "m_mutex p = Stop_return k" "p' = pool_stop_return k p"
      using step by (auto split: holder.splits)
    show ?thesis
    proof (cases k)
      case (Handler j)
      have "(m_workers p)[j := W_handling] ! i \<noteq> W_stopping" if "i < length (m_workers p)" for i
        using that assms(1) k(1) Handler by (cases "i = j") (auto simp: caller_inv_def)
      with Handler k assms(1) show ?thesis by (auto simp: caller_inv_def set_worker_def)
    qed (use k assms(1) in \<open>auto simp: caller_inv_def\<close>)
  qed (use assms(1) step in \<open>auto simp: caller_inv_def pool_defs at_worker_def nth_list_update nth_append
      split: holder.splits if_splits\<close>)
qed

lemma caller_inv_init: "pool_init p \<Longrightarrow> caller_inv p"
  by (auto simp: caller_inv_def pool_create_def Let_def elim!: pool_init.cases)

interpretation caller_system: invariant_system pool_init pool_step caller_inv
  by unfold_locales (fact caller_inv_init, rule caller_inv_step)

text \<open>
  The ways to get stuck: \<open>run()\<close> holds the mutex while it waits for the cycle to end, or while it joins
  the workers after a failure, and the callback or a handler of that cycle waits for the mutex in
  \<open>stop_async()\<close>.
\<close>

definition stuck :: "io_pool \<Rightarrow> bool" where
  "stuck p \<longleftrightarrow>
     (case m_mutex p of
        Run_waiting \<Rightarrow> monitor p = Cb_wants_stop \<or> W_wants_stop \<in> set (m_workers p)
      | Run_failed e \<Rightarrow> W_wants_stop \<in> set (m_workers p)
      | _ \<Rightarrow> False)"

lemma some_worker_winds:
  assumes "\<not> list_all (\<lambda>w. w = W_done) (m_workers p)" and "caller_inv p" and "context_stopped p"
    and "stop_caller (m_mutex p) = None"
  shows "(\<exists>ev p'. winding ev \<and> pool_step p ev p') \<or> m_mutex p \<noteq> Free \<and> W_wants_stop \<in> set (m_workers p)"
proof -
  obtain i where i: "i < length (m_workers p)" "m_workers p ! i \<noteq> W_done"
    using assms(1) by (auto simp: list_all_length)
  show ?thesis
  proof (cases "m_workers p ! i")
    case W_idle
    then have "pool_step p (Returns i) (set_worker i W_done (p\<lparr>context_stopped := True\<rparr>))"
      using i assms(3) by (simp add: pool_step_def at_worker_def)
    then show ?thesis using winding.simps(2) by blast
  next
    case W_handling
    then have "pool_step p (Finishes i) (stop_if_idle (set_worker i W_idle p))"
      using i by (simp add: pool_step_def at_worker_def)
    then show ?thesis using winding.simps(1) by blast
  next
    case W_wants_stop
    show ?thesis
    proof (cases "m_mutex p = Free")
      case True
      then have "pool_step p (Handler_enters i) (pool_stop_enter (Handler i) p)"
        using i W_wants_stop by (simp add: pool_step_def at_worker_def)
      then show ?thesis using winding.simps(3) by blast
    qed (use i W_wants_stop nth_mem [OF i(1)] in simp)
  qed (use i assms(2,4) in \<open>auto simp: caller_inv_def\<close>)
qed

lemma winding_enabled:
  assumes "pool_inv p" and "caller_inv p" and "pool_state p = Pool_stopping"
  shows "(\<exists>ev p'. winding ev \<and> pool_step p ev p') \<or> stuck p"
proof -
  have c: "m_cycle_active p" "context_stopped p"
    using assms(3) by (auto simp: pool_state_def split: if_splits)
  have w: "winding ev \<Longrightarrow> next_pool ev p = Some p' \<Longrightarrow> ?thesis" for ev p'
    by (auto simp: pool_step_def)
  have joining: ?thesis if "monitor p = Joining" "m_mutex p = Free \<or> m_mutex p = Run_waiting"
    using that w [of Joins] some_worker_winds [of p] assms(2) c
    by (cases "list_all (\<lambda>w. w = W_done) (m_workers p)") (auto simp: stuck_def)
  have k: "monitor_ok (monitor p) p" using assms(1) by (simp add: pool_inv_def)
  have calm: ?thesis if "m_mutex p = Free \<or> m_mutex p = Run_waiting"
  proof (cases "monitor p")
    case Cb_wants_stop
    then show ?thesis using that w [of Callback_enters] by (auto simp: stuck_def)
  next
    case Cb_stopping
    then show ?thesis using assms(2) that by (auto simp: caller_inv_def)
  qed (use that joining k c w [of Callback_returns] w [of Publishes] in auto)
  show ?thesis
  proof (cases "m_mutex p")
    case Run_claim
    then show ?thesis using pool_inv_holder [OF assms(1)] c by auto
  next
    case Run_spawning
    then have "length (m_workers p) \<le> m_no_workers p" using pool_inv_holder [OF assms(1)] by auto
    then show ?thesis using Run_spawning w [of Spawns_worker] w [of Spawns_monitor]
      by (cases "length (m_workers p) = m_no_workers p") auto
  next
    case (Run_failed e)
    then show ?thesis using w [of Failed_joined] some_worker_winds [of p] assms(2) c
      by (cases "list_all (\<lambda>w. w = W_done) (m_workers p)") (auto simp: stuck_def)
  qed (use calm w [of Checks_run] w [of Run_returns] w [of Checks_stop] w [of Stops]
      w [of Stop_returns] in auto)
qed

lemma winding_run:
  assumes "run pool_step p es p'" and "list_all winding es" and "pool_inv p"
  shows "(pool_state p = Pool_stopped \<longrightarrow> pool_state p' = Pool_stopped) \<and>
    (pool_state p = Pool_stopping \<longrightarrow> pool_state p' = Pool_stopped \<or>
       pool_state p' = Pool_stopping \<and> length es + steps_left p' \<le> steps_left p)"
  using assms
proof (induction rule: run.induct)
  case (run_Cons p e p' es p'')
  then have "pool_inv p'" using pool_inv_step by blast
  with run_Cons winding_step [of p e p'] winding_stopped [of p e p'] show ?case by auto
qed simp

lemma steps_left_le:
  assumes "pool_inv p"
  shows "steps_left p \<le> 11 * m_no_workers p + 15"
proof -
  have "length (m_workers p) \<le> m_no_workers p"
  proof (cases "monitor p = No_monitor")
    case True
    then show ?thesis using pool_inv_monitor [OF assms True] pool_inv_holder [OF assms refl]
      by (cases "m_mutex p") auto
  next
    case False
    then show ?thesis using pool_inv_monitor [OF assms refl] by (cases "monitor p") auto
  qed
  moreover have "holder_left (m_no_workers p - length (m_workers p)) (m_mutex p) \<le> 2 * m_no_workers p + 6"
    by (cases "m_mutex p") auto
  moreover have "monitor_left (monitor p) \<le> 9" by (cases "monitor p") auto
  ultimately show ?thesis using worker_left_le [of "m_workers p"] by (simp add: steps_left_def)
qed

text \<open>
  C20: A pool that is winding down, whatever the interleaving, is stopped after at most
  \<open>11 n + 15\<close> steps of its own once the users' code returns, and can always take such a step, except
  when stuck: \<open>run()\<close> holds the mutex while it waits for a cycle, or joins its workers after a failure,
  and a handler or the callback of that cycle waits for the mutex in \<open>stop_async()\<close>.
\<close>

theorem pool_winds_down:
  assumes "reach pool_init pool_step p" and "pool_state p = Pool_stopping"
    and "run pool_step p es p'" and "list_all winding es"
  shows "pool_state p' = Pool_stopped \<or>
    pool_state p' = Pool_stopping \<and> length es \<le> 11 * m_no_workers p + 15 \<and>
    ((\<exists>ev p''. winding ev \<and> pool_step p' ev p'') \<or> stuck p')"
proof -
  have inv: "pool_inv p" by (rule pool_system.reach_inv [OF assms(1)])
  have r: "reach pool_init pool_step p'" by (rule reach_run [OF assms(1,3)])
  show ?thesis
    using winding_run [OF assms(3,4) inv] steps_left_le [OF inv] assms(2)
      winding_enabled [OF pool_system.reach_inv [OF r] caller_system.reach_inv [OF r]]
    by auto
qed

text \<open>A handler of a guarded pool stops it.\<close>

definition handler_stop_run :: "pool_event list" where
  "handler_stop_run = [Calls_run, Checks_run, Claims, Spawns_worker, Spawns_monitor, Run_returns, Post,
     Takes 0, Handler_stops 0, Handler_enters 0, Checks_stop, Stops]"

lemma pool_step_run: "exec_run next_pool es p = Some p' \<Longrightarrow> run pool_step p es p'"
  by (rule exec_run_sound [of next_pool]) (simp add: pool_step_def)

lemma pool_winds_down_witness:
  "\<exists>p es p'. reach pool_init pool_step p \<and> pool_state p = Pool_stopping \<and> run pool_step p es p' \<and>
     length es = 4 \<and> pool_state p' = Pool_stopping \<and> (\<exists>ev p''. winding ev \<and> pool_step p' ev p'')"
proof -
  let ?q = "pool_create 0 1 True True"
  let ?p = "?q\<lparr>context_stopped := True, m_cycle_active := True, m_workers := [W_stopping],
    monitor := Joining, m_mutex := Stop_return (Handler 0), cycles := 1, run_results := [Inr True]\<rparr>"
  let ?es = "[Stop_returns, Finishes 0, Returns 0, Joins]"
  let ?p' = "?q\<lparr>context_stopped := True, m_cycle_active := True, m_cb_thread_id := True,
    monitor := In_callback, cycles := 1, callbacks := 1, run_results := [Inr True]\<rparr>"
  have "exec_run next_pool handler_stop_run ?q = Some ?p"
    by (simp add: handler_stop_run_def pool_eval)
  then have r: "reach pool_init pool_step ?p" by (rule pool_run_reach) (rule pool_init.intros)
  have e: "run pool_step ?p ?es ?p'" by (rule pool_step_run) (simp add: pool_eval)
  have s: "pool_state ?p = Pool_stopping" "pool_state ?p' = Pool_stopping" "\<not> stuck ?p'"
    by (simp_all add: pool_state_def stuck_def pool_create_def)
  have "list_all winding ?es" by simp
  then have "\<exists>ev p''. winding ev \<and> pool_step ?p' ev p''"
    using pool_winds_down [OF r s(1) e] s by simp
  with r e s show ?thesis by (intro exI [of _ ?p] exI [of _ ?es] exI [of _ ?p']) simp
qed

text \<open>
  The deadlock: \<open>run()\<close> is called while the stopped callback runs and takes the mutex before the
  callback calls \<open>stop_async()\<close>, which the header calls a safe no-op there.
\<close>

lemma callback_deadlock_stays:
  assumes "run pool_step p es p'" and "m_mutex p = Run_waiting" and "monitor p = Cb_wants_stop"
    and "m_workers p = []" and "m_cycle_active p"
  shows "m_mutex p' = Run_waiting \<and> monitor p' = Cb_wants_stop \<and> m_workers p' = [] \<and> m_cycle_active p'"
  using assms
proof (induction rule: run.induct)
  case (run_Cons p e p' es p'')
  then have "m_mutex p' = Run_waiting \<and> monitor p' = Cb_wants_stop \<and> m_workers p' = [] \<and> m_cycle_active p'"
    by (cases e) (auto simp: pool_step_def at_worker_def)
  with run_Cons show ?case by simp
qed simp

lemma stop_async_in_callback_deadlocks:
  "\<exists>p. reach pool_init pool_step p \<and> m_cb_thread_id p \<and>
     (\<forall>es p'. run pool_step p es p' \<longrightarrow> m_cycle_active p' \<and> m_mutex p' = Run_waiting \<and> monitor p' = Cb_wants_stop)"
proof -
  let ?q = "pool_create 0 1 False True"
  let ?es = "[Calls_run, Checks_run, Claims, Spawns_worker, Spawns_monitor, Run_returns, Returns 0, Joins,
    Calls_run, Checks_run, Callback_stops]"
  let ?p = "?q\<lparr>context_stopped := True, m_cycle_active := True, m_cb_thread_id := True,
    monitor := Cb_wants_stop, m_mutex := Run_waiting, cycles := 1, callbacks := 1, run_results := [Inr True]\<rparr>"
  have "exec_run next_pool ?es ?q = Some ?p" by (simp add: pool_eval)
  then have r: "reach pool_init pool_step ?p" by (rule pool_run_reach) (rule pool_init.intros)
  have "m_workers ?p = []" by (simp add: pool_create_def)
  then show ?thesis using r callback_deadlock_stays [of ?p] by (intro exI [of _ ?p]) auto
qed

end
