(* ===== verification/Timer.thy ===== *)
theory Timer
  imports Prelude
begin

text \<open>
  The sleeper (\<open>common/include/sg/accurate_sleeper.h\<close>, \<open>common/src/accurate_sleeper.cpp\<close>) and the timer
  thread built on it (\<open>common/include/sg/background_timer.h\<close>, \<open>common/src/background_timer.cpp\<close>), for a
  POSIX system.

  Clock readings, the times at which \<open>nanosleep\<close> is interrupted and the outcomes of the scheduler calls
  are arguments. \<open>timer_step\<close> has a rule for every action of the timer thread and of the threads that
  call it; a callback other than the task does not throw (that ends the program). \<open>timer_calls\<close> is a
  ghost: the calls of the callbacks in this run of the thread.
\<close>

section \<open>The sleeper\<close>

datatype tragedy = Auto | Sleep | Spin

text \<open>
  \<open>thread_policy\<close> is the scheduling policy of the thread that enabled real time, which the operating
  system holds. \<open>m_strategy\<close> has no initial value in the code: \<open>new_sleeper\<close> takes it as an argument.
\<close>

record sleeper =
  m_interval_ns :: u64
  m_realtime_enabled :: bool
  m_strategy :: tragedy
  m_previous_policy :: "nat option"
  thread_policy :: nat

definition new_sleeper :: "tragedy \<Rightarrow> nat \<Rightarrow> sleeper" where
  "new_sleeper garbage policy =
     \<lparr>m_interval_ns = 1000000000, m_realtime_enabled = False, m_strategy = garbage,
      m_previous_policy = None, thread_policy = policy\<rparr>"

text \<open>\<open>SCHED_FIFO\<close> with the priority one above the minimum.\<close>

definition realtime_policy :: nat where "realtime_policy = 1"

definition enable_realtime :: "bool \<Rightarrow> bool \<Rightarrow> sleeper \<Rightarrow> sleeper \<times> unit res" where
  "enable_realtime get_ok set_ok s =
     (if m_realtime_enabled s then (s, Inr ())
      else if \<not> get_ok then (s\<lparr>m_previous_policy := Some 0\<rparr>, Inl Runtime_error)
      else
        let s = s\<lparr>m_previous_policy := Some (thread_policy s)\<rparr>
        in if \<not> set_ok then (s, Inl Runtime_error)
           else (s\<lparr>thread_policy := realtime_policy, m_realtime_enabled := True\<rparr>, Inr ()))"

text \<open>The error \<open>ESRCH\<close>, the thread being gone, is not one.\<close>

definition disable_realtime :: "bool \<Rightarrow> bool \<Rightarrow> sleeper \<Rightarrow> sleeper \<times> unit res" where
  "disable_realtime set_ok esrch s =
     (if \<not> m_realtime_enabled s then (s, Inr ())
      else if \<not> set_ok \<and> \<not> esrch then (s, Inl Runtime_error)
      else
        (s\<lparr>thread_policy := (if set_ok then the (m_previous_policy s) else thread_policy s),
           m_realtime_enabled := False\<rparr>, Inr ()))"

definition choose_strategy :: "u64 \<Rightarrow> tragedy \<Rightarrow> tragedy" where
  "choose_strategy interval_ns strategy =
     (if strategy = Auto then if interval_ns > 1000000 then Sleep else Spin else strategy)"

definition sleeper_set_interval :: "bool \<Rightarrow> bool \<Rightarrow> bool \<Rightarrow> u64 \<Rightarrow> tragedy \<Rightarrow> sleeper \<Rightarrow> sleeper \<times> unit res" where
  "sleeper_set_interval get_ok set_ok esrch interval_ns strategy s =
     (let s = s\<lparr>m_strategy := choose_strategy interval_ns strategy\<rparr>
      in case (if m_strategy s = Sleep then disable_realtime set_ok esrch s else enable_realtime get_ok set_ok s)
         of (s, Inl e) \<Rightarrow> (s, Inl e) | (s, Inr _) \<Rightarrow> (s\<lparr>m_interval_ns := interval_ns\<rparr>, Inr ()))"

text \<open>\<open>tv_sec\<close> is computed in floating point, exactly so for intervals below \<open>2 ^ 53\<close> ns.\<close>

record timespec =
  tv_sec :: nat
  tv_nsec :: nat

definition to_timespec :: "nat \<Rightarrow> timespec" where
  "to_timespec interval = \<lparr>tv_sec = interval div 1000000000, tv_nsec = interval mod 1000000000\<rparr>"

definition of_timespec :: "timespec \<Rightarrow> nat" where
  "of_timespec ts = tv_sec ts * 1000000000 + tv_nsec ts"

text \<open>
  \<open>nanosleep\<close> in its loop: each interruption comes after some time and leaves the rest in the argument.
  The result is the time slept.
\<close>

fun nanosleep_loop :: "nat \<Rightarrow> nat list \<Rightarrow> nat" where
  "nanosleep_loop left [] = left"
| "nanosleep_loop left (e # es) = (if e < left then e + nanosleep_loop (left - e) es else left)"

text \<open>The tight loop: the first clock reading at which the interval has passed, if there is one.\<close>

fun spin :: "nat \<Rightarrow> nat \<Rightarrow> nat list \<Rightarrow> nat option" where
  "spin s interval [] = None"
| "spin s interval (now # nows) = (if now - s < interval then spin s interval nows else Some now)"

text \<open>The time \<open>sleep_remove_lag\<close> waits, none if the task took longer than the interval.\<close>

definition sleep_time :: "u64 \<Rightarrow> u64 \<Rightarrow> nat" where
  "sleep_time interval_ns remove_ns =
     (if remove_ns > interval_ns then 0 else unat (interval_ns - remove_ns))"

definition sleep_remove_lag :: "u64 \<Rightarrow> nat list \<Rightarrow> nat \<Rightarrow> nat list \<Rightarrow> sleeper \<Rightarrow> nat option" where
  "sleep_remove_lag remove_ns interrupts start clock s =
     (if remove_ns > m_interval_ns s then Some 0
      else
        let interval = unat (m_interval_ns s - remove_ns)
        in if m_strategy s = Spin
           then map_option (\<lambda>now. now - start) (spin start interval clock)
           else Some (nanosleep_loop (of_timespec (to_timespec interval)) interrupts))"

lemma of_to_timespec [simp]: "of_timespec (to_timespec n) = n"
  by (simp add: of_timespec_def to_timespec_def)

lemma tv_nsec_less [simp]: "tv_nsec (to_timespec n) < 1000000000"
  by (simp add: to_timespec_def)

lemma nanosleep_loop_total: "nanosleep_loop left es = left"
  by (induction left es rule: nanosleep_loop.induct) auto

lemma spin_Some:
  assumes "list_ex (\<lambda>now. now - s \<ge> interval) clock"
  shows "\<exists>now \<in> set clock. spin s interval clock = Some now \<and> now - s \<ge> interval"
  using assms by (induction clock) auto



text \<open>What the scheduler and the sleeper agree on.\<close>

definition sleeper_inv :: "nat \<Rightarrow> sleeper \<Rightarrow> bool" where
  "sleeper_inv policy s \<longleftrightarrow>
     (if m_realtime_enabled s
      then m_previous_policy s = Some policy \<and> thread_policy s = realtime_policy
      else thread_policy s = policy)"

fun set_intervals :: "bool \<Rightarrow> (u64 \<times> tragedy) list \<Rightarrow> sleeper \<Rightarrow> sleeper" where
  "set_intervals esrch [] s = s"
| "set_intervals esrch ((i, t) # calls) s =
     set_intervals esrch calls (fst (sleeper_set_interval True True esrch i t s))"

lemma sleeper_inv_set_interval:
  assumes "sleeper_inv policy s"
  shows "sleeper_inv policy (fst (sleeper_set_interval True True esrch i t s))"
    and "m_realtime_enabled (fst (sleeper_set_interval True True esrch i t s)) \<longleftrightarrow>
      m_strategy (fst (sleeper_set_interval True True esrch i t s)) \<noteq> Sleep"
  using assms
  by (auto simp: sleeper_inv_def sleeper_set_interval_def enable_realtime_def disable_realtime_def Let_def)

lemma set_intervals_inv:
  assumes "sleeper_inv policy s" and "calls = [] \<longrightarrow> (m_realtime_enabled s \<longleftrightarrow> m_strategy s \<noteq> Sleep)"
  shows "sleeper_inv policy (set_intervals esrch calls s) \<and>
    (m_realtime_enabled (set_intervals esrch calls s) \<longleftrightarrow> m_strategy (set_intervals esrch calls s) \<noteq> Sleep)"
  using assms
proof (induction esrch calls s rule: set_intervals.induct)
  case (2 esrch i t calls s)
  then show ?case using sleeper_inv_set_interval [OF 2(2)] by simp
qed simp

text \<open>
  Whatever sequence of intervals is set, as long as the scheduler calls succeed, the thread runs
  with the real-time policy exactly while the strategy is not \<open>Sleep\<close>; disabling real time, as the
  destructor does, always gives it back the policy it had before the first call.
\<close>

theorem sleeper_restores_policy:
  fixes esrch garbage policy i t calls
  defines "s \<equiv> set_intervals esrch ((i, t) # calls) (new_sleeper garbage policy)"
  shows "thread_policy s = (if m_strategy s \<noteq> Sleep then realtime_policy else policy) \<and>
    thread_policy (fst (disable_realtime True esrch s)) = policy \<and>
    snd (disable_realtime True esrch s) = Inr ()"
proof -
  have "sleeper_inv policy (new_sleeper garbage policy)" by (simp add: sleeper_inv_def new_sleeper_def)
  then have "sleeper_inv policy s \<and> (m_realtime_enabled s \<longleftrightarrow> m_strategy s \<noteq> Sleep)"
    unfolding s_def by (rule set_intervals_inv) simp
  then show ?thesis by (auto simp: sleeper_inv_def disable_realtime_def)
qed

section \<open>The timer\<close>

datatype timer_call = Called_started | Called_task "exn option" | Called_stopped "exn option"

text \<open>
  Where the timer thread is. \<open>T_blocked\<close>: the task has called \<open>set_interval\<close> or
  \<open>correct_for_task_delay\<close>, which want the mutex the thread holds while it runs the task.
\<close>

datatype timer_pc =
    T_none | T_started_cb | T_check | T_task | T_blocked | T_sleep u64 | T_leave | T_stopped_cb | T_finished

record timer =
  has_started_cb :: bool
  has_stopped_cb :: bool
  m_exception :: "exn option"
  m_stop_requested :: bool
  m_sleeper :: sleeper
  m_correct_for_task_delay :: bool
  m_is_running :: bool
  timer_pc :: timer_pc
  timer_calls :: "timer_call list"

definition new_timer :: "bool \<Rightarrow> bool \<Rightarrow> sleeper \<Rightarrow> timer" where
  "new_timer start_cb stopped_cb sl =
     \<lparr>has_started_cb = start_cb, has_stopped_cb = stopped_cb, m_exception = None,
      m_stop_requested = False, m_sleeper = sl, m_correct_for_task_delay = False,
      m_is_running = False, timer_pc = T_none, timer_calls = []\<rparr>"

text \<open>\<open>wait_for_stop()\<close> returns once the thread has finished; in the thread itself it throws.\<close>

fun timer_joinable :: "timer_pc \<Rightarrow> bool" where
  "timer_joinable T_none = True" | "timer_joinable T_finished = True" | "timer_joinable _ = False"

definition timer_wait_for_stop :: "bool \<Rightarrow> timer \<Rightarrow> unit res option" where
  "timer_wait_for_stop own_thread t =
     (if own_thread then Some (Inl Logic_error)
      else if timer_joinable (timer_pc t) then Some (Inr ()) else None)"

text \<open>
  \<open>start()\<close>: no result while it waits for the old thread. \<open>spawned\<close> says whether the thread could be
  created; if not, \<open>std::thread\<close> throws.
\<close>

definition timer_start :: "bool \<Rightarrow> bool \<Rightarrow> timer \<Rightarrow> (timer \<times> unit res) option" where
  "timer_start own_thread spawned t =
     (if m_is_running t then Some (t, Inl Runtime_error)
      else case timer_wait_for_stop own_thread t of
        None \<Rightarrow> None
      | Some (Inl e) \<Rightarrow> Some (t, Inl e)
      | Some (Inr _) \<Rightarrow>
          let t = t\<lparr>m_stop_requested := False, m_exception := None, m_is_running := True\<rparr>
          in if spawned then
               Some (t\<lparr>timer_pc := (if has_started_cb t then T_started_cb else T_check), timer_calls := []\<rparr>,
                     Inr ())
             else Some (t\<lparr>timer_pc := T_none\<rparr>, Inl (System_error 0)))"

definition timer_request_stop :: "timer \<Rightarrow> timer" where
  "timer_request_stop t = t\<lparr>m_stop_requested := True\<rparr>"

definition timer_set_interval :: "bool \<Rightarrow> bool \<Rightarrow> bool \<Rightarrow> u32 \<Rightarrow> tragedy \<Rightarrow> timer \<Rightarrow> timer \<times> unit res" where
  "timer_set_interval get_ok set_ok esrch interval_ns strategy t =
     (case sleeper_set_interval get_ok set_ok esrch (ucast interval_ns) strategy (m_sleeper t) of
        (sl, r) \<Rightarrow> (t\<lparr>m_sleeper := sl\<rparr>, r))"

definition correct_for_task_delay :: "bool \<Rightarrow> timer \<Rightarrow> timer" where
  "correct_for_task_delay correct t = t\<lparr>m_correct_for_task_delay := correct\<rparr>"

text \<open>The body of the thread.\<close>

definition timer_started :: "timer \<Rightarrow> timer" where
  "timer_started t = t\<lparr>timer_calls := timer_calls t @ [Called_started], timer_pc := T_check\<rparr>"

definition timer_check :: "timer \<Rightarrow> timer" where
  "timer_check t = t\<lparr>timer_pc := (if m_stop_requested t then T_leave else T_task)\<rparr>"

text \<open>The task has returned after \<open>taken\<close> ns, or thrown.\<close>

definition timer_task_done :: "u64 \<Rightarrow> unit res \<Rightarrow> timer \<Rightarrow> timer" where
  "timer_task_done taken r t =
     (case r of
        Inl e \<Rightarrow> t\<lparr>timer_calls := timer_calls t @ [Called_task (Some e)], m_exception := Some e,
                   timer_pc := T_leave\<rparr>
      | Inr _ \<Rightarrow> t\<lparr>timer_calls := timer_calls t @ [Called_task None],
                   timer_pc := T_sleep (if m_correct_for_task_delay t then taken else 0)\<rparr>)"

definition timer_slept :: "timer \<Rightarrow> timer" where
  "timer_slept t = t\<lparr>timer_pc := T_check\<rparr>"

definition timer_leave :: "timer \<Rightarrow> timer" where
  "timer_leave t =
     t\<lparr>m_is_running := False, timer_pc := (if has_stopped_cb t then T_stopped_cb else T_finished)\<rparr>"

definition timer_stopped :: "timer \<Rightarrow> timer" where
  "timer_stopped t =
     t\<lparr>timer_calls := timer_calls t @ [Called_stopped (m_exception t)], timer_pc := T_finished\<rparr>"

section \<open>Steps\<close>

datatype timer_event =
    Tm_starts bool | Tm_requests_stop | Tm_sets_interval u32 tragedy bool bool bool | Tm_corrects bool
  | Tm_started | Tm_checks | Tm_task_done u64 "unit res" | Tm_task_sets_interval | Tm_slept
  | Tm_leaves | Tm_stopped

text \<open>The thread holds the sleeper's mutex from before the task until after the sleep.\<close>

fun sleeper_locked :: "timer_pc \<Rightarrow> bool" where
  "sleeper_locked T_task = True" | "sleeper_locked T_blocked = True"
| "sleeper_locked (T_sleep _) = True" | "sleeper_locked _ = False"

fun sleeping :: "timer_pc \<Rightarrow> bool" where
  "sleeping (T_sleep _) = True" | "sleeping _ = False"

fun next_timer :: "timer_event \<Rightarrow> timer \<Rightarrow> timer option" where
  "next_timer (Tm_starts spawned) t = map_option fst (timer_start False spawned t)"
| "next_timer Tm_requests_stop t = Some (timer_request_stop t)"
| "next_timer (Tm_sets_interval ns st get_ok set_ok esrch) t =
     guarded (\<not> sleeper_locked (timer_pc t)) (fst (timer_set_interval get_ok set_ok esrch ns st t))"
| "next_timer (Tm_corrects c) t =
     guarded (\<not> sleeper_locked (timer_pc t)) (correct_for_task_delay c t)"
| "next_timer Tm_started t = guarded (timer_pc t = T_started_cb) (timer_started t)"
| "next_timer Tm_checks t = guarded (timer_pc t = T_check) (timer_check t)"
| "next_timer (Tm_task_done taken r) t = guarded (timer_pc t = T_task) (timer_task_done taken r t)"
| "next_timer Tm_task_sets_interval t = guarded (timer_pc t = T_task) (t\<lparr>timer_pc := T_blocked\<rparr>)"
| "next_timer Tm_slept t = guarded (sleeping (timer_pc t)) (timer_slept t)"
| "next_timer Tm_leaves t = guarded (timer_pc t = T_leave) (timer_leave t)"
| "next_timer Tm_stopped t = guarded (timer_pc t = T_stopped_cb) (timer_stopped t)"

definition timer_step :: "timer \<Rightarrow> timer_event \<Rightarrow> timer \<Rightarrow> bool" where
  "timer_step t ev t' \<longleftrightarrow> next_timer ev t = Some t'"

inductive timer_init :: "timer \<Rightarrow> bool" where
  "timer_init (new_timer start_cb stopped_cb sl)"

lemmas timer_defs = timer_request_stop_def timer_set_interval_def correct_for_task_delay_def
  timer_started_def timer_check_def timer_task_done_def timer_slept_def timer_leave_def timer_stopped_def

section \<open>The calls of a run\<close>

text \<open>What has been called when the thread is at a point.\<close>

definition timer_prologue :: "bool \<Rightarrow> nat \<Rightarrow> exn option \<Rightarrow> timer_call list" where
  "timer_prologue started n e =
     (if started then [Called_started] else []) @ replicate n (Called_task None) @
     (case e of None \<Rightarrow> [] | Some x \<Rightarrow> [Called_task (Some x)])"

lemma timer_prologue_simps [simp]:
  "timer_prologue st n None @ [Called_task None] = timer_prologue st (Suc n) None"
  "timer_prologue st n None @ [Called_task (Some e)] = timer_prologue st n (Some e)"
  "timer_prologue True 0 None = [Called_started]"
  "timer_prologue False 0 None = []"
  by (simp_all add: timer_prologue_def replicate_append_same)

fun calls_at :: "timer_pc \<Rightarrow> timer \<Rightarrow> nat \<Rightarrow> bool" where
  "calls_at T_none t n \<longleftrightarrow> True"
| "calls_at T_started_cb t n \<longleftrightarrow> n = 0 \<and> timer_calls t = [] \<and> m_exception t = None \<and> has_started_cb t"
| "calls_at T_leave t n \<longleftrightarrow> timer_calls t = timer_prologue (has_started_cb t) n (m_exception t)"
| "calls_at T_stopped_cb t n \<longleftrightarrow> timer_calls t = timer_prologue (has_started_cb t) n (m_exception t)"
| "calls_at T_finished t n \<longleftrightarrow>
     timer_calls t = timer_prologue (has_started_cb t) n (m_exception t) @
       (if has_stopped_cb t then [Called_stopped (m_exception t)] else [])"
| "calls_at _ t n \<longleftrightarrow> timer_calls t = timer_prologue (has_started_cb t) n None \<and> m_exception t = None"

fun running_at :: "timer_pc \<Rightarrow> bool" where
  "running_at T_stopped_cb = False" | "running_at T_finished = False" | "running_at _ = True"

definition timer_inv :: "timer \<Rightarrow> bool" where
  "timer_inv t \<longleftrightarrow> (\<exists>n. calls_at (timer_pc t) t n) \<and>
     (timer_pc t \<noteq> T_none \<longrightarrow> m_is_running t = running_at (timer_pc t)) \<and>
     (timer_pc t = T_stopped_cb \<longrightarrow> has_stopped_cb t)"

lemma timer_inv_step:
  assumes "timer_inv t" and "timer_step t ev t'"
  shows "timer_inv t'"
proof -
  have step: "next_timer ev t = Some t'" using assms(2) by (simp add: timer_step_def)
  obtain n where n: "calls_at (timer_pc t) t n" using assms(1) by (auto simp: timer_inv_def)
  have frame: "timer_inv t''" if "timer_pc t'' = timer_pc t" "timer_calls t'' = timer_calls t"
    "has_started_cb t'' = has_started_cb t" "has_stopped_cb t'' = has_stopped_cb t"
    "m_exception t'' = m_exception t" "m_is_running t'' = m_is_running t" for t''
    using assms(1) that n by (cases "timer_pc t") (auto simp: timer_inv_def intro!: exI [of _ n])
  show ?thesis
  proof (cases ev)
    case (Tm_starts spawned)
    show ?thesis
    proof (cases "m_is_running t")
      case True
      then show ?thesis using Tm_starts step assms(1) by (auto simp: timer_start_def)
    next
      case False
      then show ?thesis using Tm_starts step
        by (auto simp: timer_start_def timer_wait_for_stop_def Let_def timer_inv_def
            split: if_splits intro!: exI [of _ 0])
    qed
  next
    case Tm_requests_stop
    then show ?thesis using step by (auto simp: timer_request_stop_def intro!: frame)
  next
    case Tm_sets_interval
    then show ?thesis using step by (auto simp: timer_set_interval_def intro!: frame split: prod.splits)
  next
    case Tm_corrects
    then show ?thesis using step by (auto simp: correct_for_task_delay_def intro!: frame)
  next
    case Tm_task_done
    then have pc: "timer_pc t = T_task" using step by auto
    then have "m_is_running t" using assms(1) by (simp add: timer_inv_def)
    with pc Tm_task_done step n show ?thesis
      by (fastforce simp: timer_task_done_def timer_inv_def split: sum.splits)
  next
    case Tm_started
    then show ?thesis using step assms(1) n
      by (auto simp: timer_started_def timer_inv_def intro!: exI [of _ 0])
  next
    case Tm_slept
    then show ?thesis using step assms(1) n
      by (cases "timer_pc t") (auto simp: timer_slept_def timer_inv_def)
  qed (use step assms(1) n in \<open>auto simp: timer_defs timer_inv_def split: if_splits\<close>)
qed

lemma timer_inv_init: "timer_init t \<Longrightarrow> timer_inv t"
  by (auto elim!: timer_init.cases simp: timer_inv_def new_timer_def)

interpretation timer_system: invariant_system timer_init timer_step timer_inv
  by unfold_locales (fact timer_inv_init, rule timer_inv_step)

text \<open>
  C30: The callbacks of a finished run of the timer thread are: the started callback, a number of
  tasks that returned, the task that threw if one did, and the stopped callback with that exception;
  \<open>is_running()\<close> is false when the stopped callback runs and once the thread is over.
\<close>

theorem timer_callback_protocol:
  assumes "reach timer_init timer_step t" and "timer_pc t = T_finished"
  shows "\<not> m_is_running t \<and>
    (\<exists>n. timer_calls t = (if has_started_cb t then [Called_started] else []) @
       replicate n (Called_task None) @
       (case m_exception t of None \<Rightarrow> [] | Some e \<Rightarrow> [Called_task (Some e)]) @
       (if has_stopped_cb t then [Called_stopped (m_exception t)] else []))"
  using timer_system.reach_inv [OF assms(1)] assms(2)
  by (simp add: timer_inv_def timer_prologue_def)

lemma timer_reach_exec:
  assumes "exec_run next_timer es (new_timer a b sl) = Some t"
  shows "reach timer_init timer_step t"
proof -
  have "run timer_step (new_timer a b sl) es t"
    by (rule exec_run_sound [OF _ assms]) (simp add: timer_step_def)
  then show ?thesis using reach_run reach_init timer_init.intros by metis
qed

lemma timer_callback_protocol_witness:
  "\<exists>t. reach timer_init timer_step t \<and> timer_pc t = T_finished \<and> \<not> m_is_running t \<and>
     timer_calls t = [Called_started, Called_task None, Called_task (Some (User_exn 3)),
       Called_stopped (Some (User_exn 3))]"
proof -
  let ?sl = "new_sleeper Auto 0"
  let ?es = "[Tm_starts True, Tm_started, Tm_checks, Tm_task_done 5 (Inr ()), Tm_slept, Tm_checks,
    Tm_task_done 5 (Inl (User_exn 3)), Tm_leaves, Tm_stopped]"
  let ?t = "(new_timer True True ?sl)\<lparr>m_exception := Some (User_exn 3), timer_pc := T_finished,
    timer_calls := [Called_started, Called_task None, Called_task (Some (User_exn 3)),
       Called_stopped (Some (User_exn 3))]\<rparr>"
  have "exec_run next_timer ?es (new_timer True True ?sl) = Some ?t"
    by (simp add: new_timer_def timer_start_def timer_wait_for_stop_def timer_defs guarded_def)
  then have r: "reach timer_init timer_step ?t" by (rule timer_reach_exec)
  have f: "timer_pc ?t = T_finished" by simp
  show ?thesis using timer_callback_protocol [OF r f] r by (intro exI [of _ ?t]) simp
qed

section \<open>Stopping\<close>

definition is_task_done :: "timer_event \<Rightarrow> bool" where
  "is_task_done ev \<longleftrightarrow> (case ev of Tm_task_done _ _ \<Rightarrow> True | _ \<Rightarrow> False)"

fun thread_event :: "timer_event \<Rightarrow> bool" where
  "thread_event Tm_started = True" | "thread_event Tm_checks = True"
| "thread_event (Tm_task_done _ _) = True" | "thread_event Tm_slept = True"
| "thread_event Tm_leaves = True" | "thread_event Tm_stopped = True" | "thread_event _ = False"

text \<open>The steps the thread has left once a stop was requested.\<close>

fun timer_left :: "timer_pc \<Rightarrow> nat" where
  "timer_left T_task = 5" | "timer_left T_blocked = 5" | "timer_left T_started_cb = 4"
| "timer_left (T_sleep _) = 4" | "timer_left T_check = 3" | "timer_left T_leave = 2"
| "timer_left T_stopped_cb = 1" | "timer_left _ = 0"

fun no_start :: "timer_event \<Rightarrow> bool" where
  "no_start (Tm_starts _) = False" | "no_start Tm_task_sets_interval = False" | "no_start _ = True"

lemma stopping_step:
  assumes "timer_step t ev t'" and "m_stop_requested t" and "no_start ev"
  shows "m_stop_requested t' \<and>
    timer_left (timer_pc t') + (if thread_event ev then 1 else 0) \<le> timer_left (timer_pc t) \<and>
    (timer_pc t' = T_task \<longrightarrow> timer_pc t = T_task) \<and> (is_task_done ev \<longrightarrow> timer_pc t = T_task \<and> timer_pc t' \<noteq> T_task)"
  using assms
  by (cases ev; cases "timer_pc t")
    (auto simp: timer_step_def timer_defs is_task_done_def split: prod.splits sum.splits if_splits)

lemma stopping_run:
  assumes "run timer_step t es t'" and "list_all no_start es" and "m_stop_requested t"
  shows "m_stop_requested t' \<and>
    timer_left (timer_pc t') + length (filter thread_event es) \<le> timer_left (timer_pc t) \<and>
    length (filter is_task_done es) \<le> (if timer_pc t = T_task then 1 else 0)"
  using assms
proof (induction rule: run.induct)
  case (run_Cons t e t' es t'')
  then show ?case using stopping_step [of t e t'] by (auto split: if_splits)
qed simp

text \<open>
  C31: Once a stop has been requested, at most the task that is executing still completes and no other
  begins; the thread takes at most five more steps, and unless it has finished or the task blocks on
  the timer's own mutex it can take one.
\<close>

theorem timer_stops:
  assumes "run timer_step t es t'" and "m_stop_requested t" and "list_all no_start es"
  shows "length (filter is_task_done es) \<le> (if timer_pc t = T_task then 1 else 0) \<and>
    length (filter thread_event es) \<le> 5 \<and>
    (timer_pc t' \<in> {T_none, T_finished, T_blocked} \<or> (\<exists>ev t''. thread_event ev \<and> timer_step t' ev t''))"
proof -
  have "timer_left (timer_pc t) \<le> 5" by (cases "timer_pc t") auto
  moreover have "\<exists>ev t''. thread_event ev \<and> timer_step t' ev t''"
    if "timer_pc t' \<notin> {T_none, T_finished, T_blocked}"
  proof -
    have w: "thread_event ev \<Longrightarrow> next_timer ev t' = Some t'' \<Longrightarrow> ?thesis" for ev t''
      by (auto simp: timer_step_def)
    show ?thesis
      using that w [of Tm_started] w [of Tm_checks] w [of "Tm_task_done 0 (Inr ())"] w [of Tm_slept]
        w [of Tm_leaves] w [of Tm_stopped]
      by (cases "timer_pc t'") simp_all
  qed
  ultimately show ?thesis using stopping_run [OF assms(1,3,2)] by auto
qed

lemma timer_stops_witness:
  "\<exists>t t'. m_stop_requested t \<and> timer_pc t = T_task \<and> timer_pc t' = T_check \<and>
     run timer_step t [Tm_task_done 5 (Inr ()), Tm_slept] t' \<and>
     (\<exists>ev t''. thread_event ev \<and> timer_step t' ev t'')"
proof -
  let ?t = "(new_timer True True (new_sleeper Auto 0))\<lparr>m_stop_requested := True, m_is_running := True,
    timer_pc := T_task\<rparr>"
  let ?es = "[Tm_task_done 5 (Inr ()), Tm_slept]"
  let ?u = "?t\<lparr>timer_pc := T_check, timer_calls := [Called_task None]\<rparr>"
  have e: "run timer_step ?t ?es ?u"
    by (rule exec_run_sound [of next_timer]) (simp_all add: timer_step_def timer_defs guarded_def new_timer_def)
  have s: "m_stop_requested ?t" and n: "list_all no_start ?es" by simp_all
  show ?thesis using timer_stops [OF e s n] e
    by (intro exI [of _ ?t] exI [of _ ?u]) simp
qed

section \<open>What can go wrong\<close>

text \<open>
  A task that calls \<open>set_interval\<close> never returns; a failed \<open>start()\<close> leaves the timer running for ever,
  so that it cannot be started again.
\<close>

lemma task_setting_interval_blocks:
  assumes "run timer_step t es t'" and "timer_pc t = T_blocked" and "m_is_running t"
  shows "timer_pc t' = T_blocked \<and> m_is_running t'"
  using assms
proof (induction rule: run.induct)
  case (run_Cons t e t' es t'')
  then have "timer_pc t' = T_blocked \<and> m_is_running t'"
    by (cases e) (auto simp: timer_step_def timer_defs timer_start_def)
  with run_Cons show ?case by simp
qed simp

lemma failed_start_wedges:
  "\<exists>t. timer_start False False (new_timer a b sl) = Some (t, Inl (System_error 0)) \<and>
     m_is_running t \<and> timer_start False True t = Some (t, Inl Runtime_error)"
  by (auto simp: timer_start_def timer_wait_for_stop_def new_timer_def)

end
