(* ===== verification/StateMachine.thy ===== *)
theory StateMachine
  imports Prelude
begin

text \<open>
  The state machine run by a background worker: \<open>common/include/sg/state_machine.h\<close>.

  The user's callbacks are numbers; what a call does is given by an environment, from the calls made so
  far: it may call \<open>set_state()\<close> and it may throw. \<open>machine_log\<close> is a ghost, the callbacks that were
  invoked with a mark wherever the code begins to enter, to tick or to leave a state. The worker that
  calls \<open>worker_on_start\<close>, \<open>tick_action\<close> and \<open>worker_on_stop\<close> is the one of theory \<open>Worker\<close>;
  \<open>machine_run\<close> is one run of it, in which other threads call \<open>set_state()\<close> between the ticks.
\<close>

section \<open>State\<close>

record state_config =
  m_cbs_ticks :: "nat list"
  m_entry_cb :: "nat list"
  m_exit_cb :: "nat list"

definition empty_config :: state_config where
  "empty_config = \<lparr>m_cbs_ticks = [], m_entry_cb = [], m_exit_cb = []\<rparr>"

record 's state_change_details =
  new_state :: 's
  old_state :: 's

datatype 's machine_event =
    On_start
  | Entering 's
  | Exiting 's
  | Ticking 's
  | Changes nat "'s state_change_details"
  | Ticks nat 's
  | On_stop

record 's state_machine =
  m_on_start_cb :: bool
  m_on_stop_cb :: bool
  m_current_state :: 's
  m_requested_state :: 's
  just_started :: bool
  m_states :: "'s \<rightharpoonup> state_config"
  machine_running :: bool
  machine_log :: "'s machine_event list"

text \<open>What a callback does: the state it requests, if any, and whether it throws.\<close>

type_synonym 's environment = "'s machine_event list \<Rightarrow> 's option \<times> unit res"

section \<open>Configuration\<close>

definition add_state :: "'s \<Rightarrow> 's state_machine \<Rightarrow> 's state_machine res" where
  "add_state s m =
     (if machine_running m then Inl Runtime_error
      else if m_states m s \<noteq> None then Inl Runtime_error
      else Inr (m\<lparr>m_states := (m_states m)(s \<mapsto> empty_config)\<rparr>))"

definition remove_state :: "'s \<Rightarrow> 's state_machine \<Rightarrow> 's state_machine res" where
  "remove_state s m =
     (if machine_running m then Inl Runtime_error
      else Inr (m\<lparr>m_states := (m_states m)(s := None)\<rparr>))"

text \<open>\<open>operator[]\<close> of the map adds the state when it is not there.\<close>

definition config_of :: "'s \<Rightarrow> 's state_machine \<Rightarrow> state_config" where
  "config_of s m = (case m_states m s of None \<Rightarrow> empty_config | Some c \<Rightarrow> c)"

definition add_tick_callback :: "'s \<Rightarrow> nat \<Rightarrow> 's state_machine \<Rightarrow> 's state_machine" where
  "add_tick_callback s cb m =
     (let c = config_of s m in m\<lparr>m_states := (m_states m)(s \<mapsto> c\<lparr>m_cbs_ticks := m_cbs_ticks c @ [cb]\<rparr>)\<rparr>)"

definition add_entry_callback :: "'s \<Rightarrow> nat \<Rightarrow> 's state_machine \<Rightarrow> 's state_machine" where
  "add_entry_callback s cb m =
     (let c = config_of s m in m\<lparr>m_states := (m_states m)(s \<mapsto> c\<lparr>m_entry_cb := m_entry_cb c @ [cb]\<rparr>)\<rparr>)"

definition add_exit_callback :: "'s \<Rightarrow> nat \<Rightarrow> 's state_machine \<Rightarrow> 's state_machine" where
  "add_exit_callback s cb m =
     (let c = config_of s m in m\<lparr>m_states := (m_states m)(s \<mapsto> c\<lparr>m_exit_cb := m_exit_cb c @ [cb]\<rparr>)\<rparr>)"

definition set_machine_started_cb :: "bool \<Rightarrow> 's state_machine \<Rightarrow> 's state_machine res" where
  "set_machine_started_cb on_started m =
     (if machine_running m then Inl Runtime_error else Inr (m\<lparr>m_on_start_cb := on_started\<rparr>))"

definition set_machine_stopped_cb :: "bool \<Rightarrow> 's state_machine \<Rightarrow> 's state_machine res" where
  "set_machine_stopped_cb on_stopped m =
     (if machine_running m then Inl Runtime_error else Inr (m\<lparr>m_on_stop_cb := on_stopped\<rparr>))"

text \<open>\<open>start()\<close>; the log begins afresh.\<close>

definition machine_start :: "'s \<Rightarrow> 's state_machine \<Rightarrow> 's state_machine res" where
  "machine_start initial_state m =
     (if machine_running m then Inl Runtime_error
      else Inr (m\<lparr>m_current_state := initial_state, m_requested_state := initial_state,
                  machine_running := True, machine_log := []\<rparr>))"

definition set_state :: "'s \<Rightarrow> 's state_machine \<Rightarrow> 's state_machine" where
  "set_state s m = m\<lparr>m_requested_state := s\<rparr>"

section \<open>The worker's callbacks\<close>

type_synonym ('s, 'a) machine_op = "'s state_machine \<Rightarrow> 's state_machine \<times> 'a res"

definition seq :: "('s, unit) machine_op \<Rightarrow> ('s, unit) machine_op \<Rightarrow> ('s, unit) machine_op" where
  "seq f g m = (case f m of (m, Inl e) \<Rightarrow> (m, Inl e) | (m, Inr _) \<Rightarrow> g m)"

definition mark :: "'s machine_event \<Rightarrow> ('s, unit) machine_op" where
  "mark ev m = (m\<lparr>machine_log := machine_log m @ [ev]\<rparr>, Inr ())"

definition invoke :: "'s environment \<Rightarrow> 's machine_event \<Rightarrow> ('s, unit) machine_op" where
  "invoke env ev m =
     (let calls = machine_log m @ [ev]; m = m\<lparr>machine_log := calls\<rparr>
      in case env calls of
           (None, r) \<Rightarrow> (m, r)
         | (Some s, r) \<Rightarrow> (set_state s m, r))"

fun invoke_all :: "'s environment \<Rightarrow> 's machine_event list \<Rightarrow> ('s, unit) machine_op" where
  "invoke_all env [] m = (m, Inr ())"
| "invoke_all env (ev # evs) m = seq (invoke env ev) (invoke_all env evs) m"

text \<open>
  The three loops over \<open>m_states.at(s)\<close>, which throws for a state that is not there.
\<close>

definition run_exits :: "'s environment \<Rightarrow> 's \<Rightarrow> 's state_change_details \<Rightarrow> ('s, unit) machine_op" where
  "run_exits env s det m =
     (case m_states m s of None \<Rightarrow> (m, Inl Out_of_range)
      | Some c \<Rightarrow> seq (mark (Exiting s)) (invoke_all env (map (\<lambda>cb. Changes cb det) (m_exit_cb c))) m)"

definition run_entries :: "'s environment \<Rightarrow> 's \<Rightarrow> 's state_change_details \<Rightarrow> ('s, unit) machine_op" where
  "run_entries env s det m =
     (case m_states m s of None \<Rightarrow> (m, Inl Out_of_range)
      | Some c \<Rightarrow> seq (mark (Entering s)) (invoke_all env (map (\<lambda>cb. Changes cb det) (m_entry_cb c))) m)"

definition run_ticks :: "'s environment \<Rightarrow> 's \<Rightarrow> ('s, unit) machine_op" where
  "run_ticks env s m =
     (case m_states m s of None \<Rightarrow> (m, Inl Out_of_range)
      | Some c \<Rightarrow> seq (mark (Ticking s)) (invoke_all env (map (\<lambda>cb. Ticks cb s) (m_cbs_ticks c))) m)"

definition tick_action :: "'s environment \<Rightarrow> ('s, unit) machine_op" where
  "tick_action env m =
     (let current = m_current_state m; requested = m_requested_state m;
          started = just_started m; m = m\<lparr>just_started := False\<rparr>;
          enter = (if started then run_entries env current \<lparr>new_state = current, old_state = current\<rparr>
                   else (\<lambda>m. (m, Inr ())));
          det = \<lparr>new_state = requested, old_state = current\<rparr>;
          change = (if current \<noteq> requested
                    then seq (run_exits env current det)
                           (seq (\<lambda>m. (m\<lparr>m_current_state := requested\<rparr>, Inr ())) (run_entries env requested det))
                    else (\<lambda>m. (m, Inr ())))
      in seq enter (seq change (run_ticks env requested)) m)"

definition worker_on_start :: "'s environment \<Rightarrow> ('s, unit) machine_op" where
  "worker_on_start env m =
     seq (if m_on_start_cb m then invoke env On_start else (\<lambda>m. (m, Inr ())))
       (\<lambda>m. (m\<lparr>just_started := True\<rparr>, Inr ())) m"

definition worker_on_stop :: "'s environment \<Rightarrow> ('s, unit) machine_op" where
  "worker_on_stop env m =
     (let current = m_current_state m
      in seq (run_exits env current \<lparr>new_state = current, old_state = current\<rparr>)
           (if m_on_stop_cb m then invoke env On_stop else (\<lambda>m. (m, Inr ()))) m)"

text \<open>The ticks of a run, a request of another thread before some of them.\<close>

fun machine_ticks :: "'s environment \<Rightarrow> 's option list \<Rightarrow> ('s, unit) machine_op" where
  "machine_ticks env [] m = (m, Inr ())"
| "machine_ticks env (r # rs) m =
     seq (tick_action env) (machine_ticks env rs) (case r of None \<Rightarrow> m | Some s \<Rightarrow> set_state s m)"

definition machine_run :: "'s environment \<Rightarrow> 's option list \<Rightarrow> ('s, unit) machine_op" where
  "machine_run env reqs m =
     seq (worker_on_start env) (seq (machine_ticks env reqs) (worker_on_stop env)) m"

lemma seq_Inr_iff:
  "seq f g m = (m'', Inr ()) \<longleftrightarrow> (\<exists>m'. f m = (m', Inr ()) \<and> g m' = (m'', Inr ()))"
  by (auto simp: seq_def split: prod.splits sum.splits)

section \<open>Entering and leaving\<close>

text \<open>
  The state that is occupied after a log, if the log is orderly: a state is entered only when none is
  occupied, ticks and is left only while it is, and the machine's own callbacks run outside.
\<close>

fun occupied :: "'s option \<Rightarrow> 's machine_event list \<Rightarrow> 's option option" where
  "occupied x [] = Some x"
| "occupied x (Entering s # evs) = (if x = None then occupied (Some s) evs else None)"
| "occupied x (Exiting s # evs) = (if x = Some s then occupied None evs else None)"
| "occupied x (Ticking s # evs) = (if x = Some s then occupied x evs else None)"
| "occupied x (Ticks cb s # evs) = (if x = Some s then occupied x evs else None)"
| "occupied x (On_start # evs) = (if x = None then occupied x evs else None)"
| "occupied x (On_stop # evs) = (if x = None then occupied x evs else None)"
| "occupied x (Changes cb det # evs) = occupied x evs"

lemma occupied_append:
  "occupied x (evs @ evs') = (case occupied x evs of None \<Rightarrow> None | Some y \<Rightarrow> occupied y evs')"
  by (induction x evs rule: occupied.induct) auto

definition moves :: "'s option \<Rightarrow> 's option \<Rightarrow> 's state_machine \<Rightarrow> 's state_machine \<Rightarrow> bool" where
  "moves x y m m' \<longleftrightarrow> (\<exists>evs. machine_log m' = machine_log m @ evs \<and> occupied x evs = Some y)"

lemma moves_refl: "machine_log m' = machine_log m \<Longrightarrow> moves x x m m'"
  by (auto simp: moves_def)

lemma moves_trans: "moves x y m m' \<Longrightarrow> moves y z m' m'' \<Longrightarrow> moves x z m m''"
  by (auto simp: moves_def occupied_append)

lemma invoke_moves:
  assumes "invoke env ev m = (m', r)" and "occupied x [ev] = Some x"
  shows "moves x x m m' \<and> m_current_state m' = m_current_state m \<and> just_started m' = just_started m"
proof -
  have "machine_log m' = machine_log m @ [ev]" "m_current_state m' = m_current_state m"
    "just_started m' = just_started m"
    using assms(1) by (auto simp: invoke_def Let_def set_state_def split: prod.splits option.splits)
  with assms(2) show ?thesis by (simp add: moves_def)
qed

lemma invoke_all_moves:
  assumes "invoke_all env evs m = (m', Inr ())" and "\<forall>ev \<in> set evs. occupied x [ev] = Some x"
  shows "moves x x m m' \<and> m_current_state m' = m_current_state m \<and> just_started m' = just_started m"
  using assms
proof (induction env evs m rule: invoke_all.induct)
  case (2 env ev evs m)
  then obtain m1 where m1: "invoke env ev m = (m1, Inr ())" "invoke_all env evs m1 = (m', Inr ())"
    by (auto simp: seq_Inr_iff)
  have "occupied x [ev] = Some x" using 2(3) by simp
  from invoke_moves [OF m1(1) this] 2 m1 show ?case
    by (fastforce simp: seq_def intro: moves_trans)
qed (simp add: moves_refl)

lemma marked_moves:
  assumes "seq (mark ev) (invoke_all env evs) m = (m', Inr ())" and "occupied x [ev] = Some y"
    and "\<forall>ev \<in> set evs. occupied y [ev] = Some y"
  shows "moves x y m m' \<and> m_current_state m' = m_current_state m \<and> just_started m' = just_started m"
proof -
  obtain m1 where m1: "mark ev m = (m1, Inr ())" "invoke_all env evs m1 = (m', Inr ())"
    using assms(1) by (auto simp: seq_Inr_iff)
  then have "moves x y m m1 \<and> m_current_state m1 = m_current_state m \<and> just_started m1 = just_started m"
    using assms(2) by (auto simp: mark_def moves_def)
  with invoke_all_moves [OF m1(2) assms(3)] show ?thesis by (auto intro: moves_trans)
qed

lemma run_exits_moves:
  assumes "run_exits env s det m = (m', Inr ())"
  shows "moves (Some s) None m m' \<and> m_current_state m' = m_current_state m \<and> just_started m' = just_started m"
proof -
  obtain c :: state_config where "seq (mark (Exiting s)) (invoke_all env (map (\<lambda>cb. Changes cb det) (m_exit_cb c))) m = (m', Inr ())"
    using assms by (auto simp: run_exits_def split: option.splits)
  then show ?thesis by (rule marked_moves) auto
qed

lemma run_entries_moves:
  assumes "run_entries env s det m = (m', Inr ())"
  shows "moves None (Some s) m m' \<and> m_current_state m' = m_current_state m \<and> just_started m' = just_started m"
proof -
  obtain c :: state_config where "seq (mark (Entering s)) (invoke_all env (map (\<lambda>cb. Changes cb det) (m_entry_cb c))) m = (m', Inr ())"
    using assms by (auto simp: run_entries_def split: option.splits)
  then show ?thesis by (rule marked_moves) auto
qed

lemma run_ticks_moves:
  assumes "run_ticks env s m = (m', Inr ())"
  shows "moves (Some s) (Some s) m m' \<and> m_current_state m' = m_current_state m \<and> just_started m' = just_started m"
proof -
  obtain c :: state_config where "seq (mark (Ticking s)) (invoke_all env (map (\<lambda>cb. Ticks cb s) (m_cbs_ticks c))) m = (m', Inr ())"
    using assms by (auto simp: run_ticks_def split: option.splits)
  then show ?thesis by (rule marked_moves) auto
qed

text \<open>The occupied state between two ticks: none before the first.\<close>

definition seat :: "'s state_machine \<Rightarrow> 's option" where
  "seat m = (if just_started m then None else Some (m_current_state m))"

lemma tick_action_moves:
  assumes "tick_action env m = (m', Inr ())"
  shows "moves (seat m) (seat m') m m' \<and> \<not> just_started m' \<and> m_current_state m' = m_requested_state m"
proof -
  let ?c = "m_current_state m" and ?r = "m_requested_state m"
  let ?m0 = "m\<lparr>just_started := False\<rparr>"
  obtain m1 m2 where e: "(if just_started m then run_entries env ?c \<lparr>new_state = ?c, old_state = ?c\<rparr> ?m0
        else (?m0, Inr ())) = (m1, Inr ())"
    and c: "(if ?c \<noteq> ?r
             then seq (run_exits env ?c \<lparr>new_state = ?r, old_state = ?c\<rparr>)
               (seq (\<lambda>m. (m\<lparr>m_current_state := ?r\<rparr>, Inr ()))
                 (run_entries env ?r \<lparr>new_state = ?r, old_state = ?c\<rparr>)) m1
             else (m1, Inr ())) = (m2, Inr ())"
    and t: "run_ticks env ?r m2 = (m', Inr ())"
    using assms by (fastforce simp: tick_action_def Let_def seq_Inr_iff split: if_splits)
  have m0: "moves x x m ?m0" for x by (rule moves_refl) simp
  have 1: "moves (seat m) (Some ?c) m m1 \<and> m_current_state m1 = ?c \<and> \<not> just_started m1"
    using e m0 run_entries_moves moves_trans [OF m0]
    by (fastforce simp: seat_def split: if_splits)
  have 2: "moves (Some ?c) (Some ?r) m1 m2 \<and> m_current_state m2 = ?r \<and> \<not> just_started m2"
  proof (cases "?c = ?r")
    case True
    then show ?thesis using c 1 by (auto intro: moves_refl)
  next
    case False
    then obtain k where k: "run_exits env ?c \<lparr>new_state = ?r, old_state = ?c\<rparr> m1 = (k, Inr ())"
      "run_entries env ?r \<lparr>new_state = ?r, old_state = ?c\<rparr> (k\<lparr>m_current_state := ?r\<rparr>) = (m2, Inr ())"
      using c by (auto simp: seq_Inr_iff)
    have "moves None None k (k\<lparr>m_current_state := ?r\<rparr>)" by (rule moves_refl) simp
    with run_exits_moves [OF k(1)] run_entries_moves [OF k(2)] 1 show ?thesis
      by (auto intro: moves_trans)
  qed
  have 3: "moves (Some ?r) (Some ?r) m2 m' \<and> m_current_state m' = ?r \<and> \<not> just_started m'"
    using run_ticks_moves [OF t] 2 by auto
  then have "moves (seat m) (seat m') m m'"
    using 1 2 moves_trans [OF _ moves_trans] by (auto simp: seat_def)
  with 3 show ?thesis by simp
qed

lemma machine_ticks_moves:
  assumes "machine_ticks env reqs m = (m', Inr ())"
  shows "moves (seat m) (seat m') m m' \<and> (reqs \<noteq> [] \<longrightarrow> \<not> just_started m')"
  using assms
proof (induction reqs arbitrary: m)
  case (Cons r rs)
  let ?m = "case r of None \<Rightarrow> m | Some s \<Rightarrow> set_state s m"
  obtain m1 where m1: "tick_action env ?m = (m1, Inr ())" "machine_ticks env rs m1 = (m', Inr ())"
    using Cons.prems by (auto simp: seq_Inr_iff)
  have "moves (seat m) (seat ?m) m ?m"
    by (cases r) (auto simp: set_state_def seat_def intro: moves_refl)
  moreover have "moves (seat m1) (seat m') m1 m' \<and> (rs \<noteq> [] \<longrightarrow> \<not> just_started m')"
    by (rule Cons.IH [OF m1(2)])
  moreover have "rs = [] \<longrightarrow> m' = m1" using m1(2) by auto
  ultimately show ?case using tick_action_moves [OF m1(1)] by (blast intro: moves_trans)
qed (auto intro: moves_refl)

text \<open>
  In a run of the machine that ticks at least once and in which no callback throws, whatever the
  callbacks and other threads request, every state is entered once before it ticks and left once
  before the next is entered or the machine has stopped, the callback for the start comes before and
  the one for the stop after all of them, and no state is left occupied.
\<close>

lemma machine_run_orderly:
  assumes "machine_run env reqs m = (m', Inr ())" and "reqs \<noteq> []" and "machine_log m = []"
  shows "occupied None (machine_log m') = Some None"
proof -
  obtain m1 m2 where r: "worker_on_start env m = (m1, Inr ())" "machine_ticks env reqs m1 = (m2, Inr ())"
    "worker_on_stop env m2 = (m', Inr ())"
    using assms(1) by (auto simp: machine_run_def seq_Inr_iff)
  obtain k where k: "(if m_on_start_cb m then invoke env On_start m else (m, Inr ())) = (k, Inr ())"
    "m1 = k\<lparr>just_started := True\<rparr>"
    using r(1) by (auto simp: worker_on_start_def seq_Inr_iff split: if_splits)
  have "moves None None m k"
    using k(1) invoke_moves [of env On_start m k "Inr ()" None] by (auto intro: moves_refl split: if_splits)
  moreover have "moves None None k m1" unfolding k(2) by (rule moves_refl) simp
  moreover have "moves None (Some (m_current_state m2)) m1 m2"
    using machine_ticks_moves [OF r(2)] assms(2) k(2) by (auto simp: seat_def)
  moreover have "moves (Some (m_current_state m2)) None m2 m'"
  proof -
    let ?c = "m_current_state m2"
    obtain j where j: "run_exits env ?c \<lparr>new_state = ?c, old_state = ?c\<rparr> m2 = (j, Inr ())"
      "(if m_on_stop_cb m2 then invoke env On_stop j else (j, Inr ())) = (m', Inr ())"
      using r(3) by (auto simp: worker_on_stop_def seq_Inr_iff Let_def split: if_splits)
    have "moves None None j m'"
      using j(2) invoke_moves [of env On_stop j m' "Inr ()" None] by (auto intro: moves_refl split: if_splits)
    with run_exits_moves [OF j(1)] show ?thesis by (blast intro: moves_trans)
  qed
  ultimately have "moves None None m m'" by (blast intro: moves_trans)
  with assms(3) show ?thesis by (simp add: moves_def)
qed

text \<open>Two states; the first one's tick callback requests the second, whose entry is callback 2.\<close>

definition example_machine :: "nat state_machine" where
  "example_machine = add_exit_callback 0 3 (add_entry_callback 1 2 (add_tick_callback 0 1
     (add_entry_callback 0 0
        \<lparr>m_on_start_cb = True, m_on_stop_cb = True, m_current_state = 0, m_requested_state = 0,
         just_started = False, m_states = Map.empty, machine_running = True, machine_log = []\<rparr>)))"

definition example_env :: "nat environment" where
  "example_env calls = (case last calls of Ticks cb s \<Rightarrow> (Some 1, Inr ()) | _ \<Rightarrow> (None, Inr ()))"

lemmas machine_eval = machine_run_def worker_on_start_def worker_on_stop_def tick_action_def
  run_exits_def run_entries_def run_ticks_def mark_def invoke_def seq_def set_state_def Let_def
  add_exit_callback_def add_entry_callback_def add_tick_callback_def config_of_def empty_config_def
  example_machine_def example_env_def

section \<open>Requests and unknown states\<close>

text \<open>What no callback changes, and that nothing has ticked.\<close>

definition no_tick :: "'s state_machine \<Rightarrow> 's state_machine \<Rightarrow> bool" where
  "no_tick m m' \<longleftrightarrow> m_states m' = m_states m \<and>
     (\<exists>evs. machine_log m' = machine_log m @ evs \<and> (\<forall>s. Ticking s \<notin> set evs))"

lemma no_tick_refl [simp]: "no_tick m m"
  by (simp add: no_tick_def)

lemma no_tick_trans: "no_tick m m' \<Longrightarrow> no_tick m' m'' \<Longrightarrow> no_tick m m''"
  by (auto simp: no_tick_def)

lemma no_tick_seq:
  assumes "no_tick m (fst (f m))" and "\<And>m'. no_tick m m' \<Longrightarrow> no_tick m' (fst (g m'))"
  shows "no_tick m (fst (seq f g m))"
  using assms by (auto simp: seq_def split: prod.splits sum.splits intro: no_tick_trans)

lemma no_tick_invoke_all:
  "\<forall>s. Ticking s \<notin> set evs \<Longrightarrow> no_tick m (fst (invoke_all env evs m))"
proof (induction evs arbitrary: m)
  case (Cons ev evs)
  have "no_tick m (fst (invoke env ev m))"
    using Cons.prems
    by (auto simp: no_tick_def invoke_def set_state_def Let_def split: prod.splits option.splits)
  with Cons show ?case by (auto intro: no_tick_seq)
qed simp

lemma no_tick_mark: "\<forall>s. ev \<noteq> Ticking s \<Longrightarrow> no_tick m (fst (mark ev m))"
  by (auto simp: no_tick_def mark_def)

lemma no_tick_exits: "no_tick m (fst (run_exits env s det m))"
  and no_tick_entries: "no_tick m (fst (run_entries env s det m))"
  by (auto simp: run_exits_def run_entries_def split: option.split
      intro!: no_tick_seq no_tick_invoke_all no_tick_mark)

text \<open>
  C29: A request for a state that was never added makes the next tick throw, without ticking any state:
  a tick enters and ticks nothing but states that are there.
\<close>

theorem unknown_state_throws:
  assumes "m_requested_state m \<noteq> m_current_state m" and "m_states m (m_requested_state m) = None"
  shows "\<exists>e m'. tick_action env m = (m', Inl e) \<and>
    (\<exists>evs. machine_log m' = machine_log m @ evs \<and> (\<forall>s. Ticking s \<notin> set evs))"
proof -
  let ?c = "m_current_state m" and ?r = "m_requested_state m" and ?m0 = "m\<lparr>just_started := False\<rparr>"
  let ?enter = "if just_started m then run_entries env ?c \<lparr>new_state = ?c, old_state = ?c\<rparr>
    else (\<lambda>m. (m, Inr ()))"
  let ?det = "\<lparr>new_state = ?r, old_state = ?c\<rparr>"
  let ?store = "\<lambda>m. (m\<lparr>m_current_state := ?r\<rparr>, Inr () :: unit res)"
  have store: "no_tick k (fst (?store k))" for k by (simp add: no_tick_def)
  have "no_tick ?m0 (fst (seq ?enter (seq (run_exits env ?c ?det) ?store) ?m0))"
    by (intro no_tick_seq no_tick_exits store) (simp add: no_tick_entries)
  moreover obtain k res where k: "seq ?enter (seq (run_exits env ?c ?det) ?store) ?m0 = (k, res)"
    by fastforce
  ultimately have n: "no_tick ?m0 k" by simp
  then have "m_states k ?r = None" using assms(2) by (simp add: no_tick_def)
  then have "\<exists>e. tick_action env m = (k, Inl e)"
    using k assms(1)
    by (auto simp: tick_action_def Let_def seq_def run_entries_def split: prod.splits sum.splits)
  with n show ?thesis by (auto simp: no_tick_def)
qed

lemma unknown_state_throws_witness:
  "\<exists>e m'. tick_action example_env (set_state 7 example_machine) = (m', Inl e)"
  using unknown_state_throws [of "set_state 7 example_machine" example_env]
  by (auto simp: machine_eval)

text \<open>
  A stop requested before the first tick: the exit callbacks run of a state that was never entered.
\<close>

lemma stop_before_first_tick:
  assumes "m_states m (m_current_state m) = Some \<lparr>m_cbs_ticks = [], m_entry_cb = [0], m_exit_cb = [1]\<rparr>"
    and "\<not> m_on_start_cb m" and "\<not> m_on_stop_cb m" and "machine_log m = []"
  shows "machine_log (fst (machine_run (\<lambda>_. (None, Inr ())) [] m)) =
    [Exiting (m_current_state m),
     Changes 1 \<lparr>new_state = m_current_state m, old_state = m_current_state m\<rparr>]"
  using assms by (simp add: machine_run_def worker_on_start_def worker_on_stop_def seq_def
      run_exits_def mark_def invoke_def Let_def)

end
