(* ===== verification/Net.thy ===== *)
theory Net
  imports Prelude
begin

text \<open>
  Socket options (\<open>net/include/sg/net/tcp_native.h\<close>, \<open>net/src/tcp_native.cpp\<close>), name resolution and the
  list of interfaces (\<open>net/include/sg/net/net.h\<close>, \<open>net/src/net.cpp\<close>, \<open>net/src/net_uv.cpp\<close>), for a POSIX
  system.

  What the system, Boost's resolver and libuv answer is an argument: \<open>ok\<close> says whether the system
  accepts an option, \<open>entry\<close> is an interface as libuv lists it.
\<close>

section \<open>Socket options\<close>

record keepalive_t =
  enable :: bool
  idle_seconds :: u32
  interval_seconds :: u32
  count :: u32

definition default_keepalive :: keepalive_t where
  "default_keepalive = \<lparr>enable = True, idle_seconds = 60, interval_seconds = 5, count = 5\<rparr>"

datatype sockopt = TCP_KEEPIDLE | TCP_KEEPINTVL | TCP_KEEPCNT | SO_KEEPALIVE
  | SO_RCVTIMEO | SO_SNDTIMEO | SO_REUSEADDR | SO_EXCLUSIVEADDRUSE | SO_RCVBUF | SO_SNDBUF

text \<open>The value of an option: an \<open>int\<close>, or a \<open>timeval\<close> of seconds and microseconds.\<close>

datatype optval = Int_value "32 word" | Timeval nat nat

type_synonym sockopts = "sockopt \<rightharpoonup> optval"

definition setsockopt :: "(sockopt \<Rightarrow> bool) \<Rightarrow> sockopt \<Rightarrow> optval \<Rightarrow> sockopts \<Rightarrow> sockopts \<times> unit res" where
  "setsockopt ok opt v opts = (if ok opt then (opts(opt \<mapsto> v), Inr ()) else (opts, Inl Runtime_error))"

text \<open>Calls in sequence; the macro around each throws when it fails.\<close>

fun setsockopts :: "(sockopt \<Rightarrow> bool) \<Rightarrow> (sockopt \<times> optval) list \<Rightarrow> sockopts \<Rightarrow> sockopts \<times> unit res" where
  "setsockopts ok [] opts = (opts, Inr ())"
| "setsockopts ok ((opt, v) # calls) opts =
     (case setsockopt ok opt v opts of
        (opts, Inl e) \<Rightarrow> (opts, Inl e) | (opts, Inr _) \<Rightarrow> setsockopts ok calls opts)"

definition INT_MAX :: u32 where "INT_MAX = 2147483647"

definition of_bool_int :: "bool \<Rightarrow> 32 word" where
  "of_bool_int b = (if b then 1 else 0)"

definition native_set_keepalive :: "(sockopt \<Rightarrow> bool) \<Rightarrow> keepalive_t \<Rightarrow> sockopts \<Rightarrow> sockopts \<times> unit res" where
  "native_set_keepalive ok keepAlive opts =
     (let enableKeepAlive = enable keepAlive; idleSec = idle_seconds keepAlive;
          intervalSec = interval_seconds keepAlive; cnt = count keepAlive
      in if idleSec > INT_MAX \<or> intervalSec > INT_MAX \<or> cnt > INT_MAX then (opts, Inl Invalid_argument)
         else setsockopts ok
           [(TCP_KEEPIDLE, Int_value idleSec), (TCP_KEEPINTVL, Int_value intervalSec), (TCP_KEEPCNT, Int_value cnt),
            (SO_KEEPALIVE, Int_value (of_bool_int enableKeepAlive))] opts)"

definition to_timeval :: "u32 \<Rightarrow> optval" where
  "to_timeval timeoutMSec = Timeval (unat timeoutMSec div 1000) (unat timeoutMSec mod 1000 * 1000)"

definition native_set_timeout :: "(sockopt \<Rightarrow> bool) \<Rightarrow> u32 \<Rightarrow> sockopts \<Rightarrow> sockopts \<times> unit res" where
  "native_set_timeout ok timeoutMSec opts =
     (let tv = to_timeval timeoutMSec
      in setsockopts ok [(SO_RCVTIMEO, tv), (SO_SNDTIMEO, tv)] opts)"

definition set_reuse_address :: "(sockopt \<Rightarrow> bool) \<Rightarrow> bool \<Rightarrow> sockopts \<Rightarrow> sockopts \<times> unit res" where
  "set_reuse_address ok enabled opts = setsockopts ok [(SO_REUSEADDR, Int_value (of_bool_int enabled))] opts"

text \<open>Only Windows has this option; elsewhere the call does nothing.\<close>

definition set_exclusive_addr_use :: "bool \<Rightarrow> (sockopt \<Rightarrow> bool) \<Rightarrow> bool \<Rightarrow> sockopts \<Rightarrow> sockopts \<times> unit res" where
  "set_exclusive_addr_use windows ok enabled opts =
     (if windows then setsockopts ok [(SO_EXCLUSIVEADDRUSE, Int_value (of_bool_int enabled))] opts
      else (opts, Inr ()))"

definition set_recv_buffer_size :: "(sockopt \<Rightarrow> bool) \<Rightarrow> 32 word \<Rightarrow> sockopts \<Rightarrow> sockopts \<times> unit res" where
  "set_recv_buffer_size ok n opts = setsockopts ok [(SO_RCVBUF, Int_value n)] opts"

definition set_send_buffer_size :: "(sockopt \<Rightarrow> bool) \<Rightarrow> 32 word \<Rightarrow> sockopts \<Rightarrow> sockopts \<times> unit res" where
  "set_send_buffer_size ok n opts = setsockopts ok [(SO_SNDBUF, Int_value n)] opts"

text \<open>\<open>getsockopt\<close> answers what the system stores, on Linux twice what was set. C's division truncates.\<close>

definition application_visible_buffer_size :: "bool \<Rightarrow> int \<Rightarrow> int" where
  "application_visible_buffer_size linux raw = (if linux then sgn raw * (\<bar>raw\<bar> div 2) else raw)"

definition get_buffer_size :: "bool \<Rightarrow> int option \<Rightarrow> int res" where
  "get_buffer_size linux answer =
     (case answer of None \<Rightarrow> Inl Runtime_error | Some raw \<Rightarrow> Inr (application_visible_buffer_size linux raw))"

lemma setsockopts_all_ok:
  "\<forall>(opt, v) \<in> set calls. ok opt \<Longrightarrow> setsockopts ok calls opts = (opts ++ map_of (rev calls), Inr ())"
  by (induction calls arbitrary: opts) (auto simp: setsockopt_def map_add_assoc map_of_append)

lemma timeval_exact:
  "unat ms div 1000 * 1000000 + unat ms mod 1000 * 1000 = unat ms * 1000"
proof -
  have "unat ms = unat ms div 1000 * 1000 + unat ms mod 1000" by simp
  then show ?thesis by linarith
qed

lemma setsockopts_error: "snd (setsockopts ok calls opts) \<noteq> Inl Invalid_argument"
  by (induction ok calls opts rule: setsockopts.induct) (auto simp: setsockopt_def)

lemma le_INT_MAX: "\<not> w > INT_MAX \<longleftrightarrow> unat w < 2 ^ 31"
  by (auto simp: INT_MAX_def word_less_nat_alt)

lemma sint_small:
  assumes "unat (w :: u32) < 2 ^ 31"
  shows "sint w = uint w"
proof -
  have "int (unat w) < int (2 ^ 31)" using assms by (simp only: of_nat_less_iff)
  then have "uint w < 2 ^ 31" by simp
  moreover have "- (2 ^ 31) \<le> uint w" by (rule order_trans [OF _ unsigned_greater_eq]) simp
  ultimately show ?thesis by (simp add: sint_uint signed_take_bit_int_eq_self_iff)
qed

text \<open>
  Keep-alive parameters are refused, leaving every option as it was, exactly when one does not fit
  an \<open>int\<close>. Otherwise, if the system accepts them, the four options hold these parameters, as the
  same non-negative numbers. A timeout becomes a valid \<open>timeval\<close> of exactly that length.
\<close>

theorem native_options:
  "(snd (native_set_keepalive ok k opts) = Inl Invalid_argument \<longleftrightarrow>
      \<not> (unat (idle_seconds k) < 2 ^ 31 \<and> unat (interval_seconds k) < 2 ^ 31 \<and> unat (count k) < 2 ^ 31)) \<and>
   (case native_set_keepalive (\<lambda>_. True) k opts of
      (opts', Inl e) \<Rightarrow> opts' = opts
    | (opts', Inr _) \<Rightarrow>
        opts' = opts(TCP_KEEPIDLE \<mapsto> Int_value (idle_seconds k), TCP_KEEPINTVL \<mapsto> Int_value (interval_seconds k),
          TCP_KEEPCNT \<mapsto> Int_value (count k), SO_KEEPALIVE \<mapsto> Int_value (of_bool_int (enable k))) \<and>
        sint (idle_seconds k) = uint (idle_seconds k) \<and>
        sint (interval_seconds k) = uint (interval_seconds k) \<and> sint (count k) = uint (count k)) \<and>
   (\<exists>sec usec. native_set_timeout (\<lambda>_. True) ms opts =
        (opts(SO_RCVTIMEO \<mapsto> Timeval sec usec, SO_SNDTIMEO \<mapsto> Timeval sec usec), Inr ()) \<and>
      usec < 1000000 \<and> sec * 1000000 + usec = unat ms * 1000)"
proof (intro conjI)
  show "snd (native_set_keepalive ok k opts) = Inl Invalid_argument \<longleftrightarrow>
      \<not> (unat (idle_seconds k) < 2 ^ 31 \<and> unat (interval_seconds k) < 2 ^ 31 \<and> unat (count k) < 2 ^ 31)"
    using setsockopts_error le_INT_MAX [of "idle_seconds k"] le_INT_MAX [of "interval_seconds k"]
      le_INT_MAX [of "count k"]
    by (auto simp: native_set_keepalive_def Let_def simp del: setsockopts.simps)
  show "case native_set_keepalive (\<lambda>_. True) k opts of
      (opts', Inl e) \<Rightarrow> opts' = opts
    | (opts', Inr _) \<Rightarrow>
        opts' = opts(TCP_KEEPIDLE \<mapsto> Int_value (idle_seconds k), TCP_KEEPINTVL \<mapsto> Int_value (interval_seconds k),
          TCP_KEEPCNT \<mapsto> Int_value (count k), SO_KEEPALIVE \<mapsto> Int_value (of_bool_int (enable k))) \<and>
        sint (idle_seconds k) = uint (idle_seconds k) \<and>
        sint (interval_seconds k) = uint (interval_seconds k) \<and> sint (count k) = uint (count k)"
    using le_INT_MAX [of "idle_seconds k"] le_INT_MAX [of "interval_seconds k"] le_INT_MAX [of "count k"]
    by (auto simp: native_set_keepalive_def Let_def setsockopt_def sint_small)
  show "\<exists>sec usec. native_set_timeout (\<lambda>_. True) ms opts =
        (opts(SO_RCVTIMEO \<mapsto> Timeval sec usec, SO_SNDTIMEO \<mapsto> Timeval sec usec), Inr ()) \<and>
      usec < 1000000 \<and> sec * 1000000 + usec = unat ms * 1000"
    by (rule exI [of _ "unat ms div 1000"], rule exI [of _ "unat ms mod 1000 * 1000"])
      (simp add: native_set_timeout_def to_timeval_def setsockopt_def timeval_exact Let_def)
qed

section \<open>Names and interfaces\<close>

text \<open>What the resolver throws: the error code of a \<open>system_error\<close>, translated by \<open>resolve\<close>.\<close>

datatype resolve_error = Host_not_found_error | Host_not_found_try_again | Network_unreachable_ec | Other_ec nat

definition resolve :: "(resolve_error + string list) \<Rightarrow> string list res" where
  "resolve answer =
     (case answer of
        Inr ips \<Rightarrow> Inr ips
      | Inl e \<Rightarrow>
          if e = Host_not_found_error \<or> e = Host_not_found_try_again then Inl Host_not_found
          else if e = Network_unreachable_ec then Inl Network_unreachable
          else Inl Net_other)"

datatype address_family = IPv4 | IPv6

record interface_details =
  family :: address_family
  physical_address :: "byte list"
  address :: string
  netmask :: string
  is_internal :: bool

text \<open>An entry as libuv lists it; \<open>uv_ip_name\<close> may fail on its addresses.\<close>

record uv_interface =
  phys_addr :: "byte list"
  uv_address :: "string option"
  uv_netmask :: "string option"
  uv_is_internal :: bool

definition interface_of :: "uv_interface \<Rightarrow> interface_details res" where
  "interface_of u =
     (case uv_address u of None \<Rightarrow> Inl Runtime_error
      | Some addr \<Rightarrow>
          case uv_netmask u of None \<Rightarrow> Inl Runtime_error
          | Some nmask \<Rightarrow>
              Inr \<lparr>family = (if CHR ''.'' \<in> set addr then IPv4 else IPv6), physical_address = phys_addr u,
                   address = addr, netmask = nmask, is_internal = uv_is_internal u\<rparr>)"

fun interfaces_loop :: "uv_interface list \<Rightarrow> interface_details list \<Rightarrow> interface_details list res" where
  "interfaces_loop [] vec = Inr vec"
| "interfaces_loop (u # us) vec =
     (case interface_of u of Inl e \<Rightarrow> Inl e | Inr int_det \<Rightarrow> interfaces_loop us (vec @ [int_det]))"

text \<open>The result, and how often the list libuv allocated has been freed.\<close>

definition interfaces :: "uv_interface list option \<Rightarrow> interface_details list res \<times> nat" where
  "interfaces uv = (case uv of None \<Rightarrow> (Inl Runtime_error, 0) | Some us \<Rightarrow>
     (case interfaces_loop us [] of Inl e \<Rightarrow> (Inl e, 1) | Inr vec \<Rightarrow> (Inr vec, 1)))"

lemma interfaces_loop_Inr_iff:
  "interfaces_loop us vec = Inr out \<longleftrightarrow>
     (\<exists>ds. out = vec @ ds \<and> map interface_of us = map Inr ds)"
  by (induction us arbitrary: vec) (auto split: sum.splits simp: Cons_eq_map_conv)

text \<open>
  The interfaces are one entry per interface of the system in its order, none if any address
  cannot be printed, and the system's list is freed exactly once if it was obtained, whether or not
  the call throws.
\<close>

theorem interfaces_complete:
  "snd (interfaces uv) = (if uv = None then 0 else 1) \<and>
   (\<forall>out. fst (interfaces uv) = Inr out \<longleftrightarrow> (\<exists>us. uv = Some us \<and> map interface_of us = map Inr out))"
  by (auto simp: interfaces_def interfaces_loop_Inr_iff split: option.splits sum.splits)
    (metis append_Nil interfaces_loop_Inr_iff sum.distinct(1))

text \<open>An IPv6 address that ends in dotted notation is taken for an IPv4 one.\<close>

lemma mapped_address_taken_for_IPv4:
  "map_sum id family (interface_of \<lparr>phys_addr = [], uv_address = Some ''::ffff:10.0.0.1'', uv_netmask = Some m,
     uv_is_internal = False\<rparr>) = Inr IPv4"
  by (simp add: interface_of_def)

end
