(* ===== verification/TcpClientSync.thy ===== *)
theory TcpClientSync
  imports Net "HOL-Library.Sublist"
begin

text \<open>
  The blocking TCP client: \<open>net/include/sg/net/tcp_client_sync.h\<close>, \<open>net/src/tcp_client_sync.cpp\<close>.

  An operation on the socket is given by what the network does while it runs: the chunks that arrive,
  in order, and the error that ends it if they do not suffice. Of Boost.Asio the documented behaviour
  is modelled: \<open>async_read_until\<close> looks at what is buffered before it reads, and completes with the
  position after the first match; \<open>async_read\<close> appends until the buffer is full; both leave what
  arrived in the buffer when they fail. \<open>received\<close> and \<open>returned\<close> are ghosts: the bytes that arrived on
  the connection, and those the reads have returned.
\<close>

section \<open>State\<close>

datatype net_ec = Ec_timed_out | Ec_operation_aborted | Ec_other nat

text \<open>The chunks that arrive, and the error that comes after them.\<close>

type_synonym network = "byte list list \<times> net_ec"

record client_options =
  timeout_msec :: u32
  connection_timeout_msec :: u32
  keepalive :: keepalive_t

record client =
  socket_open :: bool
  m_read_buffer :: "byte list"
  m_options :: client_options
  m_sockopts :: sockopts
  received :: "byte list"
  returned :: "byte list"

definition default_options :: client_options where
  "default_options = \<lparr>timeout_msec = 5000, connection_timeout_msec = 10000, keepalive = default_keepalive\<rparr>"

definition new_client :: "client_options \<Rightarrow> client" where
  "new_client opts =
     \<lparr>socket_open = False, m_read_buffer = [], m_options = opts, m_sockopts = Map.empty,
      received = [], returned = []\<rparr>"

section \<open>Errors\<close>

fun is_timeout :: "net_ec \<Rightarrow> bool" where
  "is_timeout Ec_timed_out = True" | "is_timeout Ec_operation_aborted = True" | "is_timeout (Ec_other _) = False"

definition net_error :: "net_ec \<Rightarrow> exn" where
  "net_error ec = (if is_timeout ec then Time_out else Net_other)"

definition disconnect :: "client \<Rightarrow> client" where
  "disconnect c = c\<lparr>socket_open := False\<rparr>"

definition throw_on_read_error :: "net_ec \<Rightarrow> client \<Rightarrow> client \<times> exn" where
  "throw_on_read_error ec c = (if is_timeout ec then c else disconnect c, net_error ec)"

section \<open>The operations of the socket\<close>

text \<open>The position after the first occurrence of the delimiter.\<close>

fun find_end :: "byte list \<Rightarrow> byte list \<Rightarrow> nat option" where
  "find_end delim buf =
     (if prefix delim buf then Some (length delim)
      else case buf of [] \<Rightarrow> None | _ # rest \<Rightarrow> map_option Suc (find_end delim rest))"

declare find_end.simps [simp del]

text \<open>The result is the buffer afterwards and the position or error.\<close>

fun async_read_until :: "byte list \<Rightarrow> byte list list \<Rightarrow> net_ec \<Rightarrow> byte list \<Rightarrow> byte list \<times> (net_ec + nat)" where
  "async_read_until delim [] ec buf =
     (buf, case find_end delim buf of Some n \<Rightarrow> Inr n | None \<Rightarrow> Inl ec)"
| "async_read_until delim (chunk # chunks) ec buf =
     (case find_end delim buf of Some n \<Rightarrow> (buf, Inr n)
      | None \<Rightarrow> async_read_until delim chunks ec (buf @ chunk))"

text \<open>At most \<open>n\<close> bytes in the buffer; a chunk may be taken in part.\<close>

fun async_read :: "nat \<Rightarrow> byte list list \<Rightarrow> net_ec \<Rightarrow> byte list \<Rightarrow> byte list \<times> net_ec option" where
  "async_read n [] ec buf = (buf, if length buf \<ge> n then None else Some ec)"
| "async_read n (chunk # chunks) ec buf =
     (if length buf \<ge> n then (buf, None)
      else async_read n chunks ec (buf @ take (n - length buf) chunk))"

section \<open>Reading\<close>

text \<open>Returning the first \<open>n\<close> bytes of the buffer; \<open>arrived\<close> is the buffer before the operation's end.\<close>

definition take_result :: "nat \<Rightarrow> client \<Rightarrow> client \<times> byte list res" where
  "take_result n c =
     (c\<lparr>m_read_buffer := drop n (m_read_buffer c), returned := returned c @ take n (m_read_buffer c)\<rparr>,
      Inr (take n (m_read_buffer c)))"

definition buffer_grows :: "byte list \<Rightarrow> client \<Rightarrow> client" where
  "buffer_grows buf c =
     c\<lparr>m_read_buffer := buf, received := received c @ drop (length (m_read_buffer c)) buf\<rparr>"

definition fail_read :: "net_ec \<Rightarrow> client \<Rightarrow> client \<times> byte list res" where
  "fail_read ec c = (case throw_on_read_error ec c of (c, e) \<Rightarrow> (c, Inl e))"

definition read_until :: "byte list \<Rightarrow> network \<Rightarrow> client \<Rightarrow> client \<times> byte list res" where
  "read_until delimiter net c =
     (if \<not> socket_open c then (c, Inl Runtime_error)
      else case async_read_until delimiter (fst net) (snd net) (m_read_buffer c) of
        (buf, Inl ec) \<Rightarrow> fail_read ec (buffer_grows buf c)
      | (buf, Inr n) \<Rightarrow> take_result n (buffer_grows buf c))"

definition read_exactly :: "nat \<Rightarrow> network \<Rightarrow> client \<Rightarrow> client \<times> byte list res" where
  "read_exactly sz net c =
     (if \<not> socket_open c then (c, Inl Runtime_error)
      else if length (m_read_buffer c) < sz then
        case async_read sz (fst net) (snd net) (m_read_buffer c) of
          (buf, Some ec) \<Rightarrow> fail_read ec (buffer_grows buf c)
        | (buf, None) \<Rightarrow> take_result sz (buffer_grows buf c)
      else take_result sz c)"

text \<open>\<open>async_read_some\<close> completes with at most 64 KiB and an error code, or none.\<close>

definition read_some :: "byte list \<Rightarrow> net_ec option \<Rightarrow> client \<Rightarrow> client \<times> byte list res" where
  "read_some data ec c =
     (if \<not> socket_open c then (c, Inl Runtime_error)
      else
        let c = (if m_read_buffer c = [] then buffer_grows (m_read_buffer c @ take 65536 data) c else c)
        in case ec of
             Some ec \<Rightarrow>
               if m_read_buffer c = [] then fail_read ec c
               else take_result (length (m_read_buffer c)) c
           | None \<Rightarrow> take_result (length (m_read_buffer c)) c)"

section \<open>Connecting and writing\<close>

definition client_set_keepalive :: "(sockopt \<Rightarrow> bool) \<Rightarrow> keepalive_t \<Rightarrow> client \<Rightarrow> client \<times> unit res" where
  "client_set_keepalive ok k c =
     (case native_set_keepalive ok k (m_sockopts c) of
        (opts, r) \<Rightarrow> (c\<lparr>m_options := (m_options c)\<lparr>keepalive := k\<rparr>, m_sockopts := opts\<rparr>, r))"

definition client_set_timeout :: "(sockopt \<Rightarrow> bool) \<Rightarrow> u32 \<Rightarrow> client \<Rightarrow> client \<times> unit res" where
  "client_set_timeout ok ms c =
     (case native_set_timeout ok ms (m_sockopts c) of
        (opts, r) \<Rightarrow> (c\<lparr>m_options := (m_options c)\<lparr>timeout_msec := ms\<rparr>, m_sockopts := opts\<rparr>, r))"

text \<open>
  \<open>connect\<close>: resolving may throw, connecting may fail, and so may the calls that set the options.
  \<open>left_open\<close> says whether a connection attempt that failed leaves the socket open.
\<close>

definition client_connect ::
    "unit res \<Rightarrow> net_ec option \<Rightarrow> bool \<Rightarrow> (sockopt \<Rightarrow> bool) \<Rightarrow> client_options \<Rightarrow> client \<Rightarrow> client \<times> unit res" where
  "client_connect resolved ec left_open ok options c =
     (if socket_open c then (c, Inl Runtime_error)
      else
        let c = c\<lparr>m_read_buffer := [], m_options := options, received := [], returned := []\<rparr>
        in case resolved of
             Inl e \<Rightarrow> (c, Inl e)
           | Inr _ \<Rightarrow>
             (case ec of
                Some ec \<Rightarrow> (c\<lparr>socket_open := left_open\<rparr>, Inl (net_error ec))
              | None \<Rightarrow>
                  let c = c\<lparr>socket_open := True, m_sockopts := Map.empty\<rparr>
                  in case client_set_keepalive ok (keepalive options) c of
                       (c, Inl e) \<Rightarrow> (c, Inl e)
                     | (c, Inr _) \<Rightarrow> client_set_timeout ok (timeout_msec options) c))"

definition client_write :: "net_ec option \<Rightarrow> client \<Rightarrow> client \<times> unit res" where
  "client_write ec c =
     (if \<not> socket_open c then (c, Inl Runtime_error)
      else case ec of None \<Rightarrow> (c, Inr ()) | Some ec \<Rightarrow> (disconnect c, Inl (net_error ec)))"

section \<open>The socket's operations append\<close>

lemma async_read_until_extends:
  "prefix buf (fst (async_read_until delim chunks ec buf))"
  by (induction delim chunks ec buf rule: async_read_until.induct)
    (auto split: option.splits dest: append_prefixD)

lemma async_read_extends: "prefix buf (fst (async_read n chunks ec buf))"
  by (induction n chunks ec buf rule: async_read.induct) (auto dest: append_prefixD)

lemma async_read_until_append:
  "async_read_until delim (cs @ ds) ec buf =
     (case async_read_until delim cs ec' buf of
        (buf', Inl _) \<Rightarrow> async_read_until delim ds ec buf'
      | (buf', Inr n) \<Rightarrow> (buf', Inr n))"
proof (induction cs arbitrary: buf)
  case Nil
  show ?case by (cases ds) (simp_all split: option.split)
qed (simp split: option.split)

lemma async_read_append:
  "async_read n (cs @ ds) ec buf =
     (case async_read n cs ec' buf of
        (buf', Some _) \<Rightarrow> async_read n ds ec buf'
      | (buf', None) \<Rightarrow> (buf', None))"
proof (induction cs arbitrary: buf)
  case Nil
  show ?case by (cases ds) simp_all
qed simp

lemma async_read_None:
  "async_read n chunks ec buf = (buf', None) \<Longrightarrow> length buf' \<ge> n"
  by (induction n chunks ec buf rule: async_read.induct) (auto split: if_splits)

lemma async_read_error:
  "async_read n chunks ec buf = (buf', Some e) \<Longrightarrow> e = ec \<and> length buf' < n"
  by (induction n chunks ec buf rule: async_read.induct) (auto split: if_splits)

text \<open>What \<open>find_end\<close> finds.\<close>

lemma find_end_Some:
  "find_end delim buf = Some n \<Longrightarrow>
    n \<le> length buf \<and> suffix delim (take n buf) \<and> (\<forall>k < n. \<not> suffix delim (take k buf))"
proof (induction delim buf arbitrary: n rule: find_end.induct)
  case (1 delim buf)
  show ?case
  proof (cases "prefix delim buf")
    case True
    then have "n = length delim" using 1(2) by (simp add: find_end.simps)
    with True show ?thesis
      by (auto simp: prefix_def suffix_length_le dest: suffix_length_le)
  next
    case False
    then obtain x rest where b: "buf = x # rest" using 1(2) by (cases buf) (auto simp: find_end.simps)
    then obtain m where m: "find_end delim rest = Some m" "n = Suc m"
      using 1(2) False by (auto simp: find_end.simps [of delim "x # rest"])
    have ih: "m \<le> length rest" "suffix delim (take m rest)" "\<forall>k < m. \<not> suffix delim (take k rest)"
      using 1(1) [OF False b m(1)] by auto
    have "\<not> suffix delim (take k buf)" if "k < n" for k
    proof (cases k)
      case 0
      then show ?thesis using False by (auto simp: suffix_def)
    next
      case (Suc j)
      have "delim \<noteq> x # take j rest"
        using False b by (metis take_Suc_Cons take_is_prefix)
      then show ?thesis using ih(3) that m(2) Suc b by (auto simp: suffix_Cons)
    qed
    then show ?thesis using ih m(2) b by (auto simp: suffix_Cons)
  qed
qed

lemma async_read_until_Inr:
  "async_read_until delim chunks ec buf = (buf', Inr n) \<Longrightarrow> find_end delim buf' = Some n"
  by (induction delim chunks ec buf rule: async_read_until.induct) (auto split: option.splits)

lemma async_read_until_Inl:
  "async_read_until delim chunks ec buf = (buf', Inl e) \<Longrightarrow> e = ec \<and> find_end delim buf' = None"
  by (induction delim chunks ec buf rule: async_read_until.induct) (auto split: option.splits)

section \<open>Nothing is lost\<close>

datatype client_op =
    Op_read_until "byte list" network | Op_read nat network | Op_read_some "byte list" "net_ec option"
  | Op_write "net_ec option" | Op_connect "unit res" "net_ec option" bool "sockopt \<Rightarrow> bool" client_options
  | Op_disconnect | Op_set_timeout "sockopt \<Rightarrow> bool" u32 | Op_set_keepalive "sockopt \<Rightarrow> bool" keepalive_t

fun client_exec :: "client_op \<Rightarrow> client \<Rightarrow> client" where
  "client_exec (Op_read_until d net) c = fst (read_until d net c)"
| "client_exec (Op_read n net) c = fst (read_exactly n net c)"
| "client_exec (Op_read_some data ec) c = fst (read_some data ec c)"
| "client_exec (Op_write ec) c = fst (client_write ec c)"
| "client_exec (Op_connect r ec left_open ok opts) c = fst (client_connect r ec left_open ok opts c)"
| "client_exec Op_disconnect c = disconnect c"
| "client_exec (Op_set_timeout ok ms) c = fst (client_set_timeout ok ms c)"
| "client_exec (Op_set_keepalive ok k) c = fst (client_set_keepalive ok k c)"

definition stream_inv :: "client \<Rightarrow> bool" where
  "stream_inv c \<longleftrightarrow> returned c @ m_read_buffer c = received c"

lemma stream_inv_grows: "stream_inv c \<Longrightarrow> prefix (m_read_buffer c) buf \<Longrightarrow> stream_inv (buffer_grows buf c)"
  by (auto simp: stream_inv_def buffer_grows_def prefix_def simp flip: append_assoc)

lemma stream_inv_take: "stream_inv c \<Longrightarrow> stream_inv (fst (take_result n c))"
  by (auto simp: stream_inv_def take_result_def)

lemma stream_inv_fail: "stream_inv c \<Longrightarrow> stream_inv (fst (fail_read ec c))"
  by (auto simp: stream_inv_def fail_read_def throw_on_read_error_def disconnect_def split: if_splits)

lemmas client_sockopt_defs = client_set_keepalive_def client_set_timeout_def

lemma stream_inv_sockopts:
  "stream_inv c \<Longrightarrow> stream_inv (fst (client_set_keepalive ok k c))"
  "stream_inv c \<Longrightarrow> stream_inv (fst (client_set_timeout ok ms c))"
  by (auto simp: stream_inv_def client_sockopt_defs split: prod.splits)

lemma stream_inv_connect: "stream_inv c \<Longrightarrow> stream_inv (fst (client_connect r ec left_open ok opts c))"
  by (auto simp: client_connect_def Let_def stream_inv_def client_sockopt_defs
      split: option.splits sum.splits prod.splits)

lemma stream_inv_exec: "stream_inv c \<Longrightarrow> stream_inv (client_exec op c)"
proof (cases op)
  case (Op_read_until d net)
  assume "stream_inv c"
  moreover obtain buf r where b: "async_read_until d (fst net) (snd net) (m_read_buffer c) = (buf, r)"
    by fastforce
  moreover have "prefix (m_read_buffer c) buf"
    using async_read_until_extends [of "m_read_buffer c" d "fst net" "snd net"] b by simp
  ultimately show ?thesis using Op_read_until
    by (auto simp: read_until_def split: sum.splits intro!: stream_inv_fail stream_inv_take stream_inv_grows)
next
  case (Op_read n net)
  assume "stream_inv c"
  moreover obtain buf r where b: "async_read n (fst net) (snd net) (m_read_buffer c) = (buf, r)"
    by fastforce
  moreover have "prefix (m_read_buffer c) buf"
    using async_read_extends [of "m_read_buffer c" n "fst net" "snd net"] b by simp
  ultimately show ?thesis using Op_read
    by (auto simp: read_exactly_def split: option.splits intro!: stream_inv_fail stream_inv_take stream_inv_grows)
next
  case (Op_read_some data ec)
  assume "stream_inv c"
  then show ?thesis using Op_read_some
    by (auto simp: read_some_def Let_def split: option.splits
        intro!: stream_inv_fail stream_inv_take stream_inv_grows)
next
  case (Op_connect r ec left_open ok opts)
  assume "stream_inv c"
  then show ?thesis using Op_connect stream_inv_connect by simp
qed (auto simp: stream_inv_def disconnect_def client_write_def client_sockopt_defs split: option.splits prod.splits)

lemma stream_inv_run: "stream_inv (fold client_exec ops (new_client opts))"
proof -
  have "stream_inv (fold client_exec ops c)" if "stream_inv c" for c
    using that by (induction ops arbitrary: c) (auto intro: stream_inv_exec)
  then show ?thesis by (simp add: stream_inv_def new_client_def)
qed

text \<open>
  C23: Over any sequence of operations, in success, timeouts and errors alike, the bytes the reads have
  returned since the last \<open>connect\<close>, followed by those still buffered, are the bytes that arrived on
  the connection, in order: none is lost, duplicated or returned out of turn.
\<close>

theorem client_stream:
  fixes ops :: "client_op list" and opts :: client_options
  defines "c \<equiv> fold client_exec ops (new_client opts)"
  shows "returned c @ m_read_buffer c = received c"
  using stream_inv_run unfolding c_def stream_inv_def .

section \<open>What the reads return\<close>

text \<open>
  C25: \<open>read(n)\<close> returns exactly \<open>n\<close> bytes; \<open>read_until\<close> returns everything up to and including the
  first occurrence of the delimiter; \<open>read_some\<close> returns something unless the socket reports success
  without data. A read that times out keeps the connection and all bytes that arrived, any other
  error closes it.
\<close>

theorem client_reads:
  "(\<forall>c' out. read_exactly n net c = (c', Inr out) \<longrightarrow> length out = n) \<and>
   (\<forall>c' out. read_until d net c = (c', Inr out) \<longrightarrow>
      suffix d out \<and> (\<forall>k < length out. \<not> suffix d (take k out))) \<and>
   (\<forall>c' out. read_some data (Some ec) c = (c', Inr out) \<longrightarrow> out \<noteq> []) \<and>
   (\<forall>c' e. read_until d net c = (c', Inl e) \<and> socket_open c \<longrightarrow>
      (if e = Time_out then socket_open c' \<and> find_end d (m_read_buffer c') = None else \<not> socket_open c')) \<and>
   (\<forall>c' e. read_exactly n net c = (c', Inl e) \<and> socket_open c \<longrightarrow>
      (if e = Time_out then socket_open c' \<and> length (m_read_buffer c') < n else \<not> socket_open c'))"
proof (intro conjI allI impI)
  fix c' out
  show "length out = n" if "read_exactly n net c = (c', Inr out)"
    using that by (auto simp: read_exactly_def take_result_def fail_read_def throw_on_read_error_def
        buffer_grows_def split: if_splits prod.splits option.splits dest!: async_read_None)
  show "suffix d out" "\<And>k. k < length out \<Longrightarrow> \<not> suffix d (take k out)"
    if res: "read_until d net c = (c', Inr out)"
  proof -
    obtain buf m where b: "async_read_until d (fst net) (snd net) (m_read_buffer c) = (buf, Inr m)"
      and o: "out = take m buf"
      using res by (auto simp: read_until_def take_result_def fail_read_def throw_on_read_error_def
          buffer_grows_def split: if_splits prod.splits sum.splits)
    have f: "m \<le> length buf" "suffix d (take m buf)" "\<forall>k < m. \<not> suffix d (take k buf)"
      using find_end_Some [OF async_read_until_Inr [OF b]] by auto
    then have "length out = m" "\<And>k. k < m \<Longrightarrow> take k out = take k buf" using o by auto
    then show "suffix d out" "\<And>k. k < length out \<Longrightarrow> \<not> suffix d (take k out)"
      using o f by auto
  qed
  show "out \<noteq> []" if "read_some data (Some ec) c = (c', Inr out)"
    using that by (auto simp: read_some_def take_result_def fail_read_def throw_on_read_error_def
        Let_def split: if_splits)
next
  fix c' e
  assume "read_until d net c = (c', Inl e) \<and> socket_open c"
  then show "if e = Time_out then socket_open c' \<and> find_end d (m_read_buffer c') = None else \<not> socket_open c'"
    by (auto simp: read_until_def take_result_def fail_read_def throw_on_read_error_def net_error_def
        disconnect_def buffer_grows_def split: if_splits prod.splits sum.splits dest!: async_read_until_Inl)
next
  fix c' e
  assume "read_exactly n net c = (c', Inl e) \<and> socket_open c"
  then show "if e = Time_out then socket_open c' \<and> length (m_read_buffer c') < n else \<not> socket_open c'"
    by (auto simp: read_exactly_def take_result_def fail_read_def throw_on_read_error_def net_error_def
        disconnect_def buffer_grows_def split: if_splits prod.splits option.splits dest!: async_read_error)
qed

lemma client_reads_witness:
  "\<exists>c'. read_until [13, 10] ([[1, 13], [10, 7]], Ec_timed_out)
      ((new_client default_options)\<lparr>socket_open := True\<rparr>) = (c', Inr [1, 13, 10]) \<and> suffix [13, 10] [1, 13, 10 :: byte]"
proof -
  let ?c = "(new_client default_options)\<lparr>socket_open := True\<rparr>"
  obtain c' where "read_until [13, 10] ([[1, 13], [10, 7]], Ec_timed_out) ?c = (c', Inr [1, 13, 10])"
    by (simp add: read_until_def new_client_def find_end.simps take_result_def buffer_grows_def)
  with client_reads [of 0 _ ?c "[13, 10]"] show ?thesis by blast
qed

section \<open>Retrying\<close>

lemma buffer_grows_grows:
  assumes "prefix (m_read_buffer c) buf" and "prefix buf buf'"
  shows "buffer_grows buf' (buffer_grows buf c) = buffer_grows buf' c"
  using assms by (auto simp: buffer_grows_def prefix_def)

lemma fail_read_time_out:
  "fail_read ec c = (c', Inl Time_out) \<longleftrightarrow> is_timeout ec \<and> c' = c"
  by (auto simp: fail_read_def throw_on_read_error_def net_error_def)

lemma read_until_time_out:
  assumes "read_until d (cs, ec) c = (c1, Inl Time_out)"
  obtains buf e where "async_read_until d cs ec (m_read_buffer c) = (buf, Inl e)" "c1 = buffer_grows buf c"
    "socket_open c" "prefix (m_read_buffer c) buf"
proof -
  obtain buf r where b: "async_read_until d cs ec (m_read_buffer c) = (buf, r)" by fastforce
  moreover have "prefix (m_read_buffer c) buf"
    using async_read_until_extends [of "m_read_buffer c" d cs ec] b by simp
  ultimately show ?thesis using assms that
    by (auto simp: read_until_def fail_read_time_out take_result_def split: if_splits sum.splits)
qed

lemma read_exactly_time_out:
  assumes "read_exactly n (cs, ec) c = (c1, Inl Time_out)"
  obtains buf e where "async_read n cs ec (m_read_buffer c) = (buf, Some e)" "c1 = buffer_grows buf c"
    "socket_open c" "prefix (m_read_buffer c) buf" "length buf < n" "length (m_read_buffer c) < n"
proof -
  obtain buf r where b: "async_read n cs ec (m_read_buffer c) = (buf, r)" by fastforce
  moreover have "prefix (m_read_buffer c) buf"
    using async_read_extends [of "m_read_buffer c" n cs ec] b by simp
  moreover have "length buf < n" if "r = Some e" for e using async_read_error b that by blast
  ultimately show ?thesis using assms that
    by (auto simp: read_exactly_def fail_read_time_out take_result_def split: if_splits option.splits)
qed

lemma buffer_grows_simps [simp]:
  "socket_open (buffer_grows buf c) = socket_open c" "m_read_buffer (buffer_grows buf c) = buf"
  by (simp_all add: buffer_grows_def)

text \<open>
  C24: Retrying a \<open>read_until\<close> that timed out gives exactly what one uninterrupted call would have given,
  in the result, the buffer and the state of the connection: a timeout is invisible to a caller who
  retries.
\<close>

theorem read_until_retry:
  assumes "read_until d (cs, ec) c = (c1, Inl Time_out)"
  shows "read_until d (ds, ec') c1 = read_until d (cs @ ds, ec') c"
proof -
  obtain buf e where b: "async_read_until d cs ec (m_read_buffer c) = (buf, Inl e)"
    "c1 = buffer_grows buf c" "socket_open c" "prefix (m_read_buffer c) buf"
    using read_until_time_out [OF assms] .
  have g: "buffer_grows buf' (buffer_grows buf c) = buffer_grows buf' c"
    if "async_read_until d ds ec' buf = (buf', r)" for buf' r
    using buffer_grows_grows [OF b(4)] async_read_until_extends [of buf d ds ec'] that by simp
  show ?thesis
    using b g async_read_until_append [of d cs ds ec' "m_read_buffer c" ec]
    by (auto simp: read_until_def split: prod.splits)
qed

lemma read_until_retry_witness:
  "\<exists>c1 c2. read_until [10] ([[1, 2]], Ec_timed_out) ((new_client default_options)\<lparr>socket_open := True\<rparr>) = (c1, Inl Time_out) \<and>
     read_until [10] ([[3, 10]], Ec_timed_out) c1 = (c2, Inr [1, 2, 3, 10])"
proof -
  let ?c = "(new_client default_options)\<lparr>socket_open := True\<rparr>"
  obtain c1 where c1: "read_until [10] ([[1, 2]], Ec_timed_out) ?c = (c1, Inl Time_out)"
    by (simp add: read_until_def new_client_def find_end.simps fail_read_time_out)
  obtain c2 where "read_until [10] ([[1, 2]] @ [[3, 10]], Ec_timed_out) ?c = (c2, Inr [1, 2, 3, 10])"
    by (simp add: read_until_def new_client_def find_end.simps take_result_def buffer_grows_def)
  with read_until_retry [OF c1, of "[[3, 10]]" Ec_timed_out] c1 show ?thesis by auto
qed

text \<open>
  The same for \<open>read(n)\<close>.
\<close>

lemma read_exactly_retry:
  assumes "read_exactly n (cs, ec) c = (c1, Inl Time_out)"
  shows "read_exactly n (ds, ec') c1 = read_exactly n (cs @ ds, ec') c"
proof -
  obtain buf e where b: "async_read n cs ec (m_read_buffer c) = (buf, Some e)"
    "c1 = buffer_grows buf c" "socket_open c" "prefix (m_read_buffer c) buf" "length buf < n"
    "length (m_read_buffer c) < n"
    using read_exactly_time_out [OF assms] .
  have g: "buffer_grows buf' (buffer_grows buf c) = buffer_grows buf' c"
    if "async_read n ds ec' buf = (buf', r)" for buf' r
    using buffer_grows_grows [OF b(4)] async_read_extends [of buf n ds ec'] that by simp
  show ?thesis
    using b g async_read_append [of n cs ds ec' "m_read_buffer c" ec]
    by (auto simp: read_exactly_def split: prod.splits)
qed

lemma read_exactly_retry_witness:
  "\<exists>c1 c2. read_exactly 3 ([[1, 2]], Ec_timed_out) ((new_client default_options)\<lparr>socket_open := True\<rparr>) = (c1, Inl Time_out) \<and>
     read_exactly 3 ([[3, 4]], Ec_timed_out) c1 = (c2, Inr [1, 2, 3])"
proof -
  let ?c = "(new_client default_options)\<lparr>socket_open := True\<rparr>"
  obtain c1 where c1: "read_exactly 3 ([[1, 2]], Ec_timed_out) ?c = (c1, Inl Time_out)"
    by (simp add: read_exactly_def new_client_def fail_read_time_out)
  obtain c2 where "read_exactly 3 ([[1, 2]] @ [[3, 4]], Ec_timed_out) ?c = (c2, Inr [1, 2, 3])"
    by (simp add: read_exactly_def new_client_def take_result_def buffer_grows_def)
  with read_exactly_retry [OF c1, of "[[3, 4]]" Ec_timed_out] c1 show ?thesis by auto
qed

section \<open>What can go wrong\<close>

text \<open>
  A read that fails after bytes have arrived closes the connection with the bytes still buffered: no
  later read returns them, and the next \<open>connect\<close> drops them. A \<open>connect\<close> that throws on a keep-alive
  parameter leaves the client connected.
\<close>

lemma read_error_strands_bytes:
  "\<exists>c. read_exactly 3 ([[1, 2]], Ec_other 1) ((new_client opts)\<lparr>socket_open := True\<rparr>) = (c, Inl Net_other) \<and>
     m_read_buffer c = [1, 2] \<and> read_exactly 1 net c = (c, Inl Runtime_error)"
  by (simp add: read_exactly_def new_client_def fail_read_def throw_on_read_error_def net_error_def
      disconnect_def buffer_grows_def)

lemma failed_connect_leaves_connected:
  assumes "idle_seconds (keepalive opts) > INT_MAX"
  shows "\<exists>c. client_connect (Inr ()) None False ok opts (new_client o') = (c, Inl Invalid_argument) \<and> socket_open c"
  using assms
  by (simp add: client_connect_def new_client_def client_set_keepalive_def native_set_keepalive_def Let_def)

end
