(* ===== verification/SessionOwners.thy ===== *)
theory SessionOwners
  imports TcpSession
begin

text \<open>
  The two owners of sessions: the asynchronous client (\<open>net/include/sg/net/tcp_client.h\<close>,
  \<open>net/src/tcp_client.cpp\<close>) with its one session, and the functions of the server that look a session
  up by its id (\<open>net/src/tcp_server.cpp\<close>).

  The session is the one of theory \<open>TcpSession\<close>, whose steps interleave with the client's; a blocking
  call of the client is split where it waits. Resolving, running the pool and connecting the socket
  have the outcomes they are given. \<open>dropped\<close> and \<open>connect_results\<close> are ghosts: the sessions the client
  has given up, and what the calls of \<open>connect()\<close> and \<open>disconnect()\<close> returned.
\<close>

section \<open>The client\<close>

text \<open>Where the call of \<open>connect()\<close> or \<open>disconnect()\<close> in progress is.\<close>

datatype client_pc = K_idle | K_stopping | K_resolving | K_connecting | K_starting | K_disconnecting

record tcp_client =
  has_context :: bool
  m_session :: "session option"
  client_pc :: client_pc
  dropped :: "session list"
  connect_results :: "unit res list"

definition new_tcp_client :: "bool \<Rightarrow> tcp_client" where
  "new_tcp_client context_given =
     \<lparr>has_context = context_given, m_session = None, client_pc = K_idle, dropped = [],
      connect_results = []\<rparr>"

definition tcp_client_is_connected :: "tcp_client \<Rightarrow> bool" where
  "tcp_client_is_connected c = (case m_session c of None \<Rightarrow> False | Some s \<Rightarrow> is_connected s)"

definition client_session :: "tcp_client \<Rightarrow> session res" where
  "client_session c = (case m_session c of None \<Rightarrow> Inl Logic_error | Some s \<Rightarrow> Inr s)"

text \<open>A call returns or throws.\<close>

definition finish :: "unit res \<Rightarrow> tcp_client \<Rightarrow> tcp_client" where
  "finish r c = c\<lparr>client_pc := K_idle, connect_results := connect_results c @ [r]\<rparr>"

definition drop_session :: "tcp_client \<Rightarrow> tcp_client" where
  "drop_session c =
     c\<lparr>m_session := None, dropped := dropped c @ (case m_session c of None \<Rightarrow> [] | Some s \<Rightarrow> [s])\<rparr>"

text \<open>\<open>connect()\<close> up to the wait for the old session.\<close>

definition connect_begin :: "bool \<Rightarrow> tcp_client \<Rightarrow> tcp_client" where
  "connect_begin in_pool_thread c =
     (if has_context c \<and> in_pool_thread then finish (Inl Logic_error) c
      else if tcp_client_is_connected c then finish (Inl Runtime_error) c
      else case m_session c of
        None \<Rightarrow> c\<lparr>has_context := True, client_pc := K_resolving\<rparr>
      | Some s \<Rightarrow> c\<lparr>m_session := Some (stop_async s), client_pc := K_stopping\<rparr>)"

definition connect_old_stopped :: "tcp_client \<Rightarrow> tcp_client" where
  "connect_old_stopped c = (drop_session c)\<lparr>has_context := True, client_pc := K_resolving\<rparr>"

text \<open>Resolving the name and starting the pool, both of which may throw.\<close>

definition connect_resolved :: "unit res \<Rightarrow> unit res \<Rightarrow> tcp_client \<Rightarrow> tcp_client" where
  "connect_resolved resolved run_res c =
     (case bind_res resolved (\<lambda>_. run_res) of
        Inl e \<Rightarrow> finish (Inl e) c
      | Inr _ \<Rightarrow> c\<lparr>client_pc := K_connecting\<rparr>)"

text \<open>
  The outcome of connecting the socket, then creating the session and the first step of its \<open>start()\<close>.
\<close>

definition connect_connected :: "unit res \<Rightarrow> options_t \<Rightarrow> bool \<Rightarrow> bool \<Rightarrow> tcp_client \<Rightarrow> tcp_client" where
  "connect_connected connected options on_disconnect on_read c =
     (case bind_res connected (\<lambda>_. new_session options False on_disconnect on_read) of
        Inl e \<Rightarrow> finish (Inl e) c
      | Inr s \<Rightarrow>
          (case session_start s of
             (s, Inl e) \<Rightarrow> finish (Inl e) c
           | (s, Inr _) \<Rightarrow> c\<lparr>m_session := Some s, client_pc := K_starting\<rparr>))"

text \<open>\<open>start()\<close> is over: it has spawned the reader, or it has stopped the session and throws.\<close>

definition start_succeeded :: "session \<Rightarrow> bool" where
  "start_succeeded s \<longleftrightarrow> starter s = S_done \<and> reader s \<noteq> R_none"

definition start_threw :: "session \<Rightarrow> bool" where
  "start_threw s \<longleftrightarrow> starter s = S_done \<and> reader s = R_none \<and> m_state s = Stopped"

definition connect_started :: "tcp_client \<Rightarrow> tcp_client" where
  "connect_started c = finish (Inr ()) c"

definition connect_start_threw :: "exn \<Rightarrow> tcp_client \<Rightarrow> tcp_client" where
  "connect_start_threw e c = finish (Inl e) (drop_session c)"

definition disconnect_begin :: "bool \<Rightarrow> tcp_client \<Rightarrow> tcp_client" where
  "disconnect_begin in_pool_thread c =
     (if has_context c \<and> in_pool_thread then finish (Inl Logic_error) c
      else case m_session c of
        None \<Rightarrow> finish (Inr ()) c
      | Some s \<Rightarrow> c\<lparr>m_session := Some (stop_async s), client_pc := K_disconnecting\<rparr>)"

definition disconnect_stopped :: "tcp_client \<Rightarrow> tcp_client" where
  "disconnect_stopped c = finish (Inr ()) c"

section \<open>Steps of the client\<close>

datatype client_event =
    Session_does session_event
  | Cl_connects bool | Cl_old_stopped | Cl_resolved "unit res" "unit res"
  | Cl_connected "unit res" options_t bool bool | Cl_started | Cl_start_threw exn
  | Cl_disconnects bool | Cl_disconnected

fun holds_session :: "(session \<Rightarrow> bool) \<Rightarrow> session option \<Rightarrow> bool" where
  "holds_session p None = False" | "holds_session p (Some s) = p s"

text \<open>Calls of the session's own \<open>start()\<close> are the client's.\<close>

inductive client_step :: "tcp_client \<Rightarrow> client_event \<Rightarrow> tcp_client \<Rightarrow> bool" where
  session_does: "m_session c = Some s \<Longrightarrow> session_step s ev s' \<Longrightarrow> ev \<noteq> Start \<Longrightarrow>
    client_step c (Session_does ev) (c\<lparr>m_session := Some s'\<rparr>)"
| connects: "client_pc c = K_idle \<Longrightarrow> client_step c (Cl_connects io) (connect_begin io c)"
| old_stopped: "client_pc c = K_stopping \<Longrightarrow> holds_session (\<lambda>s. m_state s = Stopped) (m_session c) \<Longrightarrow>
    client_step c Cl_old_stopped (connect_old_stopped c)"
| resolved: "client_pc c = K_resolving \<Longrightarrow> client_step c (Cl_resolved r r') (connect_resolved r r' c)"
| connected: "client_pc c = K_connecting \<Longrightarrow>
    client_step c (Cl_connected r opts d rd) (connect_connected r opts d rd c)"
| started: "client_pc c = K_starting \<Longrightarrow> holds_session start_succeeded (m_session c) \<Longrightarrow>
    client_step c Cl_started (connect_started c)"
| start_threw: "client_pc c = K_starting \<Longrightarrow> holds_session start_threw (m_session c) \<Longrightarrow>
    client_step c (Cl_start_threw e) (connect_start_threw e c)"
| disconnects: "client_pc c = K_idle \<Longrightarrow> client_step c (Cl_disconnects io) (disconnect_begin io c)"
| disconnected: "client_pc c = K_disconnecting \<Longrightarrow> holds_session (\<lambda>s. m_state s = Stopped) (m_session c) \<Longrightarrow>
    client_step c Cl_disconnected (disconnect_stopped c)"

inductive client_init :: "tcp_client \<Rightarrow> bool" where
  "client_init (new_tcp_client b)"

text \<open>The session is a session of theory \<open>TcpSession\<close>; one that was dropped had stopped.\<close>

abbreviation a_session :: "session \<Rightarrow> bool" where
  "a_session s \<equiv> reach session_init session_step s"

fun session_at :: "client_pc \<Rightarrow> session option \<Rightarrow> bool" where
  "session_at K_resolving so = (so = None)"
| "session_at K_connecting so = (so = None)"
| "session_at K_stopping so = holds_session (\<lambda>s. m_start_called s \<and> m_state s \<noteq> Running) so"
| "session_at K_disconnecting so = holds_session (\<lambda>s. m_start_called s \<and> m_state s \<noteq> Running) so"
| "session_at K_starting so = holds_session m_start_called so"
| "session_at K_idle so = (so = None \<or> holds_session m_start_called so)"

definition client_inv :: "tcp_client \<Rightarrow> bool" where
  "client_inv c \<longleftrightarrow> session_at (client_pc c) (m_session c) \<and>
     (m_session c = None \<or> holds_session a_session (m_session c)) \<and>
     (m_session c \<noteq> None \<or> client_pc c \<noteq> K_idle \<longrightarrow> has_context c) \<and>
     list_all (\<lambda>s. a_session s \<and> m_start_called s \<and> m_state s = Stopped) (dropped c)"

lemma a_session_step: "a_session s \<Longrightarrow> session_step s ev s' \<Longrightarrow> a_session s'"
  by (rule reach_step)

lemma a_session_stop: "a_session s \<Longrightarrow> a_session (stop_async s)"
  by (rule a_session_step [OF _ session_step.stop_async])

lemma a_session_started: "new_session opts a b d = Inr s \<Longrightarrow> session_start s = (s', Inr ()) \<Longrightarrow> a_session s'"
  by (rule a_session_step [of s Start]) (auto intro: session_init.intros session_step.start)

lemma forward_start_called:
  assumes "a_session s" and "session_step s ev s'"
  shows "m_start_called s \<Longrightarrow> m_start_called s'"
    and "m_start_called s \<Longrightarrow> m_state s \<noteq> Running \<Longrightarrow> m_state s' \<noteq> Running"
  using session_step_forward [OF assms(2) life_system.reach_inv [OF assms(1)]]
  by (auto simp: forward_def)

lemma stop_async_fields [simp]: "m_start_called (stop_async s) = m_start_called s"
  "m_state (stop_async s) \<noteq> Running"
  by (auto simp: stop_async_def stop_async_locked_def)

lemma session_start_called: "session_start s = (s', Inr ()) \<Longrightarrow> m_start_called s'"
  by (auto simp: session_start_def Let_def split: if_splits)

lemma holds_session_iff: "holds_session p so \<longleftrightarrow> (\<exists>s. so = Some s \<and> p s)"
  by (cases so) auto

lemma client_inv_step:
  assumes "client_inv c" and "client_step c ev c'"
  shows "client_inv c'"
  using assms(2,1)
proof (induct rule: client_step.induct)
  case (session_does c s ev s')
  then have s: "a_session s" by (simp add: client_inv_def)
  then have "a_session s'" using a_session_step session_does(2) by blast
  with session_does forward_start_called [OF s session_does(2)] show ?case
    by (cases "client_pc c") (auto simp: client_inv_def)
next
  case (connects c io)
  then show ?case
    by (auto simp: client_inv_def connect_begin_def finish_def holds_session_iff a_session_stop
        split: option.splits)
next
  case (old_stopped c)
  then show ?case
    by (auto simp: client_inv_def connect_old_stopped_def drop_session_def holds_session_iff)
next
  case (resolved c r r')
  then show ?case
    by (auto simp: client_inv_def connect_resolved_def finish_def split: sum.splits)
next
  case (connected c r opts d rd)
  then show ?case
    by (auto simp: client_inv_def connect_connected_def finish_def bind_res_Inr_iff
        split: sum.splits prod.splits intro: a_session_started session_start_called)
next
  case (start_threw c e)
  then show ?case
    by (auto simp: client_inv_def connect_start_threw_def finish_def drop_session_def holds_session_iff
        start_threw_def)
qed (auto simp: client_inv_def connect_started_def disconnect_begin_def disconnect_stopped_def finish_def
      holds_session_iff a_session_stop split: option.splits)

lemma client_inv_init: "client_init c \<Longrightarrow> client_inv c"
  by (auto elim!: client_init.cases simp: client_inv_def new_tcp_client_def)

interpretation client_system: invariant_system client_init client_step client_inv
  by unfold_locales (fact client_inv_init, rule client_inv_step)

text \<open>
  C26: Whatever the interleaving of the client's calls with its session, the client holds at most one
  session; a session is given up only once it has stopped, after which it can do nothing more: it
  refuses to start and to write, and its disconnection callback has been called if it was owed. While
  \<open>connect()\<close> resolves or connects, and so whenever it throws there, the client holds no session.
\<close>

theorem client_drops_only_stopped:
  assumes "reach client_init client_step c"
  shows "(client_pc c \<in> {K_resolving, K_connecting} \<longrightarrow> client_session c = Inl Logic_error) \<and>
    (\<forall>s. m_session c = Some s \<longrightarrow> a_session s \<and> has_context c) \<and>
    (\<forall>s \<in> set (dropped c). m_state s = Stopped \<and> session_start s = (s, Inl Logic_error) \<and>
       session_write msg s = (s, Inl Runtime_error))"
proof -
  have inv: "client_inv c" by (rule client_system.reach_inv [OF assms])
  then show ?thesis
    by (cases "client_pc c")
      (auto simp: client_inv_def client_session_def list_all_iff session_start_def session_write_def
        holds_session_iff)
qed

text \<open>A client without a pool of its own calls \<open>connect()\<close>.\<close>

lemma client_drops_only_stopped_witness:
  "\<exists>c. reach client_init client_step c \<and> client_pc c = K_resolving \<and> client_session c = Inl Logic_error"
proof -
  let ?c = "connect_begin False (new_tcp_client False)"
  have "client_step (new_tcp_client False) (Cl_connects False) ?c"
    by (rule client_step.connects) (simp add: new_tcp_client_def)
  then have r: "reach client_init client_step ?c" using client_init.intros by blast
  have "client_pc ?c = K_resolving"
    by (simp add: connect_begin_def new_tcp_client_def tcp_client_is_connected_def)
  with client_drops_only_stopped [OF r] r show ?thesis by blast
qed

text \<open>
  From the I/O thread \<open>connect()\<close> and \<open>disconnect()\<close> throw and change nothing; \<open>connect()\<close> on a
  connected client throws and keeps the connection; \<open>disconnect()\<close> elsewhere asks the session to stop
  and returns only when it has.
\<close>

theorem client_calls_guarded:
  assumes "has_context c"
  shows "connect_begin True c = finish (Inl Logic_error) c \<and>
    disconnect_begin True c = finish (Inl Logic_error) c \<and>
    (tcp_client_is_connected c \<longrightarrow> connect_begin False c = finish (Inl Runtime_error) c) \<and>
    m_session (finish r c) = m_session c \<and>
    (m_session c \<noteq> None \<longrightarrow> \<not> tcp_client_is_connected (disconnect_begin False c)) \<and>
    (\<forall>d. client_step d Cl_disconnected d' \<longrightarrow> \<not> tcp_client_is_connected d' \<and>
       holds_session (\<lambda>s. m_state s = Stopped) (m_session d'))"
  using assms
  by (auto simp: connect_begin_def disconnect_begin_def finish_def tcp_client_is_connected_def is_connected_def
      client_step.simps disconnect_stopped_def holds_session_iff)

lemma client_calls_guarded_witness:
  "connect_begin True (new_tcp_client True) = finish (Inl Logic_error) (new_tcp_client True)"
  using client_calls_guarded [of "new_tcp_client True"] by (simp add: new_tcp_client_def)

section \<open>The sessions of the server by id\<close>

definition find_session :: "(nat \<rightharpoonup> session) \<Rightarrow> nat \<Rightarrow> session res" where
  "find_session ss sid = (case ss sid of None \<Rightarrow> Inl Session_not_found | Some x \<Rightarrow> Inr x)"

definition server_write :: "nat \<Rightarrow> msg \<Rightarrow> (nat \<rightharpoonup> session) \<Rightarrow> (nat \<rightharpoonup> session) \<times> unit res" where
  "server_write sid data ss =
     (case find_session ss sid of Inl e \<Rightarrow> (ss, Inl e)
      | Inr x \<Rightarrow> (case session_write data x of (x', r) \<Rightarrow> (ss(sid \<mapsto> x'), r)))"

definition server_disconnect :: "nat \<Rightarrow> (nat \<rightharpoonup> session) \<Rightarrow> (nat \<rightharpoonup> session) \<times> unit res" where
  "server_disconnect sid ss =
     (case find_session ss sid of Inl e \<Rightarrow> (ss, Inl e) | Inr x \<Rightarrow> (ss(sid \<mapsto> stop_async x), Inr ()))"

definition disconnect_all :: "(nat \<rightharpoonup> session) \<Rightarrow> (nat \<rightharpoonup> session)" where
  "disconnect_all ss = (\<lambda>sid. map_option stop_async (ss sid))"

text \<open>
  Writing to an id gives what writing to that session gives and touches no other; an id without a
  session throws \<open>session_not_found\<close> and changes nothing. After \<open>disconnect_all()\<close> the same sessions
  are there and every one refuses to be written to, each having become what its own \<open>stop_async()\<close>
  makes it.
\<close>

lemma server_sessions_by_id:
  "(ss sid = None \<longrightarrow> server_write sid msg ss = (ss, Inl Session_not_found) \<and>
      server_disconnect sid ss = (ss, Inl Session_not_found)) \<and>
   (\<forall>s. ss sid = Some s \<longrightarrow>
      server_write sid msg ss = (ss(sid \<mapsto> fst (session_write msg s)), snd (session_write msg s)) \<and>
      server_write sid msg (fst (server_disconnect sid ss)) =
        (fst (server_disconnect sid ss), Inl Runtime_error)) \<and>
   dom (disconnect_all ss) = dom ss \<and>
   (sid \<in> dom ss \<longrightarrow> server_write sid msg (disconnect_all ss) = (disconnect_all ss, Inl Runtime_error))"
  by (auto simp: server_write_def server_disconnect_def find_session_def disconnect_all_def
      session_write_def dom_def split: option.splits prod.splits)

lemma server_sessions_by_id_example:
  "server_write 3 [1] (disconnect_all [3 \<mapsto> plain_session]) =
     (disconnect_all [3 \<mapsto> plain_session], Inl Runtime_error)"
  using server_sessions_by_id [of "[3 \<mapsto> plain_session]" 3 "[1]"] by simp

end
