(* ===== verification/FileWriter.thy ===== *)
theory FileWriter
  imports Prelude "HOL-Library.Sublist"
begin

text \<open>
  The background file writer: \<open>common/include/sg/file_writer.h\<close>, \<open>common/src/file_writer.cpp\<close>.

  \<open>writer_step\<close> has a rule for every action of the writer thread and of the threads that call it.
  The stream is the contents of the file and whether it is good: a \<open>std::fstream\<close> reports errors in
  its state and does not throw, so writing to a bad stream does nothing; \<open>Wr_throws\<close> stands for any
  exception there. The semaphore counts, as the standard library's implementation does; its declared
  maximum is one. \<open>accepted\<close>, \<open>accepted_at_stop\<close> and \<open>errors\<close> are ghosts: the bytes given to
  \<open>write_async\<close> since the last start (with those then still queued), those when \<open>stop()\<close> was called, and
  the calls of the error callback.
\<close>

section \<open>State\<close>

text \<open>\<open>Wr_writing\<close> carries the buffers of \<open>m_old_data\<close> and the bytes written from it so far.\<close>

datatype writer_pc = Wr_none | Wr_loop | Wr_acquire | Wr_swap | Wr_writing "byte list list" nat
  | Wr_check | Wr_close | Wr_stopped_cb | Wr_finished

text \<open>The thread in \<open>stop()\<close>.\<close>

datatype stopper_pc = St_none | St_release | St_join

record file_writer =
  m_signal :: nat
  contents :: "byte list"
  file_good :: bool
  stop_requested :: bool
  m_data :: "byte list list"
  m_byte_count :: nat
  has_on_stop_cb :: bool
  thread_pc :: writer_pc
  stopper :: stopper_pc
  accepted :: "byte list"
  accepted_at_stop :: "byte list option"
  errors :: nat

definition new_file_writer :: file_writer where
  "new_file_writer =
     \<lparr>m_signal = 0, contents = [], file_good = False, stop_requested = False, m_data = [],
      m_byte_count = 0, has_on_stop_cb = False, thread_pc = Wr_none, stopper = St_none,
      accepted = [], accepted_at_stop = None, errors = 0\<rparr>"

section \<open>Calls\<close>

definition write_async :: "byte list \<Rightarrow> file_writer \<Rightarrow> file_writer" where
  "write_async buff w =
     w\<lparr>m_data := m_data w @ [buff], m_signal := m_signal w + 1, accepted := accepted w @ buff\<rparr>"

definition writer_is_running :: "file_writer \<Rightarrow> bool" where
  "writer_is_running w \<longleftrightarrow> thread_pc w \<noteq> Wr_none"

text \<open>\<open>opened\<close> says whether the file could be opened; either way it is the stream of the thread.\<close>

definition writer_start :: "bool \<Rightarrow> bool \<Rightarrow> file_writer \<Rightarrow> file_writer \<times> unit res" where
  "writer_start opened on_stop_cb w =
     (if writer_is_running w then (w, Inl Runtime_error)
      else (w\<lparr>has_on_stop_cb := on_stop_cb, m_byte_count := 0, contents := [], file_good := opened,
              stop_requested := False, thread_pc := Wr_loop,
              accepted := concat (m_data w), accepted_at_stop := None, errors := 0\<rparr>, Inr ()))"

text \<open>\<open>stop()\<close>: request, release, join.\<close>

definition stop_request :: "file_writer \<Rightarrow> file_writer" where
  "stop_request w =
     (if writer_is_running w
      then w\<lparr>stop_requested := True, stopper := St_release,
             accepted_at_stop := (case accepted_at_stop w of None \<Rightarrow> Some (accepted w) | a \<Rightarrow> a)\<rparr>
      else w)"

definition stop_release :: "file_writer \<Rightarrow> file_writer" where
  "stop_release w = w\<lparr>m_signal := m_signal w + 1, stopper := St_join\<rparr>"

definition stop_joined :: "file_writer \<Rightarrow> file_writer" where
  "stop_joined w = w\<lparr>thread_pc := Wr_none, stopper := St_none\<rparr>"

section \<open>The writer thread\<close>

definition wr_loop :: "file_writer \<Rightarrow> file_writer" where
  "wr_loop w = w\<lparr>thread_pc := (if stop_requested w then Wr_swap else Wr_acquire)\<rparr>"

definition wr_acquired :: "file_writer \<Rightarrow> file_writer" where
  "wr_acquired w = w\<lparr>m_signal := m_signal w - 1, thread_pc := Wr_swap\<rparr>"

definition wr_swap :: "file_writer \<Rightarrow> file_writer" where
  "wr_swap w = w\<lparr>m_data := [], thread_pc := Wr_writing (m_data w) 0\<rparr>"

text \<open>One buffer, or the end of the inner loop. \<open>good\<close>: the write succeeds on a good stream.\<close>

fun wr_write :: "bool \<Rightarrow> byte list list \<Rightarrow> nat \<Rightarrow> file_writer \<Rightarrow> file_writer" where
  "wr_write good [] count w =
     w\<lparr>m_byte_count := m_byte_count w + count, thread_pc := Wr_check\<rparr>"
| "wr_write good (buff # old) count w =
     w\<lparr>contents := (if file_good w \<and> good then contents w @ buff else contents w), file_good := file_good w \<and> good,
       thread_pc := Wr_writing old (count + length buff)\<rparr>"

definition wr_throws :: "file_writer \<Rightarrow> file_writer" where
  "wr_throws w = w\<lparr>errors := errors w + 1, thread_pc := Wr_close\<rparr>"

definition wr_check :: "file_writer \<Rightarrow> file_writer" where
  "wr_check w = w\<lparr>thread_pc := (if stop_requested w \<and> m_data w = [] then Wr_close else Wr_loop)\<rparr>"

definition wr_close :: "file_writer \<Rightarrow> file_writer" where
  "wr_close w = w\<lparr>thread_pc := (if has_on_stop_cb w then Wr_stopped_cb else Wr_finished)\<rparr>"

definition wr_stopped :: "file_writer \<Rightarrow> file_writer" where
  "wr_stopped w = w\<lparr>thread_pc := Wr_finished\<rparr>"

section \<open>Steps\<close>

datatype writer_event =
    Writes "byte list" | Starts bool bool | Stop_requests | Stop_releases | Stop_joins
  | Wr_loops | Wr_acquires | Wr_swaps | Wr_writes bool | Wr_throw | Wr_checks | Wr_closes | Wr_stops

fun next_writer :: "writer_event \<Rightarrow> file_writer \<Rightarrow> file_writer option" where
  "next_writer (Writes b) w = Some (write_async b w)"
| "next_writer (Starts opened cb) w = Some (fst (writer_start opened cb w))"
| "next_writer Stop_requests w = guarded (stopper w = St_none) (stop_request w)"
| "next_writer Stop_releases w = guarded (stopper w = St_release) (stop_release w)"
| "next_writer Stop_joins w = guarded (stopper w = St_join \<and> thread_pc w = Wr_finished) (stop_joined w)"
| "next_writer Wr_loops w = guarded (thread_pc w = Wr_loop) (wr_loop w)"
| "next_writer Wr_acquires w = guarded (thread_pc w = Wr_acquire \<and> m_signal w > 0) (wr_acquired w)"
| "next_writer Wr_swaps w = guarded (thread_pc w = Wr_swap) (wr_swap w)"
| "next_writer (Wr_writes good) w =
     (case thread_pc w of Wr_writing old n \<Rightarrow> Some (wr_write good old n w) | _ \<Rightarrow> None)"
| "next_writer Wr_throw w = (case thread_pc w of Wr_writing old n \<Rightarrow> Some (wr_throws w) | _ \<Rightarrow> None)"
| "next_writer Wr_checks w = guarded (thread_pc w = Wr_check) (wr_check w)"
| "next_writer Wr_closes w = guarded (thread_pc w = Wr_close) (wr_close w)"
| "next_writer Wr_stops w = guarded (thread_pc w = Wr_stopped_cb) (wr_stopped w)"

definition writer_step :: "file_writer \<Rightarrow> writer_event \<Rightarrow> file_writer \<Rightarrow> bool" where
  "writer_step w ev w' \<longleftrightarrow> next_writer ev w = Some w'"

inductive writer_init :: "file_writer \<Rightarrow> bool" where
  "writer_init new_file_writer"

lemmas writer_defs = write_async_def writer_start_def writer_is_running_def stop_request_def
  stop_release_def stop_joined_def wr_loop_def wr_acquired_def wr_swap_def wr_throws_def wr_check_def
  wr_close_def wr_stopped_def

section \<open>Nothing is lost\<close>

text \<open>What the thread has taken off the queue and not yet written.\<close>

fun in_hand :: "writer_pc \<Rightarrow> byte list" where
  "in_hand (Wr_writing old n) = concat old" | "in_hand _ = []"

fun written_in_batch :: "writer_pc \<Rightarrow> nat" where
  "written_in_batch (Wr_writing old n) = n" | "written_in_batch _ = 0"

fun past_check :: "writer_pc \<Rightarrow> bool" where
  "past_check Wr_close = True" | "past_check Wr_stopped_cb = True" | "past_check Wr_finished = True"
| "past_check _ = False"

definition bytes_inv :: "file_writer \<Rightarrow> bool" where
  "bytes_inv w \<longleftrightarrow>
     (thread_pc w \<noteq> Wr_none \<and> errors w = 0 \<and> file_good w \<longrightarrow>
        contents w @ in_hand (thread_pc w) @ concat (m_data w) = accepted w \<and>
        length (contents w) = m_byte_count w + written_in_batch (thread_pc w))"

lemma bytes_inv_step:
  assumes "bytes_inv w" and "writer_step w ev w'"
  shows "bytes_inv w'"
proof -
  have step: "next_writer ev w = Some w'" using assms(2) by (simp add: writer_step_def)
  show ?thesis
  proof (cases ev)
    case (Writes b)
    have "contents w @ in_hand (thread_pc w) @ concat (m_data w) @ b = accepted w @ b"
      if "contents w @ in_hand (thread_pc w) @ concat (m_data w) = accepted w"
      using that by (metis append.assoc)
    then show ?thesis using Writes step assms(1) by (auto simp: write_async_def bytes_inv_def)
  next
    case (Starts opened cb)
    then show ?thesis using step assms(1)
      by (cases "writer_is_running w") (auto simp: writer_start_def bytes_inv_def)
  next
    case Stop_requests
    then show ?thesis using step assms(1)
      by (cases "thread_pc w = Wr_none") (auto simp: stop_request_def writer_is_running_def bytes_inv_def)
  next
    case (Wr_writes good)
    then obtain old n where o: "thread_pc w = Wr_writing old n" "w' = wr_write good old n w"
      using step by (auto split: writer_pc.splits)
    then show ?thesis using assms(1) by (cases old) (auto simp: bytes_inv_def)
  next
    case Wr_throw
    then show ?thesis using step by (auto simp: wr_throws_def bytes_inv_def split: writer_pc.splits)
  qed (use step assms(1) in \<open>auto simp: writer_defs bytes_inv_def\<close>)
qed

text \<open>What a stop has seen, and that a thread waiting for data is woken.\<close>

definition stop_inv :: "file_writer \<Rightarrow> bool" where
  "stop_inv w \<longleftrightarrow>
     (thread_pc w \<noteq> Wr_none \<longrightarrow> (stop_requested w \<longleftrightarrow> accepted_at_stop w \<noteq> None)) \<and>
     (past_check (thread_pc w) \<and> errors w = 0 \<longrightarrow> stop_requested w) \<and>
     (stopper w \<noteq> St_none \<longrightarrow> stop_requested w \<and> thread_pc w \<noteq> Wr_none) \<and>
     (thread_pc w = Wr_acquire \<and> stopper w = St_join \<longrightarrow> m_signal w > 0) \<and>
     (errors w > 0 \<longrightarrow> past_check (thread_pc w) \<or> thread_pc w = Wr_none)"

lemma stop_inv_step:
  assumes "stop_inv w" and "writer_step w ev w'"
  shows "stop_inv w'"
proof -
  have step: "next_writer ev w = Some w'" using assms(2) by (simp add: writer_step_def)
  show ?thesis
  proof (cases ev)
    case (Starts opened cb)
    then show ?thesis using step assms(1)
      by (cases "writer_is_running w"; cases "stopper w")
        (auto simp: writer_start_def writer_is_running_def stop_inv_def)
  next
    case (Wr_writes good)
    then obtain old n where o: "thread_pc w = Wr_writing old n" "w' = wr_write good old n w"
      using step by (auto split: writer_pc.splits)
    then show ?thesis using assms(1) by (cases old) (auto simp: stop_inv_def)
  next
    case Wr_throw
    then show ?thesis using step assms(1) by (auto simp: wr_throws_def stop_inv_def split: writer_pc.splits)
  next
    case Stop_requests
    then show ?thesis using step assms(1)
      by (cases "thread_pc w") (auto simp: stop_request_def writer_is_running_def stop_inv_def split: option.splits)
  next
    case (Writes b)
    then have "w' = write_async b w" using step by simp
    then show ?thesis using assms(1)
      by (cases "thread_pc w"; cases "stopper w = St_none") (simp_all add: write_async_def stop_inv_def)
  qed (use step assms(1) in \<open>auto simp: writer_defs stop_inv_def split: if_splits\<close>)
qed

text \<open>What was accepted when \<open>stop()\<close> was called is in the file once the thread leaves its loop.\<close>

definition cover_inv :: "file_writer \<Rightarrow> bool" where
  "cover_inv w \<longleftrightarrow>
     (\<forall>a. accepted_at_stop w = Some a \<and> thread_pc w \<noteq> Wr_none \<longrightarrow> prefix a (accepted w) \<and>
        (past_check (thread_pc w) \<and> errors w = 0 \<and> file_good w \<longrightarrow> prefix a (contents w)))"

lemma cover_inv_step:
  assumes "cover_inv w" and "bytes_inv w" and "stop_inv w" and "writer_step w ev w'"
  shows "cover_inv w'"
proof -
  have step: "next_writer ev w = Some w'" using assms(4) by (simp add: writer_step_def)
  show ?thesis
  proof (cases ev)
    case (Starts opened cb)
    then show ?thesis using step assms(1)
      by (cases "writer_is_running w") (auto simp: writer_start_def cover_inv_def)
  next
    case (Wr_writes good)
    then obtain old n where o: "thread_pc w = Wr_writing old n" "w' = wr_write good old n w"
      using step by (auto split: writer_pc.splits)
    then show ?thesis using assms(1) by (cases old) (auto simp: cover_inv_def)
  next
    case Wr_throw
    then show ?thesis using step assms(1) by (auto simp: wr_throws_def cover_inv_def split: writer_pc.splits)
  next
    case Stop_requests
    then show ?thesis using step assms(1,3)
      by (cases "thread_pc w = Wr_none")
        (auto simp: stop_request_def writer_is_running_def cover_inv_def stop_inv_def split: option.splits)
  next
    case Wr_checks
    then have w: "thread_pc w = Wr_check" "w' = wr_check w" using step by auto
    have "prefix a (contents w)"
      if "accepted_at_stop w = Some a" "errors w = 0" "file_good w" "m_data w = []" for a
    proof -
      have "contents w = accepted w" using assms(2) that w by (simp add: bytes_inv_def)
      then show ?thesis using assms(1) that(1) w by (simp add: cover_inv_def)
    qed
    then show ?thesis using assms(1) w by (auto simp: wr_check_def cover_inv_def)
  qed (use step assms(1) in \<open>auto simp: writer_defs cover_inv_def split: if_splits\<close>)
qed

definition writer_inv :: "file_writer \<Rightarrow> bool" where
  "writer_inv w \<longleftrightarrow> bytes_inv w \<and> stop_inv w \<and> cover_inv w"

lemma writer_inv_init: "writer_init w \<Longrightarrow> writer_inv w"
  by (auto elim!: writer_init.cases
      simp: new_file_writer_def writer_inv_def bytes_inv_def stop_inv_def cover_inv_def)

interpretation writer_system: invariant_system writer_init writer_step writer_inv
  by unfold_locales (use bytes_inv_step stop_inv_step cover_inv_step in
      \<open>auto simp: writer_inv_def dest: writer_inv_init\<close>)

text \<open>
  C38: \<open>stop()\<close> flushes: while the stream is good the file is a prefix of what \<open>write_async\<close> accepted, in
  order, and when the thread has ended without an exception it holds everything accepted before
  \<open>stop()\<close> was called, and \<open>bytes_transferred()\<close> is its length; what is not in the file is still
  queued. A thread that waits for data when \<open>stop()\<close> joins it can go on.
\<close>

theorem file_writer_flushes:
  assumes "reach writer_init writer_step w" and "thread_pc w \<noteq> Wr_none" and "errors w = 0"
  shows "(file_good w \<longrightarrow> contents w @ in_hand (thread_pc w) @ concat (m_data w) = accepted w) \<and>
    (file_good w \<and> thread_pc w = Wr_finished \<longrightarrow>
       (\<exists>a. accepted_at_stop w = Some a \<and> prefix a (contents w) \<and> m_byte_count w = length (contents w))) \<and>
    (thread_pc w = Wr_acquire \<and> stopper w = St_join \<longrightarrow> writer_step w Wr_acquires (wr_acquired w))"
proof -
  have "writer_inv w" by (rule writer_system.reach_inv [OF assms(1)])
  then have b: "bytes_inv w" and s: "stop_inv w" and c: "cover_inv w" by (auto simp: writer_inv_def)
  have "\<exists>a. accepted_at_stop w = Some a \<and> prefix a (contents w) \<and> m_byte_count w = length (contents w)"
    if "file_good w" "thread_pc w = Wr_finished"
    using that b s c assms(2,3) by (auto simp: bytes_inv_def stop_inv_def cover_inv_def)
  moreover have "m_signal w > 0" if "thread_pc w = Wr_acquire" "stopper w = St_join"
    using that s by (simp add: stop_inv_def)
  ultimately show ?thesis using b assms(2,3) by (auto simp: bytes_inv_def writer_step_def)
qed

text \<open>Two buffers, one of them while the first is being written, and a stop.\<close>

lemma writer_reach_exec:
  "exec_run next_writer es new_file_writer = Some w \<Longrightarrow> reach writer_init writer_step w"
  by (rule reach_run [OF reach_init [of writer_init, OF writer_init.intros]])
    (auto intro: exec_run_sound simp: writer_step_def)

lemma file_writer_flushes_witness:
  "\<exists>w. reach writer_init writer_step w \<and> thread_pc w = Wr_finished \<and> contents w = [1, 2, 3] \<and>
     (\<exists>a. accepted_at_stop w = Some a \<and> prefix a (contents w) \<and> m_byte_count w = length (contents w))"
proof -
  let ?es = "[Starts True False, Writes [1, 2], Wr_loops, Wr_acquires, Wr_swaps, Wr_writes True,
    Writes [3], Stop_requests, Wr_writes True, Wr_checks, Stop_releases, Wr_loops, Wr_swaps,
    Wr_writes True, Wr_writes True, Wr_checks, Wr_closes]"
  obtain w where w: "exec_run next_writer ?es new_file_writer = Some w" "thread_pc w = Wr_finished"
    "contents w = [1, 2, 3]" "errors w = 0" "file_good w"
    by (simp add: writer_defs new_file_writer_def guarded_def)
  have r: "reach writer_init writer_step w" by (rule writer_reach_exec [OF w(1)])
  have "thread_pc w \<noteq> Wr_none" using w(2) by simp
  from file_writer_flushes [OF r this w(4)] w r show ?thesis by blast
qed

section \<open>What can go wrong\<close>

text \<open>
  A file that cannot be opened is never reported: the bytes are counted and dropped without a call of
  the error callback. Two writes before the thread wakes release the binary semaphore above its
  maximum.
\<close>

lemma unopened_file_unreported:
  "\<exists>w. reach writer_init writer_step w \<and> thread_pc w = Wr_check \<and> errors w = 0 \<and> contents w = [] \<and>
     m_byte_count w = 2 \<and> m_data w = [] \<and> accepted w = [1, 2]"
proof -
  let ?es = "[Starts False False, Writes [1, 2], Wr_loops, Wr_acquires, Wr_swaps, Wr_writes True,
    Wr_writes True]"
  obtain w where w: "exec_run next_writer ?es new_file_writer = Some w" "thread_pc w = Wr_check"
    "errors w = 0" "contents w = []" "m_byte_count w = 2" "m_data w = []" "accepted w = [1, 2]"
    by (simp add: writer_defs new_file_writer_def guarded_def)
  then show ?thesis using writer_reach_exec by blast
qed

lemma binary_semaphore_exceeded:
  "\<exists>w. reach writer_init writer_step w \<and> m_signal w = 2"
proof -
  obtain w where "exec_run next_writer [Starts True False, Writes [1], Writes [2]] new_file_writer = Some w"
    "m_signal w = 2"
    by (simp add: writer_defs new_file_writer_def guarded_def)
  then show ?thesis using writer_reach_exec by blast
qed

end
