(* ===== verification/Containers.thy ===== *)
theory Containers
  imports Prelude
begin

text \<open>
  Searching sorted data (\<open>common/include/sg/bounds.h\<close>) and nested ranges (\<open>common/include/sg/ranges.h\<close>).

  Of the standard library, \<open>std::upper_bound\<close> and \<open>std::lower_bound\<close> are modelled by what they return:
  the length of the part of the range before the partition point.
\<close>

section \<open>Bounds\<close>

definition std_upper_bound :: "'a::linorder list \<Rightarrow> 'a \<Rightarrow> nat" where
  "std_upper_bound xs v = length (takeWhile (\<lambda>x. \<not> v < x) xs)"

definition std_lower_bound :: "'a::linorder list \<Rightarrow> 'a \<Rightarrow> nat" where
  "std_lower_bound xs v = length (takeWhile (\<lambda>x. x < v) xs)"

definition upper_bound_index :: "'a::linorder list \<Rightarrow> 'a \<Rightarrow> nat res" where
  "upper_bound_index data to_find =
     (if length data = 0 then Inl Out_of_range
      else let i = std_upper_bound data to_find
           in Inr (if i = length data then length data - 1 else i))"

definition greater_or_equal_index :: "'a::linorder list \<Rightarrow> 'a \<Rightarrow> nat res" where
  "greater_or_equal_index data to_find =
     (if length data = 0 then Inl Out_of_range
      else bind_res (upper_bound_index data to_find)
        (\<lambda>i. Inr (if i \<noteq> 0 \<and> data ! (i - 1) \<ge> to_find then i - 1 else i)))"

definition lower_bound_index :: "'a::linorder list \<Rightarrow> 'a \<Rightarrow> nat res" where
  "lower_bound_index data to_find =
     (if length data = 0 then Inl Out_of_range
      else let i = std_lower_bound data to_find
           in Inr (if i = length data then length data - 1 else i))"

definition less_or_equal_index :: "'a::linorder list \<Rightarrow> 'a \<Rightarrow> nat res" where
  "less_or_equal_index data to_find =
     (if length data = 0 then Inl Out_of_range
      else bind_res (lower_bound_index data to_find)
        (\<lambda>i. Inr (if i \<noteq> length data - 1 \<and> data ! (i + 1) \<le> to_find then i + 1 else i)))"

text \<open>The overloads for containers.\<close>

definition container_upper_bound_index :: "'a::linorder list \<Rightarrow> 'a \<Rightarrow> nat res" where
  "container_upper_bound_index data to_find =
     (if data = [] then Inl Out_of_range
      else let upper = std_upper_bound data to_find
           in if upper = length data then Inr (length data - 1) else Inr upper)"

definition container_lower_bound_index :: "'a::linorder list \<Rightarrow> 'a \<Rightarrow> nat res" where
  "container_lower_bound_index data to_find =
     (if data = [] then Inl Out_of_range
      else let upper = std_lower_bound data to_find
           in if upper = length data then Inr (length data - 1) else Inr upper)"

lemma container_overloads:
  "container_upper_bound_index = upper_bound_index" "container_lower_bound_index = lower_bound_index"
  by (auto simp: fun_eq_iff container_upper_bound_index_def upper_bound_index_def Let_def
      container_lower_bound_index_def lower_bound_index_def)

text \<open>The partition point of a sorted list.\<close>

lemma partition_point:
  assumes "sorted xs" and "\<And>x y. x \<le> y \<Longrightarrow> P y \<Longrightarrow> P x"
  shows "(\<forall>i < length (takeWhile P xs). P (xs ! i)) \<and>
    (\<forall>i < length xs. length (takeWhile P xs) \<le> i \<longrightarrow> \<not> P (xs ! i))"
proof (intro conjI allI impI)
  fix i
  assume "i < length (takeWhile P xs)"
  then show "P (xs ! i)" by (metis nth_mem set_takeWhileD takeWhile_nth)
next
  fix i
  assume i: "i < length xs" "length (takeWhile P xs) \<le> i"
  let ?n = "length (takeWhile P xs)"
  have n: "?n < length xs" using i by simp
  then have "\<not> P (xs ! ?n)" by (rule nth_length_takeWhile)
  moreover have "xs ! ?n \<le> xs ! i" by (rule sorted_nth_mono [OF assms(1) i(2) i(1)])
  ultimately show "\<not> P (xs ! i)" using assms(2) by blast
qed

lemma upper_partition:
  assumes "sorted xs"
  shows "(\<forall>i < std_upper_bound xs v. xs ! i \<le> v) \<and>
    (\<forall>i < length xs. std_upper_bound xs v \<le> i \<longrightarrow> v < xs ! i) \<and> std_upper_bound xs v \<le> length xs"
proof -
  have "(\<forall>i < length (takeWhile (\<lambda>x. \<not> v < x) xs). \<not> v < xs ! i) \<and>
      (\<forall>i < length xs. length (takeWhile (\<lambda>x. \<not> v < x) xs) \<le> i \<longrightarrow> \<not> \<not> v < xs ! i)"
    by (rule partition_point [OF assms]) auto
  then show ?thesis using length_takeWhile_le [of _ xs] by (simp add: std_upper_bound_def not_less not_le)
qed

lemma lower_partition:
  assumes "sorted xs"
  shows "(\<forall>i < std_lower_bound xs v. xs ! i < v) \<and>
    (\<forall>i < length xs. std_lower_bound xs v \<le> i \<longrightarrow> v \<le> xs ! i) \<and> std_lower_bound xs v \<le> length xs"
proof -
  have "(\<forall>i < length (takeWhile (\<lambda>x. x < v) xs). xs ! i < v) \<and>
      (\<forall>i < length xs. length (takeWhile (\<lambda>x. x < v) xs) \<le> i \<longrightarrow> \<not> xs ! i < v)"
    by (rule partition_point [OF assms]) auto
  then show ?thesis using length_takeWhile_le [of _ xs] by (simp add: std_lower_bound_def not_less not_le)
qed

lemma greater_or_equal_distinct:
  assumes "sorted xs" and "xs \<noteq> []" and "distinct xs" and ub: "upper_bound_index xs v = Inr i"
    and i: "i < length xs" "\<forall>j < i. xs ! j \<le> v" "v < xs ! i \<or> i = length xs - 1 \<and> xs ! i \<le> v"
  shows "\<exists>i < length xs. greater_or_equal_index xs v = Inr i \<and> (\<forall>j < i. xs ! j < v) \<and>
      (v \<le> xs ! i \<or> i = length xs - 1 \<and> xs ! i < v)"
proof -
  let ?g = "if i \<noteq> 0 \<and> xs ! (i - 1) \<ge> v then i - 1 else i"
  have g: "greater_or_equal_index xs v = Inr ?g"
    using ub assms(2) by (auto simp: greater_or_equal_index_def)
  have strict: "xs ! j < xs ! m" if "j < m" "m < length xs" for j m
    using that assms(1,3) strict_sorted_iff [of xs] sorted_wrt_nth_less [of "(<)" xs j m]
    by simp
  have "xs ! j < v" if j: "j < ?g" for j
  proof (cases "i \<noteq> 0 \<and> xs ! (i - 1) \<ge> v")
    case True
    then have "xs ! j < xs ! (i - 1)" "xs ! (i - 1) \<le> v" using j i strict by auto
    then show ?thesis by simp
  next
    case False
    with j have "j \<le> i - 1" "xs ! (i - 1) < v" by auto
    moreover have "xs ! j \<le> xs ! (i - 1)"
      using sorted_nth_mono [OF assms(1) \<open>j \<le> i - 1\<close>] i(1) by simp
    ultimately show ?thesis by simp
  qed
  moreover have "?g < length xs \<and> (v \<le> xs ! ?g \<or> ?g = length xs - 1 \<and> xs ! ?g < v)" using i by auto
  ultimately show ?thesis using g by blast
qed

text \<open>
  On sorted data that is not empty \<open>upper_bound_index\<close> returns the first index whose element is
  greater, and \<open>lower_bound_index\<close> the first whose element is not less, than the value, or the last
  index if there is none; if the elements are distinct \<open>greater_or_equal_index\<close> returns the first index
  whose element is at least the value, or the last index. All four throw on empty data and return an
  index inside the data otherwise.
\<close>

theorem bounds_correct:
  assumes "sorted xs" and "xs \<noteq> []"
  shows "(\<exists>i < length xs. upper_bound_index xs v = Inr i \<and> (\<forall>j < i. xs ! j \<le> v) \<and>
      (v < xs ! i \<or> i = length xs - 1 \<and> xs ! i \<le> v)) \<and>
    (\<exists>i < length xs. lower_bound_index xs v = Inr i \<and> (\<forall>j < i. xs ! j < v) \<and>
      (v \<le> xs ! i \<or> i = length xs - 1 \<and> xs ! i < v)) \<and>
    (distinct xs \<longrightarrow> (\<exists>i < length xs. greater_or_equal_index xs v = Inr i \<and> (\<forall>j < i. xs ! j < v) \<and>
      (v \<le> xs ! i \<or> i = length xs - 1 \<and> xs ! i < v))) \<and>
    (\<exists>i < length xs. less_or_equal_index xs v = Inr i) \<and>
    upper_bound_index [] v = Inl Out_of_range \<and> greater_or_equal_index [] v = Inl Out_of_range \<and>
    lower_bound_index [] v = Inl Out_of_range \<and> less_or_equal_index [] v = Inl Out_of_range"
proof (intro conjI impI)
  let ?u = "std_upper_bound xs v" and ?l = "std_lower_bound xs v"
  note u = upper_partition [OF assms(1), of v] and l = lower_partition [OF assms(1), of v]
  define i where "i = (if ?u = length xs then length xs - 1 else ?u)"
  define k where "k = (if ?l = length xs then length xs - 1 else ?l)"
  have ub: "upper_bound_index xs v = Inr i" and lb: "lower_bound_index xs v = Inr k"
    using assms(2) by (auto simp: upper_bound_index_def lower_bound_index_def Let_def i_def k_def)
  have i: "i < length xs" "\<forall>j < i. xs ! j \<le> v" "v < xs ! i \<or> i = length xs - 1 \<and> xs ! i \<le> v"
    using u assms(2) by (auto simp: i_def)
  have k: "k < length xs" "\<forall>j < k. xs ! j < v" "v \<le> xs ! k \<or> k = length xs - 1 \<and> xs ! k < v"
    using l assms(2) by (auto simp: k_def)
  show "\<exists>i < length xs. upper_bound_index xs v = Inr i \<and> (\<forall>j < i. xs ! j \<le> v) \<and>
      (v < xs ! i \<or> i = length xs - 1 \<and> xs ! i \<le> v)"
    using ub i by blast
  show "\<exists>i < length xs. lower_bound_index xs v = Inr i \<and> (\<forall>j < i. xs ! j < v) \<and>
      (v \<le> xs ! i \<or> i = length xs - 1 \<and> xs ! i < v)"
    using lb k by blast
  show "\<exists>i < length xs. less_or_equal_index xs v = Inr i"
    using lb k(1) assms(2) by (auto simp: less_or_equal_index_def)
  show "\<exists>i < length xs. greater_or_equal_index xs v = Inr i \<and> (\<forall>j < i. xs ! j < v) \<and>
      (v \<le> xs ! i \<or> i = length xs - 1 \<and> xs ! i < v)" if "distinct xs"
    by (rule greater_or_equal_distinct [OF assms that ub i])
qed (simp_all add: upper_bound_index_def lower_bound_index_def greater_or_equal_index_def
      less_or_equal_index_def)

lemma bounds_correct_witness:
  "\<exists>i. greater_or_equal_index [1, 3, 5 :: nat] 4 = Inr i \<and> i < 3 \<and> upper_bound_index [1, 3, 5 :: nat] 4 = Inr 2"
  using bounds_correct [of "[1, 3, 5 :: nat]" 4]
  by (auto simp: upper_bound_index_def std_upper_bound_def)

text \<open>
  \<open>less_or_equal_index\<close> returns a greater element for a value between two elements; with duplicates
  \<open>greater_or_equal_index\<close> does not return the first index.
\<close>

lemma less_or_equal_index_greater:
  "less_or_equal_index [1, 3, 5 :: nat] 4 = Inr 2"
  by (simp add: less_or_equal_index_def lower_bound_index_def std_lower_bound_def)

lemma greater_or_equal_index_not_first:
  "greater_or_equal_index [1, 2, 2, 3 :: nat] 2 = Inr 2"
  by (simp add: greater_or_equal_index_def upper_bound_index_def std_upper_bound_def)

section \<open>Nested ranges\<close>

text \<open>A range of elements, or of ranges.\<close>

datatype 'a nested = Elems "'a list" | Ranges "'a nested list"

text \<open>\<open>std::copy\<close> to an iterator into the result vector: no result if it would run past the end.\<close>

definition copy_at :: "nat \<Rightarrow> 'a list \<Rightarrow> 'a list \<Rightarrow> (nat \<times> 'a list) option" where
  "copy_at it xs result =
     (if it + length xs \<le> length result
      then Some (it + length xs, take it result @ xs @ drop (it + length xs) result) else None)"

fun flatten_copy_to_iterator :: "nat \<Rightarrow> 'a nested \<Rightarrow> 'a list \<Rightarrow> (nat \<times> 'a list) option"
  and flatten_copy_all :: "nat \<Rightarrow> 'a nested list \<Rightarrow> 'a list \<Rightarrow> (nat \<times> 'a list) option" where
  "flatten_copy_to_iterator it (Elems xs) result = copy_at it xs result"
| "flatten_copy_to_iterator it (Ranges rs) result = flatten_copy_all it rs result"
| "flatten_copy_all it [] result = Some (it, result)"
| "flatten_copy_all it (r # rs) result =
     (case flatten_copy_to_iterator it r result of None \<Rightarrow> None
      | Some (it, result) \<Rightarrow> flatten_copy_all it rs result)"

fun flattened_size :: "'a nested \<Rightarrow> nat" where
  "flattened_size (Elems xs) = length xs"
| "flattened_size (Ranges rs) = sum_list (map flattened_size rs)"

text \<open>\<open>fill\<close> is what the elements of the new vector are before they are written.\<close>

definition flatten :: "'a \<Rightarrow> 'a nested \<Rightarrow> 'a list option" where
  "flatten fill buffers =
     map_option snd (flatten_copy_to_iterator 0 buffers (replicate (flattened_size buffers) fill))"

fun leaves :: "'a nested \<Rightarrow> 'a list" where
  "leaves (Elems xs) = xs" | "leaves (Ranges rs) = concat (map leaves rs)"

lemma length_leaves: "length (leaves b) = flattened_size b"
  by (induction b) (simp_all add: length_concat comp_def cong: map_cong)

lemma flatten_copy:
  "it + flattened_size b \<le> length res \<Longrightarrow> flatten_copy_to_iterator it b res =
    Some (it + flattened_size b, take it res @ leaves b @ drop (it + flattened_size b) res)"
  "it + sum_list (map flattened_size bs) \<le> length res \<Longrightarrow> flatten_copy_all it bs res =
    Some (it + sum_list (map flattened_size bs),
      take it res @ concat (map leaves bs) @ drop (it + sum_list (map flattened_size bs)) res)"
proof (induction it b res and it bs res rule: flatten_copy_to_iterator_flatten_copy_all.induct)
  case (4 it r rs res)
  then have "it + flattened_size r \<le> length res" by simp
  with 4 show ?case by (simp add: length_leaves ac_simps)
qed (simp_all add: copy_at_def)

lemma flatten_leaves: "flatten fill b = Some (leaves b)"
  by (simp add: flatten_def flatten_copy(1) length_leaves)

definition erase_value :: "'a \<Rightarrow> 'a list \<Rightarrow> 'a list" where
  "erase_value toRemove xs = [x \<leftarrow> xs. x \<noteq> toRemove]"

definition erase_value_if :: "('a \<Rightarrow> bool) \<Rightarrow> 'a list \<Rightarrow> 'a list" where
  "erase_value_if pred xs = [x \<leftarrow> xs. \<not> pred x]"

text \<open>\<open>copy_n\<close> reads past the end of a range that is too short.\<close>

definition to_array :: "nat \<Rightarrow> 'a list \<Rightarrow> 'a list option" where
  "to_array n xs = (if n \<le> length xs then Some (take n xs) else None)"

text \<open>The wrappers of \<open>insert\<close> at the end and of \<open>std::copy\<close>, which writes from a position on.\<close>

definition ranges_append :: "'a list \<Rightarrow> 'a list \<Rightarrow> 'a list" where
  "ranges_append baseRange to_add = baseRange @ to_add"

definition ranges_copy :: "'a list \<Rightarrow> nat \<Rightarrow> 'a list \<Rightarrow> (nat \<times> 'a list) option" where
  "ranges_copy to_add to_copy result = copy_at to_copy to_add result"

text \<open>
  \<open>flatten_no_init\<close> leaves the elements of the new vector as they are in memory; all of them are
  written, so it makes no difference.
\<close>

definition flatten_no_init :: "'a \<Rightarrow> 'a nested \<Rightarrow> 'a list option" where
  "flatten_no_init garbage buffers = flatten garbage buffers"

lemma flatten_no_init_same: "flatten_no_init garbage b = flatten fill b"
  by (simp add: flatten_no_init_def flatten_leaves)

end
