(* ===== verification/Channels.thy ===== *)
theory Channels
  imports Rolling Containers "HOL-Library.List_Lexorder" "HOL-Library.Sublist"
begin

text \<open>
  The channels of \<open>common/include/sg/data\<close>: named sequences of elements, one class over a vector
  (\<open>channel_vector.h\<close>) and one over the rolling buffer of theory \<open>Rolling\<close> (\<open>channel_rolling.h\<close>), with their
  order (\<open>channel.h\<close>).

  The base class is a record and the two classes extend it. What both promise of their contents is the
  locale \<open>contiguous_channel\<close>.
\<close>

section \<open>Identifiers\<close>

text \<open>
  \<open>common/include/sg/uuid.h\<close>: the 16 bytes of \<open>boost::uuids::uuid\<close>, compared by bytes. Its random generator
  and its \<open>to_string\<close> are arguments.
\<close>

datatype uuid_value = Uuid (m_uuid: "byte list")

definition uuid_random :: "byte list \<Rightarrow> uuid_value" where
  "uuid_random generated = Uuid generated"

definition uuid_copy :: "uuid_value \<Rightarrow> uuid_value" where
  "uuid_copy UUID = Uuid (m_uuid UUID)"

definition uuid_from_bytes :: "byte list \<Rightarrow> uuid_value" where
  "uuid_from_bytes bytes = Uuid (take 16 bytes)"

definition uuid_data :: "uuid_value \<Rightarrow> byte list" where
  "uuid_data u = take 16 (m_uuid u)"

definition uuid_swap :: "uuid_value \<times> uuid_value \<Rightarrow> uuid_value \<times> uuid_value" where
  "uuid_swap us = (Uuid (m_uuid (snd us)), Uuid (m_uuid (fst us)))"

definition uuid_to_string :: "(byte list \<Rightarrow> string) \<Rightarrow> uuid_value \<Rightarrow> string" where
  "uuid_to_string boost_to_string u = boost_to_string (m_uuid u)"

definition uuid_print :: "(byte list \<Rightarrow> string) \<Rightarrow> string \<Rightarrow> uuid_value \<Rightarrow> string" where
  "uuid_print boost_to_string os t = os @ uuid_to_string boost_to_string t"

definition uuid_less :: "uuid_value \<Rightarrow> uuid_value \<Rightarrow> bool" where
  "uuid_less a b \<longleftrightarrow> m_uuid a < m_uuid b"

lemma uuid_bytes_roundtrip: "length bytes = 16 \<Longrightarrow> uuid_data (uuid_from_bytes bytes) = bytes"
  by (simp add: uuid_data_def uuid_from_bytes_def)

lemma uuid_swap_swap: "uuid_swap (uuid_swap us) = us"
  by (cases us) (simp add: uuid_swap_def)

lemma uuid_order: "uuid_less a b \<or> a = b \<or> uuid_less b a" "\<not> (uuid_less a b \<and> uuid_less b a)"
  by (cases a; cases b; auto simp: uuid_less_def)+

section \<open>Order\<close>

text \<open>What \<open>operator<\<close> of a channel looks at: strings compare by bytes, a uuid by its 16 bytes.\<close>

datatype channel_key = Channel_key (hierarchy: "byte list list") (channel_name: "byte list") (uuid: "byte list")

definition channel_less :: "channel_key \<Rightarrow> channel_key \<Rightarrow> bool" where
  "channel_less a b =
     (if hierarchy a \<noteq> hierarchy b then hierarchy a < hierarchy b
      else if channel_name a \<noteq> channel_name b then channel_name a < channel_name b
      else uuid a < uuid b)"

definition channel_equal :: "channel_key \<Rightarrow> channel_key \<Rightarrow> bool" where
  "channel_equal a b \<longleftrightarrow> uuid b = uuid a"

instantiation channel_key :: linorder
begin

definition less_channel_key :: "channel_key \<Rightarrow> channel_key \<Rightarrow> bool" where
  "less_channel_key = channel_less"

definition less_eq_channel_key :: "channel_key \<Rightarrow> channel_key \<Rightarrow> bool" where
  "less_eq_channel_key a b \<longleftrightarrow> a = b \<or> channel_less a b"

instance
proof
  fix a b c :: channel_key
  show "a < b \<longleftrightarrow> a \<le> b \<and> \<not> b \<le> a"
    by (cases a; cases b) (auto simp: less_channel_key_def less_eq_channel_key_def channel_less_def)
  show "a \<le> a" by (simp add: less_eq_channel_key_def)
  show "a \<le> b \<Longrightarrow> b \<le> c \<Longrightarrow> a \<le> c"
    by (cases a; cases b; cases c)
      (auto simp: less_eq_channel_key_def channel_less_def split: if_splits)
  show "a \<le> b \<Longrightarrow> b \<le> a \<Longrightarrow> a = b"
    by (cases a; cases b) (auto simp: less_eq_channel_key_def channel_less_def split: if_splits)
  show "a \<le> b \<or> b \<le> a"
    by (cases a; cases b) (auto simp: less_eq_channel_key_def channel_less_def)
qed

end

text \<open>Two channels with the same uuid are equal and yet ordered when their names differ.\<close>

lemma equal_channels_ordered:
  "channel_equal (Channel_key [] [1] u) (Channel_key [] [2] u) \<and>
     channel_less (Channel_key [] [1] u) (Channel_key [] [2] u)"
  by (simp add: channel_equal_def channel_less_def)

section \<open>The contract\<close>

text \<open>
  What is in a channel afterwards is the end of what was there with the new elements behind; a cleared
  channel is empty; \<open>count()\<close> is the number of elements.
\<close>

locale contiguous_channel =
  fixes ok :: "'c \<Rightarrow> bool"
    and contents :: "'c \<Rightarrow> 'a list"
    and number :: "'c \<Rightarrow> nat"
    and add :: "'a list \<Rightarrow> 'c \<Rightarrow> 'c"
    and wipe :: "'c \<Rightarrow> 'c"
  assumes add_ok: "ok c \<Longrightarrow> ok (add xs c)"
    and wipe_ok: "ok c \<Longrightarrow> ok (wipe c)"
    and count_contents: "ok c \<Longrightarrow> number c = length (contents c)"
    and add_contents: "ok c \<Longrightarrow> suffix (contents (add xs c)) (contents c @ xs)"
    and wipe_contents: "ok c \<Longrightarrow> contents (wipe c) = []"
begin

lemma adds: "ok c \<Longrightarrow> ok (foldl (\<lambda>c xs. add xs c) c xss) \<and>
    suffix (contents (foldl (\<lambda>c xs. add xs c) c xss)) (contents c @ concat xss)"
proof (induction xss arbitrary: c)
  case (Cons xs xss)
  let ?c = "add xs c"
  have "suffix (contents (foldl (\<lambda>c xs. add xs c) ?c xss)) (contents ?c @ concat xss)"
    using Cons.IH [of ?c] Cons.prems add_ok by simp
  also have "suffix \<dots> ((contents c @ xs) @ concat xss)"
    using add_contents [OF Cons.prems, of xs] by (auto simp: suffix_def)
  finally show ?case using Cons.IH [of ?c] Cons.prems add_ok by simp
qed simp

text \<open>After a \<open>clear\<close> only what was added since is there.\<close>

lemma adds_since_wipe:
  "ok c \<Longrightarrow> suffix (contents (foldl (\<lambda>c xs. add xs c) (wipe c) xss)) (concat xss)"
  using adds [of "wipe c" xss] by (simp add: wipe_ok wipe_contents)

end

section \<open>The base class\<close>

record channel_base =
  m_name :: "byte list"
  m_hierarchy :: "byte list list"
  m_uuid :: "byte list"

definition set_name :: "byte list \<Rightarrow> 'c channel_base_scheme \<Rightarrow> 'c channel_base_scheme" where
  "set_name name c = c\<lparr>m_name := name\<rparr>"

definition set_hierarchy :: "byte list list \<Rightarrow> 'c channel_base_scheme \<Rightarrow> 'c channel_base_scheme" where
  "set_hierarchy h c = c\<lparr>m_hierarchy := h\<rparr>"

text \<open>What the comparisons see of a channel of either class.\<close>

definition key_of :: "'c channel_base_scheme \<Rightarrow> channel_key" where
  "key_of c = Channel_key (m_hierarchy c) (m_name c) (m_uuid c)"

text \<open>
  The functions \<open>IContigiousChannel\<close> defines from \<open>data()\<close> and \<open>count()\<close>. \<open>None\<close> is an access past the end;
  \<open>at\<close> does not check either.
\<close>

definition channel_size_bytes :: "u64 \<Rightarrow> 'a list \<Rightarrow> u64" where
  "channel_size_bytes sizeof data = of_nat (length data) * sizeof"

definition channel_index :: "'a list \<Rightarrow> nat \<Rightarrow> 'a option" where
  "channel_index data i = (if i < length data then Some (data ! i) else None)"

definition channel_at :: "'a list \<Rightarrow> nat \<Rightarrow> 'a option" where
  "channel_at data i = channel_index data i"

definition channel_front :: "'a list \<Rightarrow> 'a option" where
  "channel_front data = channel_index data 0"

definition channel_back :: "'a list \<Rightarrow> 'a option" where
  "channel_back data = (if data = [] then None else channel_index data (length data - 1))"

text \<open>\<open>from_bytes\<close>: the elements of size \<open>sizeof\<close> that the bytes hold.\<close>

fun chunks :: "nat \<Rightarrow> nat \<Rightarrow> 'a list \<Rightarrow> 'a list list" where
  "chunks sizeof 0 bytes = []"
| "chunks sizeof (Suc n) bytes = take sizeof bytes # chunks sizeof n (drop sizeof bytes)"

lemma concat_chunks: "length bytes = n * k \<Longrightarrow> concat (chunks k n bytes) = bytes"
  by (induction n arbitrary: bytes) simp_all

section \<open>A channel over a vector\<close>

record 'a vector_channel = channel_base +
  vector_data :: "'a list"

text \<open>\<open>u\<close> is the uuid of the base class.\<close>

definition new_vector_channel :: "byte list \<Rightarrow> byte list \<Rightarrow> 'a list \<Rightarrow> 'a vector_channel" where
  "new_vector_channel u name init =
     \<lparr>m_name = name, m_hierarchy = [], m_uuid = u, vector_data = init\<rparr>"

definition vector_count :: "'a vector_channel \<Rightarrow> nat" where
  "vector_count c = length (vector_data c)"

definition vector_clear :: "'a vector_channel \<Rightarrow> 'a vector_channel" where
  "vector_clear c = c\<lparr>vector_data := []\<rparr>"

definition vector_push_back :: "'a \<Rightarrow> 'a vector_channel \<Rightarrow> 'a vector_channel" where
  "vector_push_back item c = c\<lparr>vector_data := vector_data c @ [item]\<rparr>"

definition vector_append :: "'a list \<Rightarrow> 'a vector_channel \<Rightarrow> 'a vector_channel" where
  "vector_append input c = c\<lparr>vector_data := ranges_append (vector_data c) input\<rparr>"

definition vector_from_bytes :: "nat \<Rightarrow> byte list \<Rightarrow> byte list vector_channel \<Rightarrow> byte list vector_channel res" where
  "vector_from_bytes sizeof bytes c =
     (if length bytes mod sizeof \<noteq> 0 then Inl Runtime_error
      else Inr (c\<lparr>vector_data := chunks sizeof (length bytes div sizeof) bytes\<rparr>))"

interpretation vector_contract: contiguous_channel "\<lambda>_. True" vector_data vector_count vector_append vector_clear
  by unfold_locales (simp_all add: vector_count_def vector_append_def vector_clear_def ranges_append_def)

lemma vector_from_bytes_concat:
  "vector_from_bytes sizeof bytes c = Inr c' \<Longrightarrow> concat (vector_data c') = bytes \<and> m_name c' = m_name c"
  by (auto simp: vector_from_bytes_def concat_chunks split: if_splits)

section \<open>A channel over a rolling buffer\<close>

record 'a channel_rolling = channel_base +
  rolling_data :: "'a rcb"

definition new_channel_rolling :: "byte list \<Rightarrow> byte list \<Rightarrow> nat \<Rightarrow> nat \<Rightarrow> 'a channel_rolling" where
  "new_channel_rolling u name sz reserveSize =
     \<lparr>m_name = name, m_hierarchy = [], m_uuid = u, rolling_data = new_rolling sz reserveSize\<rparr>"

definition rolling_count :: "'a channel_rolling \<Rightarrow> nat" where
  "rolling_count c = rcb_size (rolling_data c)"

definition rolling_clear :: "'a channel_rolling \<Rightarrow> 'a channel_rolling" where
  "rolling_clear c = c\<lparr>rolling_data := rcb_clear (rolling_data c)\<rparr>"

definition rolling_push_back :: "bool \<Rightarrow> 'a \<Rightarrow> 'a channel_rolling \<Rightarrow> 'a channel_rolling" where
  "rolling_push_back trivial item c = c\<lparr>rolling_data := push_back trivial item (rolling_data c)\<rparr>"

definition rolling_append :: "bool \<Rightarrow> 'a list \<Rightarrow> 'a channel_rolling \<Rightarrow> 'a channel_rolling" where
  "rolling_append trivial xs c = c\<lparr>rolling_data := append_range trivial xs (rolling_data c)\<rparr>"

definition rolling_from_bytes ::
    "bool \<Rightarrow> nat \<Rightarrow> byte list \<Rightarrow> byte list channel_rolling \<Rightarrow> byte list channel_rolling res" where
  "rolling_from_bytes trivial sizeof bytes c =
     (if length bytes mod sizeof \<noteq> 0 then Inl Runtime_error
      else Inr (rolling_append trivial (chunks sizeof (length bytes div sizeof) bytes) c))"

lemma last_n_suffix: "suffix (last_n n xs) xs"
  by (simp add: last_n_def suffix_drop)

interpretation rolling_contract: contiguous_channel "\<lambda>c. rcb_inv (rolling_data c)" "\<lambda>c. elements (rolling_data c)"
    rolling_count "rolling_append trivial" rolling_clear for trivial
  by unfold_locales
    (simp_all add: rolling_count_def rolling_append_def rolling_clear_def append_range_spec rcb_clear_spec length_elements
      last_n_suffix)

text \<open>
  \<open>from_bytes\<close> replaces what is in a vector channel, and adds to what is in a rolling one, of which the
  latest elements stay.
\<close>

lemma rolling_from_bytes_adds:
  assumes "rcb_inv (rolling_data c)" and "rolling_from_bytes trivial sizeof bytes c = Inr c'"
  shows "\<exists>xs. concat xs = bytes \<and>
    elements (rolling_data c') = last_n (m_cb_size (rolling_data c)) (elements (rolling_data c) @ xs)"
proof -
  let ?xs = "chunks sizeof (length bytes div sizeof) bytes"
  have m: "length bytes mod sizeof = 0" and c': "c' = rolling_append trivial ?xs c"
    using assms(2) by (auto simp: rolling_from_bytes_def split: if_splits)
  have "concat ?xs = bytes" using m by (intro concat_chunks) auto
  then show ?thesis using append_range_spec(3) [OF assms(1)] unfolding c' by (auto simp: rolling_append_def)
qed

end
