(* ===== verification/Iterators.thy ===== *)
theory Iterators
  imports Prelude "HOL-Library.Multiset"
begin

text \<open>
  The iterator over contiguous memory (\<open>common/include/sg/iterator.h\<close>), the access to a buffer through it
  (class \<open>IBuffer\<close> of \<open>common/include/sg/buffer.h\<close>), and generated data (\<open>common/include/sg/random.h\<close>).

  The pointer of an iterator is its distance from the first element of an array, which is a list; a
  dereference past either end is \<open>None\<close>.
\<close>

section \<open>contiguous_iterator\<close>

record contiguous_iterator =
  mPtr :: int

definition it_make :: "int \<Rightarrow> contiguous_iterator" where
  "it_make ptr = \<lparr>mPtr = ptr\<rparr>"

text \<open>An operator that changes the iterator gives what it returns and the iterator afterwards.\<close>

definition it_pre_increment :: "contiguous_iterator \<Rightarrow> contiguous_iterator \<times> contiguous_iterator" where
  "it_pre_increment it = (let it = it\<lparr>mPtr := mPtr it + 1\<rparr> in (it, it))"

definition it_post_increment :: "contiguous_iterator \<Rightarrow> contiguous_iterator \<times> contiguous_iterator" where
  "it_post_increment it = (let tmp = it in (tmp, snd (it_pre_increment it)))"

definition it_pre_decrement :: "contiguous_iterator \<Rightarrow> contiguous_iterator \<times> contiguous_iterator" where
  "it_pre_decrement it = (let it = it\<lparr>mPtr := mPtr it - 1\<rparr> in (it, it))"

definition it_post_decrement :: "contiguous_iterator \<Rightarrow> contiguous_iterator \<times> contiguous_iterator" where
  "it_post_decrement it = (let tmp = it in (tmp, snd (it_pre_decrement it)))"

definition it_plus :: "contiguous_iterator \<Rightarrow> int \<Rightarrow> contiguous_iterator" where
  "it_plus it diff = it_make (mPtr it + diff)"

definition it_minus :: "contiguous_iterator \<Rightarrow> int \<Rightarrow> contiguous_iterator" where
  "it_minus it diff = it_make (mPtr it - diff)"

definition it_diff :: "contiguous_iterator \<Rightarrow> contiguous_iterator \<Rightarrow> int" where
  "it_diff this it = mPtr this - mPtr it"

definition it_less :: "contiguous_iterator \<Rightarrow> contiguous_iterator \<Rightarrow> bool" where
  "it_less this it \<longleftrightarrow> mPtr this < mPtr it"

definition it_deref :: "'a list \<Rightarrow> contiguous_iterator \<Rightarrow> 'a option" where
  "it_deref xs it = (if 0 \<le> mPtr it \<and> mPtr it < int (length xs) then Some (xs ! nat (mPtr it)) else None)"

definition it_index :: "'a list \<Rightarrow> contiguous_iterator \<Rightarrow> int \<Rightarrow> 'a option" where
  "it_index xs it diff = it_deref xs (it_make (mPtr it + diff))"

lemmas iterator_defs = it_make_def it_pre_increment_def it_post_increment_def it_pre_decrement_def
  it_post_decrement_def it_plus_def it_minus_def it_diff_def it_less_def it_deref_def it_index_def

text \<open>What the standard asks of a random-access iterator.\<close>

lemma iterator_laws:
  "it_plus (it_plus it m) n = it_plus it (m + n)" "it_plus it 0 = it" "it_minus it n = it_plus it (- n)"
  "it_plus it (it_diff jt it) = jt" "it_diff (it_plus it n) it = n"
  "it_pre_increment it = (it_plus it 1, it_plus it 1)" "it_post_increment it = (it, it_plus it 1)"
  "snd (it_pre_decrement (snd (it_pre_increment it))) = it" "snd (it_post_decrement (snd (it_post_increment it))) = it"
  "it_index xs it n = it_deref xs (it_plus it n)" "it_less it jt \<longleftrightarrow> it_diff jt it > 0"
  by (simp_all add: iterator_defs Let_def)

section \<open>Access to a buffer\<close>

definition buffer_begin :: "'a list \<Rightarrow> contiguous_iterator" where
  "buffer_begin xs = it_make 0"

definition buffer_end :: "'a list \<Rightarrow> contiguous_iterator" where
  "buffer_end xs = it_plus (buffer_begin xs) (int (length xs))"

definition buffer_front :: "'a list \<Rightarrow> 'a option" where
  "buffer_front xs = it_deref xs (buffer_begin xs)"

definition buffer_back :: "'a list \<Rightarrow> 'a option" where
  "buffer_back xs = it_deref xs (it_minus (buffer_end xs) 1)"

definition buffer_index :: "'a list \<Rightarrow> nat \<Rightarrow> 'a option" where
  "buffer_index xs i = it_deref xs (it_make (int i))"

text \<open>\<open>for (it = first; it != last; ++it)\<close>, reading every element; at most \<open>fuel\<close> of them.\<close>

fun read_between :: "'a list \<Rightarrow> nat \<Rightarrow> contiguous_iterator \<Rightarrow> contiguous_iterator \<Rightarrow> 'a list option" where
  "read_between xs fuel it sentinel =
     (if it = sentinel then Some []
      else case fuel of
        0 \<Rightarrow> None
      | Suc fuel \<Rightarrow>
          (case it_deref xs it of
             None \<Rightarrow> None
           | Some x \<Rightarrow> map_option (Cons x) (read_between xs fuel (snd (it_pre_increment it)) sentinel)))"

declare read_between.simps [simp del]

lemma read_between_slice:
  "i + n \<le> length xs \<Longrightarrow> read_between xs n (it_make (int i)) (it_make (int (i + n))) = Some (take n (drop i xs))"
proof (induction n arbitrary: i)
  case 0
  then show ?case by (simp add: read_between.simps [of xs 0])
next
  case (Suc n)
  then have "read_between xs n (it_make (int (Suc i))) (it_make (int (Suc i + n))) = Some (take n (drop (Suc i) xs))"
    using Suc.IH [of "Suc i"] by (simp del: of_nat_Suc of_nat_add)
  moreover have "take (Suc n) (drop i xs) = xs ! i # take n (drop (Suc i) xs)"
    using Suc.prems by (simp add: take_Suc_conv_app_nth flip: Cons_nth_drop_Suc)
  ultimately show ?case
    using Suc.prems by (simp add: read_between.simps [of xs "Suc n"] iterator_defs Let_def add.commute)
qed

text \<open>A loop from \<open>begin()\<close> to \<open>end()\<close> reads exactly the buffer and ends.\<close>

lemma read_buffer: "read_between xs (length xs) (buffer_begin xs) (buffer_end xs) = Some xs"
  using read_between_slice [of 0 "length xs" xs] by (simp add: buffer_begin_def buffer_end_def iterator_defs)

lemma buffer_ends:
  "buffer_front xs = (case xs of [] \<Rightarrow> None | x # _ \<Rightarrow> Some x)"
  "buffer_back xs = (if xs = [] then None else Some (last xs))"
  "buffer_index xs i = (if i < length xs then Some (xs ! i) else None)"
  by (auto simp: buffer_front_def buffer_back_def buffer_index_def buffer_begin_def buffer_end_def iterator_defs
      last_conv_nth nat_minus_as_int [symmetric] nat_diff_distrib' split: list.split)

section \<open>Generated data\<close>

text \<open>\<open>std::shuffle\<close> is a parameter. \<open>std::iota\<close> counts in the element type.\<close>

fun iota :: "nat \<Rightarrow> 'a::len word \<Rightarrow> 'a word list" where
  "iota 0 v = []"
| "iota (Suc n) v = v # iota n (v + 1)"

definition random_generate :: "('a word list \<Rightarrow> 'a word list) \<Rightarrow> nat \<Rightarrow> 'a::len word list" where
  "random_generate shuffle n = shuffle (iota n 0)"

lemma iota_map: "iota n v = map (\<lambda>i. v + of_nat i) [0..<n]"
proof (induction n arbitrary: v)
  case (Suc n)
  have "map (\<lambda>i. v + of_nat i) [0..<Suc n] = v # map (\<lambda>i. (v + 1) + of_nat i) [0..<n]"
    unfolding upt_conv_Cons [of 0 "Suc n", OF zero_less_Suc] list.map map_Suc_upt [symmetric] map_map
    by (simp add: o_def add.assoc)
  then show ?case by (simp add: Suc.IH)
qed simp

text \<open>
  Every number below \<open>count\<close> occurs exactly once, provided the type can hold them; otherwise the
  numbers wrap and repeat.
\<close>

lemma random_generate_permutation:
  assumes "\<And>xs. mset (shuffle xs) = mset xs" and "n \<le> 2 ^ LENGTH('a)"
  shows "distinct (random_generate shuffle n :: 'a::len word list) \<and>
    set (random_generate shuffle n) = {v :: 'a word. unat v < n}"
proof -
  have inj: "inj_on (of_nat :: nat \<Rightarrow> 'a word) {0..<n}"
    using assms(2) by (auto intro!: inj_onI simp: of_nat_inverse dest!: arg_cong [of _ _ unat])
  have i: "iota n (0 :: 'a word) = map of_nat [0..<n]" by (simp add: iota_map)
  have "distinct (iota n (0 :: 'a word))" using inj by (simp add: i distinct_map)
  moreover have "set (iota n (0 :: 'a word)) = {v. unat v < n}"
  proof (intro set_eqI iffI)
    fix v :: "'a word"
    assume "v \<in> set (iota n 0)"
    then obtain i where "v = of_nat i" "i < n" by (auto simp: i)
    then show "v \<in> {v. unat v < n}" using assms(2) by (simp add: of_nat_inverse)
  next
    fix v :: "'a word"
    assume "v \<in> {v. unat v < n}"
    then have "v = of_nat (unat v)" "unat v < n" by simp_all
    then show "v \<in> set (iota n 0)" unfolding i by force
  qed
  ultimately show ?thesis
    using assms(1) [of "iota n 0"] unfolding random_generate_def by (metis mset_eq_imp_distinct_iff set_mset_mset)
qed

lemma random_generate_wraps:
  "random_generate (\<lambda>xs. xs) 257 ! 256 = (random_generate (\<lambda>xs. xs) 257 ! 0 :: byte)"
  by (simp add: random_generate_def iota_map)

end
