(* ===== verification/Clock.thy ===== *)
theory Clock
  imports Prelude "HOL-Library.Signed_Division"
begin

text \<open>
  Conversions of time points: \<open>common/include/sg/time.h\<close>. A time point of a clock with \<open>hz\<close> ticks a second
  is its count of ticks, at the resolution of its clock. The readings of the clocks and the parser of
  the standard library are arguments. The conversions from and to seconds as a \<open>double\<close> are left out.
\<close>

text \<open>\<open>std::chrono::duration_cast\<close> drops a fraction of a tick.\<close>

definition duration_cast :: "nat \<Rightarrow> nat \<Rightarrow> int \<Rightarrow> int" where
  "duration_cast src_hz dest_hz n = (n * int dest_hz) sdiv int src_hz"

text \<open>
  The two function-local statics of one instantiation, \<open>None\<close> before the first call, which reads both
  clocks.
\<close>

type_synonym conversion_statics = "(int \<times> int) option"

definition convert_clock_timepoint ::
    "nat \<Rightarrow> nat \<Rightarrow> int \<times> int \<Rightarrow> int \<Rightarrow> conversion_statics \<Rightarrow> conversion_statics \<times> int" where
  "convert_clock_timepoint src_hz dest_hz now t statics =
     (let (destNow, srcNow) = (case statics of None \<Rightarrow> now | Some known \<Rightarrow> known)
      in (Some (destNow, srcNow), destNow + duration_cast src_hz dest_hz (t - srcNow)))"

definition time_from_string :: "(string \<Rightarrow> string \<Rightarrow> int option) \<Rightarrow> string \<Rightarrow> string \<Rightarrow> int res" where
  "time_from_string from_stream input format =
     (case from_stream input format of None \<Rightarrow> Inl Invalid_argument | Some t \<Rightarrow> Inr t)"

text \<open>Converting some time points one after the other, with what the clocks show at each call.\<close>

fun convert_all :: "nat \<Rightarrow> nat \<Rightarrow> (int \<times> int \<times> int) list \<Rightarrow> conversion_statics \<Rightarrow> int list" where
  "convert_all src_hz dest_hz [] statics = []"
| "convert_all src_hz dest_hz ((d, s, t) # calls) statics =
     (case convert_clock_timepoint src_hz dest_hz (d, s) t statics of
        (statics, r) \<Rightarrow> r # convert_all src_hz dest_hz calls statics)"

lemma sdiv_pos: "0 < m \<Longrightarrow> (n :: int) sdiv m = (if 0 \<le> n then n div m else - (- n div m))"
  by (auto simp: signed_divide_int_def sgn_if)

lemma duration_cast_mono: "0 < src_hz \<Longrightarrow> m \<le> n \<Longrightarrow> duration_cast src_hz dest_hz m \<le> duration_cast src_hz dest_hz n"
proof -
  assume hz: "0 < src_hz" and le: "m \<le> n"
  have "a sdiv int src_hz \<le> b sdiv int src_hz" if "a \<le> b" for a b
  proof -
    have mono: "x div int src_hz \<le> y div int src_hz" if "x \<le> y" for x y
      by (rule zdiv_mono1 [OF that]) (simp add: hz)
    have nonneg: "0 \<le> x div int src_hz" if "0 \<le> x" for x
      using that hz by (simp add: pos_imp_zdiv_nonneg_iff)
    have "- (- a div int src_hz) \<le> b div int src_hz" if "a < 0" "0 \<le> b"
      using nonneg [of "- a"] nonneg [of b] that by linarith
    then show ?thesis using \<open>a \<le> b\<close> hz mono [of a b] mono [of "- b" "- a"] by (auto simp: sdiv_pos)
  qed
  moreover have "m * int dest_hz \<le> n * int dest_hz" using le by (simp add: mult_right_mono)
  ultimately show ?thesis by (simp add: duration_cast_def)
qed

lemma convert_all_offset:
  "convert_all src_hz dest_hz calls (Some (d, s)) = map (\<lambda>(_, _, t). d + duration_cast src_hz dest_hz (t - s)) calls"
  by (induction calls) (auto simp: convert_clock_timepoint_def)

text \<open>
  All calls of a program convert by the readings of the first: the order of the time points is kept and,
  between clocks of the same resolution, so are their distances. A clock that is set later is not
  noticed.
\<close>

lemma convert_all_first:
  "convert_all src_hz dest_hz ((d, s, t) # calls) None =
     map (\<lambda>(_, _, t). d + duration_cast src_hz dest_hz (t - s)) ((d, s, t) # calls)"
  by (simp add: convert_clock_timepoint_def convert_all_offset)

lemma convert_keeps_order:
  assumes "0 < src_hz" and "t \<le> u"
  shows "snd (convert_clock_timepoint src_hz dest_hz now t (Some ds)) \<le>
    snd (convert_clock_timepoint src_hz dest_hz now' u (Some ds))"
  using assms by (cases ds) (simp add: convert_clock_timepoint_def duration_cast_mono)

lemma duration_cast_same: "0 < hz \<Longrightarrow> duration_cast hz hz n = n"
proof -
  assume hz: "0 < hz"
  have "- (n * int hz) = (- n) * int hz" by simp
  then have "- (n * int hz) div int hz = - n" using hz by (simp only: nonzero_mult_div_cancel_right of_nat_eq_0_iff)
  with hz show ?thesis by (simp add: duration_cast_def sdiv_pos)
qed

lemma convert_back:
  assumes "0 < hz"
  shows "snd (convert_clock_timepoint hz hz now' (snd (convert_clock_timepoint hz hz now t (Some (d, s)))) (Some (s, d))) = t"
  by (simp add: convert_clock_timepoint_def duration_cast_same [OF assms])

text \<open>At a coarser resolution the fraction of a tick is dropped, towards the first reading.\<close>

lemma convert_coarser: "snd (convert_clock_timepoint 1000 1 now 2999 (Some (0, 0))) = 2"
  "snd (convert_clock_timepoint 1000 1 now (- 2999) (Some (0, 0))) = - 2"
  by (simp_all add: convert_clock_timepoint_def duration_cast_def sdiv_pos)

end
