(* ===== verification/Format.thy ===== *)
theory Format
  imports Bytes Containers
begin

text \<open>
  The hex dump of \<open>common/include/sg/format.h\<close>. \<open>fmt::format("{:02X}", fmt::join(first, last, separator))\<close>
  writes every byte as two upper-case hexadecimal digits and the separator between two of them.
\<close>

section \<open>Digits\<close>

definition hex_digit :: "nat \<Rightarrow> char" where
  "hex_digit d = char_of (if d < 10 then 48 + d else 55 + d)"

definition hex_value :: "char \<Rightarrow> nat" where
  "hex_value c = (let n = of_char c in if n < 65 then n - 48 else n - 55)"

lemma hex_value_digit [simp]: "d < 16 \<Longrightarrow> hex_value (hex_digit d) = d"
  by (simp add: hex_value_def hex_digit_def)

definition hex_byte :: "byte \<Rightarrow> string" where
  "hex_byte b = [hex_digit (unat b div 16), hex_digit (unat b mod 16)]"

lemma length_hex_byte [simp]: "length (hex_byte b) = 2"
  by (simp add: hex_byte_def)

text \<open>The joined bytes: \<open>fmt::join\<close> with the format of an element applied.\<close>

fun hex_join :: "string \<Rightarrow> byte list \<Rightarrow> string" where
  "hex_join separator [] = []"
| "hex_join separator [b] = hex_byte b"
| "hex_join separator (b # bs) = hex_byte b @ separator @ hex_join separator bs"

section \<open>The overloads of \<open>to_hex\<close>\<close>

definition to_hex_range :: "endian \<Rightarrow> 'a::len word list \<Rightarrow> string \<Rightarrow> string" where
  "to_hex_range native items separator = (let result = to_bytes_range native items in hex_join separator result)"

text \<open>The loop over the iterators appends the bytes of one item at a time.\<close>

fun to_hex_loop :: "endian \<Rightarrow> 'a::len word list \<Rightarrow> byte list \<Rightarrow> byte list" where
  "to_hex_loop native [] result = result"
| "to_hex_loop native (it # rest) result = to_hex_loop native rest (ranges_append result (to_bytes native it))"

definition to_hex_iterators :: "endian \<Rightarrow> 'a::len word list \<Rightarrow> string \<Rightarrow> string" where
  "to_hex_iterators native items separator = hex_join separator (to_hex_loop native items [])"

definition to_hex_item :: "endian \<Rightarrow> 'a::len word \<Rightarrow> string \<Rightarrow> string" where
  "to_hex_item native item separator = (let result = to_bytes native item in hex_join separator result)"

section \<open>The three agree, and the text determines the bytes\<close>

lemma to_hex_loop_bytes: "to_hex_loop native items result = result @ to_bytes_range native items"
  by (induction items arbitrary: result) (simp_all add: ranges_append_def)

lemma to_hex_overloads:
  "to_hex_iterators native items separator = to_hex_range native items separator"
  "to_hex_item native item separator = to_hex_range native [item] separator"
  by (simp_all add: to_hex_iterators_def to_hex_range_def to_hex_item_def to_hex_loop_bytes)

lemma length_hex_join:
  "length (hex_join separator bs) = 2 * length bs + (length bs - 1) * length separator"
  by (induction separator bs rule: hex_join.induct) (simp_all add: algebra_simps)

lemma length_to_hex:
  "length (to_hex_range native (items :: 'a::len word list) '''') = 2 * (length items * (LENGTH('a) div 8))"
  by (simp add: to_hex_range_def length_hex_join length_to_bytes_range)

text \<open>Reading the digits back, past a separator of \<open>n\<close> characters.\<close>

fun parse_hex :: "nat \<Rightarrow> string \<Rightarrow> byte list" where
  "parse_hex n (a # b # rest) = of_nat (16 * hex_value a + hex_value b) # parse_hex n (drop n rest)"
| "parse_hex n _ = []"

lemma parse_hex_byte [simp]: "parse_hex n (hex_byte b @ rest) = b # parse_hex n (drop n rest)"
proof -
  have lt: "unat b < 256" using unsigned_less [of b] by simp
  have "of_nat (16 * (unat b div 16) + unat b mod 16) = b"
    by (simp only: mult_div_mod_eq unsigned_0 of_nat_unat ucast_id)
  then show ?thesis
    using lt by (simp add: hex_byte_def less_mult_imp_div_less)
qed

lemma parse_hex_join: "parse_hex (length separator) (hex_join separator bs) = bs"
proof (induction separator bs rule: hex_join.induct)
  case (2 separator b)
  show ?case using parse_hex_byte [of "length separator" b "[]"] by simp
qed simp_all

text \<open>The hex text of a value loses nothing: reading it back gives its bytes, and the value.\<close>

lemma to_hex_roundtrip:
  assumes "8 dvd LENGTH('a::len)"
  shows "to_object native (parse_hex (length separator) (to_hex_item native (w :: 'a word) separator)) = w"
  using assms by (simp add: to_hex_item_def parse_hex_join to_bytes_def to_object_def)

lemma to_hex_item_inject:
  assumes "8 dvd LENGTH('a::len)" and "to_hex_item native (v :: 'a word) separator = to_hex_item native w separator"
  shows "v = w"
  by (metis assms to_hex_roundtrip)

lemma to_hex_examples:
  "to_hex_item Little (0xAABB :: 16 word) '''' = ''BBAA''"
  "to_hex_item Big (0xAABB :: 16 word) '' '' = ''AA BB''"
  by (simp_all add: to_hex_item_def to_bytes_def bit_cast_bytes_def le_bytes_def upt_rec hex_byte_def hex_digit_def
      drop_bit_eq_div unsigned_ucast_eq char_of_def bit_0 bit_Suc)

end
