(* ===== verification/Text.thy ===== *)
theory Text
  imports Prelude "HOL-Library.List_Lexorder"
begin

text \<open>
  Versions (\<open>common/include/sg/version.h\<close>, \<open>common/src/version.cpp\<close>), enumerations and their values
  (\<open>common/include/sg/enumeration.h\<close>, \<open>common/include/sg/internal/enumeration.h\<close>) and the ASCII case and
  wide-character conversions of strings (\<open>common/src/string.cpp\<close>).

  \<open>std::stoul\<close> is modelled as documented: it skips white space, takes an optional sign and as many
  digits as there are, negates modulo \<open>2 ^ 64\<close>, and throws without a digit or when the number does not
  fit an \<open>unsigned long\<close> of 64 bits.
\<close>

section \<open>Decimal numbers\<close>

definition digit_char :: "nat \<Rightarrow> char" where
  "digit_char d = char_of (48 + d)"

definition is_digit :: "char \<Rightarrow> bool" where
  "is_digit c \<longleftrightarrow> (48 :: nat) \<le> of_char c \<and> of_char c \<le> (57 :: nat)"

definition digit_val :: "char \<Rightarrow> nat" where
  "digit_val c = of_char c - 48"

fun decimal :: "nat \<Rightarrow> string" where
  "decimal n = (if n < 10 then [digit_char n] else decimal (n div 10) @ [digit_char (n mod 10)])"

declare decimal.simps [simp del]

definition decimal_value :: "string \<Rightarrow> nat" where
  "decimal_value ds = foldl (\<lambda>a c. a * 10 + digit_val c) 0 ds"

lemma digit_char_simps [simp]:
  assumes "d < 10"
  shows "is_digit (digit_char d)" "digit_val (digit_char d) = d"
proof -
  have "of_char (digit_char d) = 48 + d"
    using assms by (simp add: digit_char_def of_char_of)
  then show "is_digit (digit_char d)" "digit_val (digit_char d) = d"
    using assms by (simp_all add: is_digit_def digit_val_def)
qed

lemma decimal_value_decimal [simp]: "decimal_value (decimal n) = n"
proof (induction n rule: decimal.induct)
  case (1 n)
  show ?case
  proof (cases "n < 10")
    case True
    then show ?thesis by (simp add: decimal.simps [of n] decimal_value_def)
  next
    case False
    then show ?thesis using 1 by (simp add: decimal.simps [of n] decimal_value_def)
  qed
qed

lemma decimal_digits: "c \<in> set (decimal n) \<Longrightarrow> is_digit c"
proof (induction n rule: decimal.induct)
  case (1 n)
  then show ?case
    by (cases "n < 10") (auto simp: decimal.simps [of n])
qed

lemma decimal_not_Nil [simp]: "decimal n \<noteq> []"
  by (simp add: decimal.simps [of n])

section \<open>Versions\<close>

definition is_space :: "char \<Rightarrow> bool" where
  "is_space c \<longleftrightarrow> c = CHR '' '' \<or> (9 :: nat) \<le> of_char c \<and> of_char c \<le> (13 :: nat)"

text \<open>The number and the characters converted.\<close>

definition stoul :: "string \<Rightarrow> (u64 \<times> nat) res" where
  "stoul input =
     (let rest = dropWhile is_space input;
          neg = (rest \<noteq> [] \<and> hd rest = CHR ''-'');
          signed = (rest \<noteq> [] \<and> (hd rest = CHR ''-'' \<or> hd rest = CHR ''+''));
          rest = (if signed then tl rest else rest);
          ds = takeWhile is_digit rest; n = decimal_value ds
      in if ds = [] then Inl Invalid_argument
         else if n \<ge> 2 ^ 64 then Inl Out_of_range
         else Inr (if neg then - of_nat n else of_nat n, length input - length rest + length ds))"

text \<open>The result is narrowed to \<open>unsigned int\<close>.\<close>

definition convert_or_throw :: "string \<Rightarrow> u32 res" where
  "convert_or_throw input =
     bind_res (stoul input) (\<lambda>(result, charactersConverted).
       if charactersConverted \<noteq> length input then Inl Runtime_error else Inr (ucast result))"

type_synonym version = "u32 list"

function version_loop :: "string \<Rightarrow> version \<Rightarrow> version res" where
  "version_loop input versions =
     (case dropWhile (\<lambda>c. c \<noteq> CHR ''.'') input of
        _ # rest \<Rightarrow>
          bind_res (convert_or_throw (takeWhile (\<lambda>c. c \<noteq> CHR ''.'') input))
            (\<lambda>v. version_loop rest (versions @ [v]))
      | [] \<Rightarrow>
          if input = [] then Inr versions
          else bind_res (convert_or_throw input) (\<lambda>v. Inr (versions @ [v])))"
  by pat_completeness auto

termination
proof (relation "measure (\<lambda>(input, _). length input)")
  fix input :: string and versions :: version and c rest v
  assume "dropWhile (\<lambda>c. c \<noteq> CHR ''.'') input = c # rest"
  then have "length (c # rest) \<le> length input" by (metis length_dropWhile_le)
  then show "((rest, versions @ [v]), input, versions) \<in> measure (\<lambda>(input, _). length input)" by simp
qed simp

declare version_loop.simps [simp del]

definition version_of_string :: "string \<Rightarrow> version res" where
  "version_of_string input = version_loop input []"

fun string_of_version :: "version \<Rightarrow> string" where
  "string_of_version [] = []"
| "string_of_version [v] = decimal (unat v)"
| "string_of_version (v # vs) = decimal (unat v) @ ''.'' @ string_of_version vs"

text \<open>Versions compare like vectors.\<close>

definition version_less :: "version \<Rightarrow> version \<Rightarrow> bool" where
  "version_less a b \<longleftrightarrow> a < b"

lemma digit_not_special: "is_digit c \<Longrightarrow> \<not> is_space c \<and> c \<noteq> CHR ''-'' \<and> c \<noteq> CHR ''+'' \<and> c \<noteq> CHR ''.''"
  by (auto simp: is_digit_def is_space_def)

lemma convert_decimal: "convert_or_throw (decimal (unat v)) = Inr (v :: u32)"
proof -
  let ?s = "decimal (unat v)"
  have hd: "is_digit (hd ?s)" by (rule decimal_digits [of _ "unat v"]) simp
  then have n: "\<not> is_space (hd ?s)" "hd ?s \<noteq> CHR ''-''" "hd ?s \<noteq> CHR ''+''"
    using digit_not_special by blast+
  then have d: "dropWhile is_space ?s = ?s" by (cases ?s) auto
  have t: "takeWhile is_digit ?s = ?s" using decimal_digits by (simp add: takeWhile_eq_all_conv)
  have small: "unat v < 2 ^ 64" by (rule order_less_trans [OF unsigned_less]) simp
  have "ucast (of_nat (unat v) :: u64) = v"
  proof -
    have "(of_nat (unat v) :: u64) = ucast v" by simp
    then show ?thesis by (simp add: ucast_up_ucast_id is_up_def source_size target_size)
  qed
  moreover from small have "\<not> 2 ^ 64 \<le> unat v" by simp
  ultimately show ?thesis using n
    by (simp add: convert_or_throw_def stoul_def Let_def d t)
qed

lemma no_dot: "CHR ''.'' \<notin> set (decimal n)"
  using decimal_digits digit_not_special by blast

lemma before_dot:
  "takeWhile (\<lambda>c. c \<noteq> CHR ''.'') (decimal n @ CHR ''.'' # rest) = decimal n"
  "dropWhile (\<lambda>c. c \<noteq> CHR ''.'') (decimal n @ CHR ''.'' # rest) = CHR ''.'' # rest"
  "dropWhile (\<lambda>c. c \<noteq> CHR ''.'') (decimal n) = []"
  using no_dot [of n] by (simp_all add: takeWhile_append2 dropWhile_append3 dropWhile_append2) (auto simp: takeWhile_tail)

lemma version_loop_roundtrip: "version_loop (string_of_version vs) acc = Inr (acc @ vs)"
proof (induction vs arbitrary: acc rule: string_of_version.induct)
  case 1
  show ?case by (simp add: version_loop.simps)
next
  case (2 v)
  show ?case by (simp add: version_loop.simps before_dot convert_decimal)
next
  case (3 v w ws)
  let ?rest = "string_of_version (w # ws)"
  have "version_loop (string_of_version (v # w # ws)) acc = version_loop ?rest (acc @ [v])"
    using before_dot(1,2) [of "unat v" ?rest]
    by (subst version_loop.simps) (simp add: convert_decimal)
  then show ?case using 3 by simp
qed

text \<open>
  C40: A version printed with its dots reads back as the same version: the constructor from a string
  inverts the conversion to a string, for every list of 32-bit components, the empty one included.
\<close>

theorem version_roundtrip: "version_of_string (string_of_version vs) = Inr vs"
  by (simp add: version_of_string_def version_loop_roundtrip)

text \<open>
  What the reader accepts beyond that: a component that does not fit \<open>unsigned int\<close> is cut to its
  low 32 bits, a negative one wraps, white space is skipped, and a trailing dot is ignored.
\<close>

lemmas version_evaluation =
  version_of_string_def version_loop.simps convert_or_throw_def stoul_def Let_def is_space_def
  is_digit_def digit_val_def decimal_value_def

lemma version_component_wraps: "version_of_string ''4294967297.0'' = Inr [1, 0]"
  by (simp add: version_evaluation)

lemma narrowed_minus_one: "ucast (- 1 :: u64) = (4294967295 :: u32)"
proof -
  have "(4294967295 :: u32) = - 1" by simp
  moreover have "ucast (- 1 :: u64) = (- 1 :: u32)" by (rule bit_word_eqI) (simp add: bit_simps)
  ultimately show ?thesis by simp
qed

lemma version_negative_component: "version_of_string ''1.-1'' = Inr [1, 2 ^ 32 - 1]"
  by (simp add: version_evaluation narrowed_minus_one)

lemma version_trailing_dot: "version_of_string ''1.'' = version_of_string ''1''"
  by (simp add: version_evaluation)

lemma version_rejects:
  "version_of_string ''1..2'' = Inl Invalid_argument"
  "version_of_string ''1.2a'' = Inl Runtime_error"
  "version_of_string ''18446744073709551616'' = Inl Out_of_range"
  by (simp_all add: version_evaluation)

section \<open>Enumerations\<close>

text \<open>
  Enumerators are their underlying values. The map that \<open>populate_enum_value_map\<close> fills is a
  \<open>std::map\<close>, so the loop meets every enumerator once; its entries are the list \<open>entries\<close>.
\<close>

definition enum_or :: "'w::len word \<Rightarrow> 'w word \<Rightarrow> 'w word" where
  "enum_or lhs rhs = lhs OR rhs"

definition enum_and :: "'w::len word \<Rightarrow> 'w word \<Rightarrow> 'w word" where
  "enum_and lhs rhs = lhs AND rhs"

definition enum_contains :: "'w::len word \<Rightarrow> 'w word \<Rightarrow> bool" where
  "enum_contains enumeration enum_to_check \<longleftrightarrow> enum_and enumeration enum_to_check = enum_to_check"

fun bimap_loop :: "('e \<times> 'v) list \<Rightarrow> ('e \<times> 'v) list \<Rightarrow> ('e \<times> 'v) list res" where
  "bimap_loop [] bimap = Inr bimap"
| "bimap_loop ((en, val) # entries) bimap =
     (if val \<in> snd ` set bimap then Inl Logic_error
      else bimap_loop entries (bimap @ [(en, val)]))"

definition generate_enum_val_bimap :: "('e \<times> 'v) list \<Rightarrow> ('e \<times> 'v) list res" where
  "generate_enum_val_bimap entries = bimap_loop entries []"

definition enum_to_val :: "('e \<times> 'v) list \<Rightarrow> 'e \<Rightarrow> 'v res" where
  "enum_to_val entries en =
     bind_res (generate_enum_val_bimap entries)
       (\<lambda>bimap. case map_of bimap en of None \<Rightarrow> Inl Out_of_range | Some val \<Rightarrow> Inr val)"

definition enum_from_val :: "('e \<times> 'v) list \<Rightarrow> 'v \<Rightarrow> 'e res" where
  "enum_from_val entries val =
     bind_res (generate_enum_val_bimap entries)
       (\<lambda>bimap. case map_of (map prod.swap bimap) val of None \<Rightarrow> Inl Out_of_range | Some en \<Rightarrow> Inr en)"

lemma contains_or: "enum_contains (enum_or a b) c" if "enum_contains a c \<or> enum_contains b c"
  using that by (auto simp: enum_contains_def enum_or_def enum_and_def bit_eq_iff bit_and_iff bit_or_iff)

lemma contains_all: "enum_contains a (enum_or b c) \<longleftrightarrow> enum_contains a b \<and> enum_contains a c"
  by (auto simp: enum_contains_def enum_or_def enum_and_def bit_eq_iff bit_and_iff bit_or_iff)

lemma bimap_loop_iff:
  "bimap_loop entries bimap =
     (if distinct (map snd entries) \<and> snd ` set entries \<inter> snd ` set bimap = {} then Inr (bimap @ entries)
      else Inl Logic_error)"
  by (induction entries bimap rule: bimap_loop.induct) auto

text \<open>An enumeration with two names for one value has no map, whichever conversion is asked for.\<close>

lemma duplicate_value_throws:
  assumes "\<not> distinct (map snd entries)"
  shows "enum_to_val entries en = Inl Logic_error" "enum_from_val entries val = Inl Logic_error"
  using assms
  by (simp_all add: enum_to_val_def enum_from_val_def generate_enum_val_bimap_def bimap_loop_iff)

text \<open>
  With one entry per enumerator, \<open>enum_to_val\<close> and \<open>enum_from_val\<close> invert each other: whenever
  the one returns a value the other returns its enumerator, and the reverse.
\<close>

theorem enum_conversions_inverse:
  assumes "distinct (map fst entries)"
  shows "enum_to_val entries en = Inr val \<longleftrightarrow> enum_from_val entries val = Inr en"
proof (cases "distinct (map snd entries)")
  case True
  then have swapped: "distinct (map fst (map prod.swap entries))" by (simp add: comp_def)
  show ?thesis
    using True map_of_eq_Some_iff [OF assms, of en val] map_of_eq_Some_iff [OF swapped, of val en]
    by (force simp: enum_to_val_def enum_from_val_def generate_enum_val_bimap_def bimap_loop_iff
        image_iff prod.swap_def split: option.splits)
qed (simp add: duplicate_value_throws)

theorem enum_conversions_inverse_witness:
  "enum_to_val [(0 :: u32, ''red''), (1, ''green'')] 1 = Inr ''green'' \<longleftrightarrow>
   enum_from_val [(0 :: u32, ''red''), (1, ''green'')] ''green'' = Inr 1"
  by (rule enum_conversions_inverse) simp

section \<open>Case conversion\<close>

text \<open>\<open>std::toupper\<close> and \<open>std::tolower\<close> in the default locale.\<close>

definition upper_char :: "char \<Rightarrow> char" where
  "upper_char c =
     (let n = of_char c in if (97 :: nat) \<le> n \<and> n \<le> 122 then char_of (n - 32) else c)"

definition lower_char :: "char \<Rightarrow> char" where
  "lower_char c =
     (let n = of_char c in if (65 :: nat) \<le> n \<and> n \<le> 90 then char_of (n + 32) else c)"

definition toupper_inplace :: "string \<Rightarrow> string" where
  "toupper_inplace refStr = map upper_char refStr"

definition tolower_inplace :: "string \<Rightarrow> string" where
  "tolower_inplace refStr = map lower_char refStr"

definition toupper :: "string \<Rightarrow> string" where
  "toupper s = toupper_inplace s"

definition tolower :: "string \<Rightarrow> string" where
  "tolower s = tolower_inplace s"

lemma of_upper_char: "(of_char (upper_char c) :: nat) = (if 97 \<le> (of_char c :: nat) \<and> of_char c \<le> (122 :: nat) then of_char c - 32 else of_char c)"
  by (auto simp: upper_char_def Let_def)

lemma of_lower_char: "(of_char (lower_char c) :: nat) = (if 65 \<le> (of_char c :: nat) \<and> of_char c \<le> (90 :: nat) then of_char c + 32 else of_char c)"
  by (auto simp: lower_char_def Let_def)

text \<open>The second conversion wins, and neither changes the length.\<close>

lemma case_conversion_absorbs:
  "toupper (tolower s) = toupper s" "tolower (toupper s) = tolower s"
  "toupper (toupper s) = toupper s" "tolower (tolower s) = tolower s"
proof -
  have eq: "a = b" if "(of_char a :: nat) = of_char b" for a b :: char
    using that by simp
  have "upper_char (lower_char c) = upper_char c" "lower_char (upper_char c) = lower_char c"
    "upper_char (upper_char c) = upper_char c" "lower_char (lower_char c) = lower_char c" for c
    by (rule eq; auto simp: of_upper_char of_lower_char)+
  then show "toupper (tolower s) = toupper s" "tolower (toupper s) = tolower s"
    "toupper (toupper s) = toupper s" "tolower (tolower s) = tolower s"
    by (simp_all add: toupper_def tolower_def toupper_inplace_def tolower_inplace_def)
qed

lemma case_conversion_length [simp]: "length (toupper s) = length s" "length (tolower s) = length s"
  by (simp_all add: toupper_def tolower_def toupper_inplace_def tolower_inplace_def)

section \<open>Multi-byte and wide strings\<close>

text \<open>
  \<open>mbsrtowcs\<close> and \<open>wcsrtombs\<close> of the C library are the parameter \<open>conv\<close>: the characters converted from a
  string up to its terminator, with the length of the destination (\<open>None\<close>: no destination), or \<open>None\<close> for
  a character that does not convert. The functions take a pointer, \<open>None\<close> when it is null.
\<close>

definition c_str :: "'c::zero list \<Rightarrow> 'c list" where
  "c_str s = takeWhile (\<lambda>c. c \<noteq> 0) s"

type_synonym ('c, 'd) conversion = "'c list \<Rightarrow> nat option \<Rightarrow> 'd list option"

definition convert_c_string :: "('c, 'd::zero) conversion \<Rightarrow> 'c list option \<Rightarrow> 'd list res" where
  "convert_c_string conv input =
     (case input of
        None \<Rightarrow> Inr []
      | Some s \<Rightarrow>
          (case conv s None of
             None \<Rightarrow> Inl Runtime_error
           | Some needed \<Rightarrow>
               let len = length needed; result = replicate len 0
               in case conv s (Some len) of
                    None \<Rightarrow> Inl Runtime_error
                  | Some written \<Rightarrow> Inr (written @ drop (length written) result)))"

definition to_wstring_c :: "(byte, u32) conversion \<Rightarrow> byte list option \<Rightarrow> u32 list res" where
  "to_wstring_c mbsrtowcs input = convert_c_string mbsrtowcs input"

definition to_string_c :: "(u32, byte) conversion \<Rightarrow> u32 list option \<Rightarrow> byte list res" where
  "to_string_c wcsrtombs input = convert_c_string wcsrtombs input"

definition to_wstring :: "(byte, u32) conversion \<Rightarrow> byte list \<Rightarrow> u32 list res" where
  "to_wstring mbsrtowcs input = to_wstring_c mbsrtowcs (Some (c_str input))"

definition to_string_wide :: "(u32, byte) conversion \<Rightarrow> u32 list \<Rightarrow> byte list res" where
  "to_string_wide wcsrtombs input = to_string_c wcsrtombs (Some (c_str input))"

text \<open>A path is wide on Windows and a string of bytes elsewhere.\<close>

definition to_string_path :: "byte list \<Rightarrow> byte list" where
  "to_string_path input = c_str input"

definition to_string_path_windows :: "(u32, byte) conversion \<Rightarrow> u32 list \<Rightarrow> byte list res" where
  "to_string_path_windows wcsrtombs input = to_string_c wcsrtombs (Some (c_str input))"

definition to_string_buffer :: "byte list \<Rightarrow> byte list" where
  "to_string_buffer input = (if length input = 0 then [] else input)"

text \<open>
  What C promises of a conversion with a destination: of what it converts without one, it writes as
  much as fits.
\<close>

definition respects_length :: "('c, 'd) conversion \<Rightarrow> bool" where
  "respects_length conv \<longleftrightarrow> (\<forall>s out n. conv s None = Some out \<longrightarrow> conv s (Some n) = Some (take n out))"

text \<open>The second call never fails or falls short: the result is what converting gives, or the error.\<close>

lemma convert_c_string_spec:
  assumes "respects_length conv"
  shows "convert_c_string conv (Some s) = (case conv s None of None \<Rightarrow> Inl Runtime_error | Some out \<Rightarrow> Inr out)"
proof (cases "conv s None")
  case (Some out)
  then have "conv s (Some (length out)) = Some out"
    using assms by (simp add: respects_length_def)
  then show ?thesis using Some by (simp add: convert_c_string_def Let_def)
qed (simp add: convert_c_string_def)

text \<open>
  Where one conversion undoes the other a string comes back, up to its first NUL: of a string with an
  embedded NUL the rest is lost.
\<close>

lemma wide_roundtrip:
  assumes "respects_length mb" and "respects_length wc"
    and "mb (c_str s) None = Some w" and "0 \<notin> set w" and "wc w None = Some (c_str s)"
  shows "bind_res (to_wstring mb s) (to_string_wide wc) = Inr (c_str s)"
proof -
  have "c_str w = w" using assms(4) by (auto simp: c_str_def takeWhile_eq_all_conv)
  then show ?thesis
    using assms by (simp add: to_wstring_def to_wstring_c_def to_string_wide_def to_string_c_def convert_c_string_spec)
qed

lemma embedded_nul_lost: "to_string_path [65, 0, 66] = [65]"
  by (simp add: to_string_path_def c_str_def)

text \<open>A conversion for ASCII: the round trip holds for it, and a byte above 127 is the error.\<close>

definition ascii_conv :: "('a::len word, 'b::len word) conversion" where
  "ascii_conv s n =
     (let out = map ucast (case n of None \<Rightarrow> s | Some k \<Rightarrow> take k s)
      in if \<forall>c\<in>set s. c < 128 then Some out else None)"

lemma ascii_respects_length: "respects_length ascii_conv"
  by (auto simp: respects_length_def ascii_conv_def Let_def take_map split: if_splits)

lemma wide_roundtrip_ascii:
  "bind_res (to_wstring ascii_conv [72, 105, 0, 33]) (to_string_wide ascii_conv) = Inr [72, 105]"
  "to_wstring ascii_conv [200] = Inl Runtime_error"
  by (simp_all add: to_wstring_def to_wstring_c_def to_string_wide_def to_string_c_def convert_c_string_def
      ascii_conv_def c_str_def Let_def)

end
