(* ===== verification/Buffers.thy ===== *)
theory Buffers
  imports Prelude
begin

text \<open>
  Memory and the owning buffers: \<open>common/include/sg/memory.h\<close>, \<open>common/src/memory.cpp\<close>,
  \<open>common/include/sg/buffer.h\<close>.

  The heap records what is allocated and by which allocator. Giving a block back twice or to the wrong
  deallocator is undefined behaviour in C++; here it is recorded as a fault. A \<open>std::unique_ptr\<close> is the
  pointer it holds. A \<open>std::shared_ptr\<close> is a pointer and a control block, which counts the shared
  pointers that use it and knows the deleter it was created with. The variables of a program are maps
  from names to buffers, so that a moved-from or copied buffer keeps its identity.
\<close>

section \<open>The heap\<close>

datatype allocator = Malloc | New_array

text \<open>The deleters that buffers are used with: \<open>deleter_free\<close> and \<open>std::default_delete<T[]>\<close>.\<close>

datatype deleter = Deleter_free | Default_delete

fun frees :: "deleter \<Rightarrow> allocator" where
  "frees Deleter_free = Malloc" | "frees Default_delete = New_array"

datatype fault = Not_live nat | Wrong_deallocator nat | No_control nat

record heap =
  live :: "nat \<rightharpoonup> allocator \<times> nat"
  next_block :: nat
  faults :: "fault list"

definition allocate :: "allocator \<Rightarrow> nat \<Rightarrow> 'a heap_scheme \<Rightarrow> nat \<times> 'a heap_scheme" where
  "allocate a n h =
     (next_block h, h\<lparr>live := (live h)(next_block h \<mapsto> (a, n)), next_block := Suc (next_block h)\<rparr>)"

fun deallocate :: "allocator \<Rightarrow> nat option \<Rightarrow> 'a heap_scheme \<Rightarrow> 'a heap_scheme" where
  "deallocate a None h = h"
| "deallocate a (Some p) h =
     (case live h p of
        None \<Rightarrow> h\<lparr>faults := faults h @ [Not_live p]\<rparr>
      | Some (b, n) \<Rightarrow>
          h\<lparr>live := (live h)(p := None),
            faults := (if a = b then faults h else faults h @ [Wrong_deallocator p])\<rparr>)"

section \<open>Memory functions\<close>

text \<open>\<open>ok\<close>: the system has the memory.\<close>

definition malloc_or_throw :: "bool \<Rightarrow> u64 \<Rightarrow> 'a heap_scheme \<Rightarrow> 'a heap_scheme \<times> nat res" where
  "malloc_or_throw ok nbytes h =
     (if nbytes = 0 then (h, Inl Bad_alloc)
      else if \<not> ok then (h, Inl Bad_alloc)
      else let (result, h) = allocate Malloc (unat nbytes) h in (h, Inr result))"

text \<open>A \<open>realloc\<close> that succeeds gives a block back and returns another.\<close>

definition realloc_or_free_and_throw ::
    "bool \<Rightarrow> nat option \<Rightarrow> u64 \<Rightarrow> 'a heap_scheme \<Rightarrow> 'a heap_scheme \<times> nat res" where
  "realloc_or_free_and_throw ok ptr nbytes h =
     (if nbytes = 0 \<or> \<not> ok then (deallocate Malloc ptr h, Inl Bad_alloc)
      else let (result, h) = allocate Malloc (unat nbytes) (deallocate Malloc ptr h) in (h, Inr result))"

text \<open>
  \<open>memory\<close> is the caller's pointer, \<open>func\<close> the caller's function, which may change both the pointer and
  the heap. \<open>CallocAndFree\<close> differs only in what the new block contains.
\<close>

definition malloc_and_free ::
    "bool \<Rightarrow> u64 \<Rightarrow> (nat option \<times> heap \<Rightarrow> (nat option \<times> heap) \<times> unit res) \<Rightarrow>
     nat option \<times> heap \<Rightarrow> (nat option \<times> heap) \<times> unit res" where
  "malloc_and_free ok sizeBytes func = (\<lambda>(memory, h).
     if sizeBytes = 0 then ((memory, h), Inl Bad_alloc)
     else
       let (memory, h) = (if ok then (let (p, h) = allocate Malloc (unat sizeBytes) h in (Some p, h)) else (None, h));
           ((memory, h), r) = (if memory = None then ((memory, h), Inl Bad_alloc) else func (memory, h))
       in case r of
            Inr () \<Rightarrow> ((None, deallocate Malloc memory h), Inr ())
          | Inl e \<Rightarrow> if memory \<noteq> None then ((None, deallocate Malloc memory h), Inl e)
                     else ((memory, h), Inl e))"

definition calloc_and_free ::
    "bool \<Rightarrow> u64 \<Rightarrow> (nat option \<times> heap \<Rightarrow> (nat option \<times> heap) \<times> unit res) \<Rightarrow>
     nat option \<times> heap \<Rightarrow> (nat option \<times> heap) \<times> unit res" where
  "calloc_and_free ok sizeBytes func = malloc_and_free ok sizeBytes func"

lemma realloc_consumes:
  assumes "live h p = Some (Malloc, n)"
  shows "case realloc_or_free_and_throw ok (Some p) m h of (h', r) \<Rightarrow>
      faults h' = faults h \<and>
      (case r of Inl e \<Rightarrow> e = Bad_alloc \<and> live h' = (live h)(p := None)
       | Inr q \<Rightarrow> live h' = ((live h)(p := None))(q \<mapsto> (Malloc, unat m)))"
  using assms by (simp add: realloc_or_free_and_throw_def allocate_def)

text \<open>
  Whatever the function does, unless it gives the block away itself, nothing of what
  \<open>malloc_and_free\<close> allocated is left afterwards.
\<close>

lemma malloc_and_free_balanced:
  assumes "\<And>m h0 m' h' r. func (m, h0) = ((m', h'), r) \<Longrightarrow> m' = m \<and> live h' = live h0 \<and> faults h' = faults h0"
    and "malloc_and_free ok n func (m, h) = ((m', h'), r)" and "live h (next_block h) = None"
  shows "live h' = live h \<and> faults h' = faults h \<and> (n \<noteq> 0 \<longrightarrow> m' = None) \<and> (n = 0 \<or> \<not> ok \<longrightarrow> r = Inl Bad_alloc)"
proof (cases "n = 0 \<or> \<not> ok")
  case True
  then show ?thesis using assms(2)
    by (cases "n = 0"; cases ok) (auto simp: malloc_and_free_def Let_def)
next
  case False
  let ?p = "next_block h"
  obtain h0 where h0: "allocate Malloc (unat n) h = (?p, h0)" "live h0 = (live h)(?p \<mapsto> (Malloc, unat n))"
    "faults h0 = faults h"
    by (simp add: allocate_def)
  obtain m1 h1 r1 where f: "func (Some ?p, h0) = ((m1, h1), r1)" by (metis surj_pair)
  have m1: "m1 = Some ?p" "live h1 = live h0" "faults h1 = faults h"
    using assms(1) [OF f] h0(3) by auto
  have "malloc_and_free ok n func (m, h) = ((None, deallocate Malloc (Some ?p) h1), r1)"
    using False by (cases r1) (simp_all add: malloc_and_free_def h0(1) f m1(1) case_unit_Unity)
  then have "m' = None" "h' = deallocate Malloc (Some ?p) h1" using assms(2) by auto
  moreover have "live h1 ?p = Some (Malloc, unat n)" "(live h1)(?p := None) = live h"
    using m1(2) h0(2) assms(3) by (simp_all add: fun_upd_idem)
  ultimately show ?thesis using m1(3) False by simp
qed

section \<open>Buffers and their pointers\<close>

record ubuf =
  u_ptr :: "nat option"
  u_length :: u64

text \<open>A shared pointer: what it points to and its control block.\<close>

record sbuf =
  s_ptr :: "nat option"
  s_control :: "nat option"
  s_length :: u64

datatype control = Control (uses: nat) (managed: "nat option") (with_deleter: deleter)

text \<open>\<open>raws\<close> are the blocks the program itself owns through bare pointers.\<close>

record store = heap +
  uniques :: "nat \<rightharpoonup> ubuf"
  shareds :: "nat \<rightharpoonup> sbuf"
  controls :: "nat \<rightharpoonup> control"
  next_control :: nat
  raws :: "nat set"

definition empty_store :: store where
  "empty_store =
     \<lparr>live = Map.empty, next_block = 0, faults = [], uniques = Map.empty, shareds = Map.empty,
      controls = Map.empty, next_control = 0, raws = {}\<rparr>"

definition put_unique :: "nat \<Rightarrow> ubuf \<Rightarrow> store \<Rightarrow> store" where
  "put_unique x b s = s\<lparr>uniques := (uniques s)(x \<mapsto> b)\<rparr>"

definition put_shared :: "nat \<Rightarrow> sbuf \<Rightarrow> store \<Rightarrow> store" where
  "put_shared v b s = s\<lparr>shareds := (shareds s)(v \<mapsto> b)\<rparr>"

abbreviation unique :: "store \<Rightarrow> nat \<Rightarrow> ubuf" where
  "unique s x \<equiv> the (uniques s x)"

abbreviation shared :: "store \<Rightarrow> nat \<Rightarrow> sbuf" where
  "shared s v \<equiv> the (shareds s v)"

text \<open>Control blocks.\<close>

definition new_control :: "nat option \<Rightarrow> deleter \<Rightarrow> store \<Rightarrow> nat \<times> store" where
  "new_control p d s =
     (next_control s, s\<lparr>controls := (controls s)(next_control s \<mapsto> Control 1 p d),
        next_control := Suc (next_control s)\<rparr>)"

fun add_use :: "nat option \<Rightarrow> store \<Rightarrow> store" where
  "add_use None s = s"
| "add_use (Some c) s =
     (case controls s c of
        None \<Rightarrow> s\<lparr>faults := faults s @ [No_control c]\<rparr>
      | Some (Control n p d) \<Rightarrow> s\<lparr>controls := (controls s)(c \<mapsto> Control (Suc n) p d)\<rparr>)"

fun release_use :: "nat option \<Rightarrow> store \<Rightarrow> store" where
  "release_use None s = s"
| "release_use (Some c) s =
     (case controls s c of
        None \<Rightarrow> s\<lparr>faults := faults s @ [No_control c]\<rparr>
      | Some (Control n p d) \<Rightarrow>
          if n = 1 then deallocate (frees d) p (s\<lparr>controls := (controls s)(c := None)\<rparr>)
          else s\<lparr>controls := (controls s)(c \<mapsto> Control (n - 1) p d)\<rparr>)"

section \<open>\<open>unique_buffer\<close>\<close>

definition unique_default :: "nat \<Rightarrow> store \<Rightarrow> store" where
  "unique_default x s = put_unique x \<lparr>u_ptr = None, u_length = 0\<rparr> s"

definition unique_from_pointer :: "nat \<Rightarrow> nat option \<Rightarrow> u64 \<Rightarrow> store \<Rightarrow> store" where
  "unique_from_pointer x p len s = put_unique x \<lparr>u_ptr = p, u_length = len\<rparr> s"

text \<open>The defaulted moves move the pointer and copy the length.\<close>

definition unique_move :: "nat \<Rightarrow> nat \<Rightarrow> store \<Rightarrow> store" where
  "unique_move x y s =
     (let b = unique s y in put_unique x b (put_unique y (b\<lparr>u_ptr := None\<rparr>) s))"

definition unique_move_assign :: "deleter \<Rightarrow> nat \<Rightarrow> nat \<Rightarrow> store \<Rightarrow> store" where
  "unique_move_assign d x y s =
     (let b = unique s y;
          s = put_unique y (b\<lparr>u_ptr := None\<rparr>) s;
          old = u_ptr (unique s x)
      in deallocate (frees d) old (put_unique x b s))"

definition unique_swap :: "nat \<Rightarrow> nat \<Rightarrow> store \<Rightarrow> store" where
  "unique_swap x y s =
     (let a = unique s x; b = unique s y in put_unique y a (put_unique x b s))"

definition unique_release :: "nat \<Rightarrow> store \<Rightarrow> nat option \<times> store" where
  "unique_release x s =
     (let b = unique s x in (u_ptr b, put_unique x (b\<lparr>u_ptr := None\<rparr>) s))"

definition unique_reset_to :: "deleter \<Rightarrow> nat \<Rightarrow> nat option \<Rightarrow> u64 \<Rightarrow> store \<Rightarrow> store" where
  "unique_reset_to d x p len s =
     (let b = unique s x;
          s = deallocate (frees d) (u_ptr b) (put_unique x (b\<lparr>u_ptr := p\<rparr>) s)
      in put_unique x \<lparr>u_ptr = p, u_length = len\<rparr> s)"

definition unique_reset :: "deleter \<Rightarrow> nat \<Rightarrow> store \<Rightarrow> store" where
  "unique_reset d x s = unique_reset_to d x None 0 s"

definition unique_destroy :: "deleter \<Rightarrow> nat \<Rightarrow> store \<Rightarrow> store" where
  "unique_destroy d x s =
     deallocate (frees d) (u_ptr (unique s x)) (s\<lparr>uniques := (uniques s)(x := None)\<rparr>)"

text \<open>\<open>sizeof (T) * length\<close> wraps like any product of two \<open>size_t\<close>.\<close>

definition make_unique_c_buffer :: "u64 \<Rightarrow> bool \<Rightarrow> nat \<Rightarrow> u64 \<Rightarrow> store \<Rightarrow> store \<times> unit res" where
  "make_unique_c_buffer sizeof ok x len s =
     (case malloc_or_throw ok (sizeof * len) s of
        (s, Inl e) \<Rightarrow> (s, Inl e)
      | (s, Inr p) \<Rightarrow> (unique_from_pointer x (Some p) len s, Inr ()))"

section \<open>\<open>shared_buffer\<close>\<close>

definition shared_default :: "nat \<Rightarrow> store \<Rightarrow> store" where
  "shared_default v s = put_shared v \<lparr>s_ptr = None, s_control = None, s_length = 0\<rparr> s"

definition shared_from_pointer :: "deleter \<Rightarrow> nat \<Rightarrow> nat option \<Rightarrow> u64 \<Rightarrow> store \<Rightarrow> store" where
  "shared_from_pointer d v p len s =
     (let (c, s) = new_control p d s
      in put_shared v \<lparr>s_ptr = p, s_control = Some c, s_length = len\<rparr> s)"

definition shared_from_unique :: "deleter \<Rightarrow> nat \<Rightarrow> nat \<Rightarrow> store \<Rightarrow> store" where
  "shared_from_unique d v x s =
     (let (p, s) = unique_release x s in shared_from_pointer d v p (u_length (unique s x)) s)"

definition shared_copy :: "nat \<Rightarrow> nat \<Rightarrow> store \<Rightarrow> store" where
  "shared_copy v w s = (let b = shared s w in put_shared v b (add_use (s_control b) s))"

definition shared_move :: "nat \<Rightarrow> nat \<Rightarrow> store \<Rightarrow> store" where
  "shared_move v w s =
     (let b = shared s w
      in put_shared v b (put_shared w (b\<lparr>s_ptr := None, s_control := None\<rparr>) s))"

text \<open>The copy assignment counts the new use before it gives up the old one.\<close>

definition shared_copy_assign :: "nat \<Rightarrow> nat \<Rightarrow> store \<Rightarrow> store" where
  "shared_copy_assign v w s =
     (let b = shared s w; s = add_use (s_control b) s; old = s_control (shared s v)
      in release_use old (put_shared v b s))"

definition shared_move_assign :: "nat \<Rightarrow> nat \<Rightarrow> store \<Rightarrow> store" where
  "shared_move_assign v w s =
     (let b = shared s w;
          s = put_shared w (b\<lparr>s_ptr := None, s_control := None\<rparr>) s;
          old = s_control (shared s v)
      in release_use old (put_shared v b s))"

definition shared_swap :: "nat \<Rightarrow> nat \<Rightarrow> store \<Rightarrow> store" where
  "shared_swap v w s =
     (let a = shared s v; b = shared s w in put_shared w a (put_shared v b s))"

text \<open>
  \<open>std::shared_ptr<T[]>::reset (p)\<close> is given no deleter, so the new control block has the default one,
  whatever the buffer's deleter is.
\<close>

definition shared_reset_to :: "nat \<Rightarrow> nat option \<Rightarrow> u64 \<Rightarrow> store \<Rightarrow> store" where
  "shared_reset_to v p len s =
     (let (c, s) = new_control p Default_delete s; old = s_control (shared s v)
      in release_use old (put_shared v \<lparr>s_ptr = p, s_control = Some c, s_length = len\<rparr> s))"

definition shared_reset :: "nat \<Rightarrow> store \<Rightarrow> store" where
  "shared_reset v s = shared_reset_to v None 0 s"

definition shared_destroy :: "nat \<Rightarrow> store \<Rightarrow> store" where
  "shared_destroy v s =
     release_use (s_control (shared s v)) (s\<lparr>shareds := (shareds s)(v := None)\<rparr>)"

definition make_shared_c_buffer :: "u64 \<Rightarrow> bool \<Rightarrow> nat \<Rightarrow> u64 \<Rightarrow> store \<Rightarrow> store \<times> unit res" where
  "make_shared_c_buffer sizeof ok v len s =
     (case malloc_or_throw ok (sizeof * len) s of
        (s, Inl e) \<Rightarrow> (s, Inl e)
      | (s, Inr p) \<Rightarrow> (shared_from_pointer Deleter_free v (Some p) len s, Inr ()))"

section \<open>Programs\<close>

text \<open>
  Everything a program can do with buffers of one deleter. A bare pointer may be given away once, by
  who owns it; \<open>Alloc_raw\<close> is an allocation that fits the deleter.
\<close>

datatype buffer_op =
    Make_unique bool nat u64 | New_unique nat | Unique_of_raw nat nat u64 | Move_unique nat nat
  | Move_assign_unique nat nat | Swap_unique nat nat | Release_unique nat | Reset_unique nat
  | Reset_unique_to nat nat u64 | Destroy_unique nat
  | Make_shared bool nat u64 | New_shared nat | Shared_of_raw nat nat u64 | Shared_of_unique nat nat
  | Copy_shared nat nat | Move_shared nat nat | Copy_assign_shared nat nat | Move_assign_shared nat nat
  | Swap_shared nat nat | Reset_shared nat | Reset_shared_to nat nat u64 | Destroy_shared nat
  | Alloc_raw nat | Free_raw nat

abbreviation (input) give :: "nat \<Rightarrow> store \<Rightarrow> store" where
  "give p s \<equiv> s\<lparr>raws := raws s - {p}\<rparr>"

definition take_raw :: "nat option \<times> store \<Rightarrow> store" where
  "take_raw = (\<lambda>(p, s). s\<lparr>raws := raws s \<union> set_option p\<rparr>)"

definition has_unique :: "store \<Rightarrow> nat \<Rightarrow> bool" where
  "has_unique s x \<longleftrightarrow> uniques s x \<noteq> None"

definition has_shared :: "store \<Rightarrow> nat \<Rightarrow> bool" where
  "has_shared s v \<longleftrightarrow> shareds s v \<noteq> None"

fun buffer_exec :: "deleter \<Rightarrow> u64 \<Rightarrow> buffer_op \<Rightarrow> store \<Rightarrow> store option" where
  "buffer_exec d sizeof (Make_unique ok x len) s =
     guarded (d = Deleter_free \<and> \<not> has_unique s x) (fst (make_unique_c_buffer sizeof ok x len s))"
| "buffer_exec d sizeof (New_unique x) s = guarded (\<not> has_unique s x) (unique_default x s)"
| "buffer_exec d sizeof (Unique_of_raw x p len) s =
     guarded (\<not> has_unique s x \<and> p \<in> raws s) (unique_from_pointer x (Some p) len (give p s))"
| "buffer_exec d sizeof (Move_unique x y) s =
     guarded (\<not> has_unique s x \<and> has_unique s y) (unique_move x y s)"
| "buffer_exec d sizeof (Move_assign_unique x y) s =
     guarded (has_unique s x \<and> has_unique s y) (unique_move_assign d x y s)"
| "buffer_exec d sizeof (Swap_unique x y) s =
     guarded (has_unique s x \<and> has_unique s y) (unique_swap x y s)"
| "buffer_exec d sizeof (Release_unique x) s = guarded (has_unique s x) (take_raw (unique_release x s))"
| "buffer_exec d sizeof (Reset_unique x) s = guarded (has_unique s x) (unique_reset d x s)"
| "buffer_exec d sizeof (Reset_unique_to x p len) s =
     guarded (has_unique s x \<and> p \<in> raws s) (unique_reset_to d x (Some p) len (give p s))"
| "buffer_exec d sizeof (Destroy_unique x) s = guarded (has_unique s x) (unique_destroy d x s)"
| "buffer_exec d sizeof (Make_shared ok v len) s =
     guarded (d = Deleter_free \<and> \<not> has_shared s v) (fst (make_shared_c_buffer sizeof ok v len s))"
| "buffer_exec d sizeof (New_shared v) s = guarded (\<not> has_shared s v) (shared_default v s)"
| "buffer_exec d sizeof (Shared_of_raw v p len) s =
     guarded (\<not> has_shared s v \<and> p \<in> raws s) (shared_from_pointer d v (Some p) len (give p s))"
| "buffer_exec d sizeof (Shared_of_unique v x) s =
     guarded (\<not> has_shared s v \<and> has_unique s x) (shared_from_unique d v x s)"
| "buffer_exec d sizeof (Copy_shared v w) s =
     guarded (\<not> has_shared s v \<and> has_shared s w) (shared_copy v w s)"
| "buffer_exec d sizeof (Move_shared v w) s =
     guarded (\<not> has_shared s v \<and> has_shared s w) (shared_move v w s)"
| "buffer_exec d sizeof (Copy_assign_shared v w) s =
     guarded (has_shared s v \<and> has_shared s w) (shared_copy_assign v w s)"
| "buffer_exec d sizeof (Move_assign_shared v w) s =
     guarded (has_shared s v \<and> has_shared s w) (shared_move_assign v w s)"
| "buffer_exec d sizeof (Swap_shared v w) s =
     guarded (has_shared s v \<and> has_shared s w) (shared_swap v w s)"
| "buffer_exec d sizeof (Reset_shared v) s = guarded (has_shared s v) (shared_reset v s)"
| "buffer_exec d sizeof (Reset_shared_to v p len) s =
     guarded (has_shared s v \<and> p \<in> raws s) (shared_reset_to v (Some p) len (give p s))"
| "buffer_exec d sizeof (Destroy_shared v) s = guarded (has_shared s v) (shared_destroy v s)"
| "buffer_exec d sizeof (Alloc_raw n) s =
     (case allocate (frees d) n s of (p, s) \<Rightarrow> Some (take_raw (Some p, s)))"
| "buffer_exec d sizeof (Free_raw p) s =
     guarded (p \<in> raws s) (deallocate (frees d) (Some p) (give p s))"

end
