(* ===== verification/Ownership.thy ===== *)
theory Ownership
  imports Buffers
begin

text \<open>
  Who owns a block of the heap of theory \<open>Buffers\<close>, and what every primitive step of a smart pointer does
  to that: taking a pointer out of a variable, putting one in, allocating and giving back, and creating,
  using and releasing a control block.
\<close>

section \<open>The invariant\<close>

text \<open>
  A block belongs to a \<open>unique_buffer\<close>, to a control block, or to the program. In the middle of an
  operation a pointer or a use of a control block may also be held by a local variable: \<open>held\<close> are the
  blocks that neither buffers nor control blocks own, and \<open>extra c\<close> the uses of \<open>c\<close> by locals.
\<close>

definition unique_block :: "store \<Rightarrow> nat \<Rightarrow> nat set" where
  "unique_block s x = (case uniques s x of None \<Rightarrow> {} | Some b \<Rightarrow> set_option (u_ptr b))"

definition control_block :: "store \<Rightarrow> nat \<Rightarrow> nat set" where
  "control_block s c = (case controls s c of None \<Rightarrow> {} | Some k \<Rightarrow> set_option (managed k))"

definition unique_blocks :: "store \<Rightarrow> nat set" where
  "unique_blocks s = (\<Union>x. unique_block s x)"

definition control_blocks :: "store \<Rightarrow> nat set" where
  "control_blocks s = (\<Union>c. control_block s c)"

definition owned_inv :: "nat set \<Rightarrow> store \<Rightarrow> bool" where
  "owned_inv held s \<longleftrightarrow>
     dom (live s) = unique_blocks s \<union> control_blocks s \<union> held \<and>
     unique_blocks s \<inter> control_blocks s = {} \<and> unique_blocks s \<inter> held = {} \<and> control_blocks s \<inter> held = {} \<and>
     (\<forall>x y. x \<noteq> y \<longrightarrow> unique_block s x \<inter> unique_block s y = {}) \<and>
     (\<forall>c e. c \<noteq> e \<longrightarrow> control_block s c \<inter> control_block s e = {}) \<and>
     (\<forall>p \<in> dom (live s). p < next_block s) \<and> faults s = []"

definition kinds_inv :: "deleter \<Rightarrow> store \<Rightarrow> bool" where
  "kinds_inv d s \<longleftrightarrow>
     (\<forall>p a n. live s p = Some (a, n) \<longrightarrow> a = frees d) \<and>
     (\<forall>c k p. controls s c = Some k \<and> managed k = Some p \<longrightarrow> with_deleter k = d)"

definition users :: "store \<Rightarrow> nat \<Rightarrow> nat set" where
  "users s c = {v. \<exists>b. shareds s v = Some b \<and> s_control b = Some c}"

definition points_to :: "store \<Rightarrow> nat option \<Rightarrow> nat option" where
  "points_to s c = Option.bind (Option.bind c (controls s)) managed"

definition uses_inv :: "(nat \<Rightarrow> nat) \<Rightarrow> store \<Rightarrow> bool" where
  "uses_inv extra s \<longleftrightarrow>
     finite (dom (shareds s)) \<and> (\<forall>c \<in> dom (controls s). c < next_control s) \<and>
     (\<forall>c. controls s c = None \<longrightarrow> users s c = {} \<and> extra c = 0) \<and>
     (\<forall>c k. controls s c = Some k \<longrightarrow> uses k = card (users s c) + extra c \<and> uses k \<noteq> 0) \<and>
     (\<forall>v b. shareds s v = Some b \<longrightarrow> s_ptr b = points_to s (s_control b))"

definition buffers_inv :: "deleter \<Rightarrow> nat set \<Rightarrow> (nat \<Rightarrow> nat) \<Rightarrow> store \<Rightarrow> bool" where
  "buffers_inv d held extra s \<longleftrightarrow> owned_inv held s \<and> kinds_inv d s \<and> uses_inv extra s"

definition bump :: "nat option \<Rightarrow> (nat \<Rightarrow> nat) \<Rightarrow> nat \<Rightarrow> nat" where
  "bump use extra c = extra c + (if use = Some c then 1 else 0)"

lemma bump_None [simp]: "bump None extra = extra"
  by (simp add: bump_def fun_eq_iff)

definition shared_control :: "store \<Rightarrow> nat \<Rightarrow> nat option" where
  "shared_control s v = (case shareds s v of None \<Rightarrow> None | Some b \<Rightarrow> s_control b)"

text \<open>Blocks after an update.\<close>

lemma unique_block_put [simp]:
  "unique_block (put_unique x b s) y = (if y = x then set_option (u_ptr b) else unique_block s y)"
  by (simp add: unique_block_def put_unique_def)

lemma Union_put:
  assumes "\<And>x y. x \<noteq> y \<Longrightarrow> f x \<inter> f y = {}"
  shows "(\<Union>y. if y = x then A else f y) = A \<union> ((\<Union>y. f y) - f x)"
proof -
  have "(\<Union>y. if y = x then A else f y) = A \<union> (\<Union>y \<in> - {x}. f y)" by auto
  also have "(\<Union>y \<in> - {x}. f y) = (\<Union>y. f y) - f x" using assms by blast
  finally show ?thesis .
qed

lemma uses_frame:
  assumes "shareds s' = shareds s" "controls s' = controls s" "next_control s' = next_control s"
  shows "uses_inv extra s' = uses_inv extra s"
proof -
  have "users s' = users s" "points_to s' = points_to s"
    by (simp_all add: users_def points_to_def fun_eq_iff assms)
  then show ?thesis by (simp add: uses_inv_def assms cong: option.case_cong)
qed

lemma uses_None: "uses_inv extra s \<Longrightarrow> controls s c = None \<Longrightarrow> users s c = {} \<and> extra c = 0"
  by (simp add: uses_inv_def)

lemma uses_Some:
  "uses_inv extra s \<Longrightarrow> controls s c = Some k \<Longrightarrow> uses k = card (users s c) + extra c \<and> uses k \<noteq> 0"
  unfolding uses_inv_def by blast

lemma uses_link: "uses_inv extra s \<Longrightarrow> shareds s v = Some b \<Longrightarrow> s_ptr b = points_to s (s_control b)"
  by (simp add: uses_inv_def)

lemma owned_frame:
  assumes "live s' = live s" "unique_block s' = unique_block s" "control_block s' = control_block s"
    "next_block s' = next_block s" "faults s' = faults s"
  shows "owned_inv held s' = owned_inv held s"
  by (simp add: owned_inv_def unique_blocks_def control_blocks_def assms)

lemma kinds_deleter: "kinds_inv d s \<Longrightarrow> controls s c = Some (Control n (Some p) d') \<Longrightarrow> d' = d"
  unfolding kinds_inv_def by (metis control.sel(2,3))

lemma kinds_upd_uses:
  assumes "kinds_inv d s" and "controls s c = Some (Control n p d')"
  shows "kinds_inv d (s\<lparr>controls := (controls s)(c \<mapsto> Control m p d')\<rparr>)"
  using assms unfolding kinds_inv_def by (cases p) (auto dest: kinds_deleter [OF assms(1)])

lemma kinds_frame:
  assumes "live s' = live s" "controls s' = controls s"
  shows "kinds_inv d s' = kinds_inv d s"
  by (simp add: kinds_inv_def assms)

lemma buffers_put_unique:
  assumes "buffers_inv d held extra s" and "set_option (u_ptr b) \<subseteq> held"
  shows "buffers_inv d (held - set_option (u_ptr b) \<union> unique_block s x) extra (put_unique x b s)"
proof -
  have o: "owned_inv held s" and k: "kinds_inv d s" and u: "uses_inv extra s"
    using assms(1) by (auto simp: buffers_inv_def)
  have disj: "\<And>x y. x \<noteq> y \<Longrightarrow> unique_block s x \<inter> unique_block s y = {}"
    and un: "unique_blocks s \<inter> held = {}"
    using o by (auto simp: owned_inv_def)
  have sub: "unique_block s y \<subseteq> unique_blocks s" for y by (auto simp: unique_blocks_def)
  have blocks: "unique_blocks (put_unique x b s) = set_option (u_ptr b) \<union> (unique_blocks s - unique_block s x)"
    unfolding unique_blocks_def unique_block_put by (rule Union_put [OF disj])
  have same: "control_block (put_unique x b s) = control_block s" "live (put_unique x b s) = live s"
    "next_block (put_unique x b s) = next_block s" "faults (put_unique x b s) = faults s"
    "controls (put_unique x b s) = controls s" "control_blocks (put_unique x b s) = control_blocks s"
    by (auto simp: put_unique_def control_block_def control_blocks_def)
  have "owned_inv (held - set_option (u_ptr b) \<union> unique_block s x) (put_unique x b s)"
    unfolding owned_inv_def blocks same
  proof (intro conjI)
    show "dom (live s) = set_option (u_ptr b) \<union> (unique_blocks s - unique_block s x) \<union> control_blocks s \<union>
        (held - set_option (u_ptr b) \<union> unique_block s x)"
      using o assms(2) sub [of x] by (auto simp: owned_inv_def)
    show "\<forall>y z. y \<noteq> z \<longrightarrow> unique_block (put_unique x b s) y \<inter> unique_block (put_unique x b s) z = {}"
      using disj un sub assms(2) by (auto; blast)
  qed (use o assms(2) sub [of x] in \<open>auto simp: owned_inv_def\<close>)
  moreover have "kinds_inv d (put_unique x b s)" using k by (subst kinds_frame) (simp_all add: same)
  moreover have "uses_inv extra (put_unique x b s)"
    using u by (subst uses_frame) (simp_all add: put_unique_def)
  ultimately show ?thesis by (simp add: buffers_inv_def)
qed

lemma buffers_del_unique:
  assumes "buffers_inv d held extra s"
  shows "buffers_inv d (held \<union> unique_block s x) extra (s\<lparr>uniques := (uniques s)(x := None)\<rparr>)"
proof -
  let ?s = "s\<lparr>uniques := (uniques s)(x := None)\<rparr>" and ?t = "put_unique x \<lparr>u_ptr = None, u_length = 0\<rparr> s"
  have "buffers_inv d (held \<union> unique_block s x) extra ?t"
    using buffers_put_unique [OF assms, of "\<lparr>u_ptr = None, u_length = 0\<rparr>" x] by simp
  moreover have "unique_block ?s = unique_block ?t" "control_block ?s = control_block ?t"
    by (auto simp: unique_block_def control_block_def put_unique_def fun_eq_iff)
  ultimately show ?thesis
    using owned_frame [of ?s ?t] kinds_frame [of ?s ?t] uses_frame [of ?s ?t]
    by (simp add: buffers_inv_def put_unique_def)
qed

lemma buffers_allocate:
  assumes "buffers_inv d held extra s" and "allocate (frees d) n s = (p, s')"
  shows "buffers_inv d (insert p held) extra s'"
    and "uniques s' = uniques s" and "shareds s' = shareds s" and "controls s' = controls s"
    and "live s' = (live s)(p \<mapsto> (frees d, n))" and "raws s' = raws s" and "p = next_block s"
proof -
  have s': "s' = s\<lparr>live := (live s)(p \<mapsto> (frees d, n)), next_block := Suc (next_block s)\<rparr>" "p = next_block s"
    using assms(2) by (auto simp: allocate_def)
  have blocks: "unique_block s' = unique_block s" "control_block s' = control_block s"
    "unique_blocks s' = unique_blocks s" "control_blocks s' = control_blocks s"
    by (auto simp: s' unique_block_def control_block_def unique_blocks_def control_blocks_def)
  have o: "owned_inv held s" and k: "kinds_inv d s" and u: "uses_inv extra s"
    using assms(1) by (auto simp: buffers_inv_def)
  have fresh: "p \<notin> dom (live s)" using o s'(2) by (auto simp: owned_inv_def)
  then have fresh': "p \<notin> unique_blocks s" "p \<notin> control_blocks s" "p \<notin> held"
    using o by (auto simp: owned_inv_def)
  have "owned_inv (insert p held) s'"
    unfolding owned_inv_def blocks using o fresh' by (auto simp: owned_inv_def s' less_Suc_eq)
  moreover have "kinds_inv d s'" using k by (auto simp: kinds_inv_def s'(1))
  moreover have "uses_inv extra s'" using u by (subst uses_frame) (simp_all add: s')
  ultimately show "buffers_inv d (insert p held) extra s'" by (simp add: buffers_inv_def)
qed (use assms(2) in \<open>auto simp: allocate_def\<close>)

lemma buffers_deallocate:
  assumes "buffers_inv d held extra s" and "set_option p \<subseteq> held"
  shows "buffers_inv d (held - set_option p) extra (deallocate (frees d) p s)"
proof (cases p)
  case None
  then show ?thesis using assms(1) by simp
next
  case (Some q)
  have o: "owned_inv held s" and k: "kinds_inv d s" and u: "uses_inv extra s"
    using assms(1) by (auto simp: buffers_inv_def)
  have q: "q \<in> dom (live s)" "q \<notin> unique_blocks s" "q \<notin> control_blocks s"
    using o assms(2) Some by (auto simp: owned_inv_def)
  then obtain n where n: "live s q = Some (frees d, n)" using k by (auto simp: kinds_inv_def)
  let ?s = "s\<lparr>live := (live s)(q := None)\<rparr>"
  have s': "deallocate (frees d) p s = ?s" using n Some by simp
  have blocks: "unique_block ?s = unique_block s" "control_block ?s = control_block s"
    "unique_blocks ?s = unique_blocks s" "control_blocks ?s = control_blocks s"
    by (auto simp: unique_block_def control_block_def unique_blocks_def control_blocks_def)
  have "owned_inv (held - {q}) ?s"
    unfolding owned_inv_def blocks using o q by (auto simp: owned_inv_def)
  moreover have "kinds_inv d ?s" using k by (auto simp: kinds_inv_def)
  moreover have "uses_inv extra ?s" using u by (subst uses_frame) simp_all
  ultimately show ?thesis using s' Some by (simp add: buffers_inv_def)
qed

text \<open>Shared pointers.\<close>

lemma buffers_new_control:
  assumes "buffers_inv d held extra s" and "set_option p \<subseteq> held"
    and "\<And>q. p = Some q \<Longrightarrow> d' = d" and "new_control p d' s = (c, s')"
  shows "buffers_inv d (held - set_option p) (bump (Some c) extra) s'"
    and "points_to s' (Some c) = p" and "uniques s' = uniques s" and "shareds s' = shareds s"
    and "live s' = live s" and "raws s' = raws s"
proof -
  have s': "s' = s\<lparr>controls := (controls s)(c \<mapsto> Control 1 p d'), next_control := Suc c\<rparr>" "c = next_control s"
    using assms(4) by (auto simp: new_control_def)
  have o: "owned_inv held s" and k: "kinds_inv d s" and u: "uses_inv extra s"
    using assms(1) by (auto simp: buffers_inv_def)
  have fresh: "controls s c = None" using u s'(2) by (fastforce simp: uses_inv_def)
  then have none: "users s c = {}" "extra c = 0" using uses_None [OF u] by auto
  have blocks: "unique_block s' = unique_block s"
      "control_block s' = (control_block s)(c := set_option p)"
    by (auto simp: s' unique_block_def control_block_def fun_eq_iff)
  have "control_block s c = {}" using fresh by (simp add: control_block_def)
  then have all: "control_blocks s' = set_option p \<union> control_blocks s" "unique_blocks s' = unique_blocks s"
    unfolding control_blocks_def unique_blocks_def blocks by auto
  have sub: "control_block s e \<subseteq> control_blocks s" for e by (auto simp: control_blocks_def)
  have "owned_inv (held - set_option p) s'"
    unfolding owned_inv_def all
  proof (intro conjI)
    show "\<forall>e f. e \<noteq> f \<longrightarrow> control_block s' e \<inter> control_block s' f = {}"
    proof (intro allI impI)
      fix e f :: nat
      assume ne: "e \<noteq> f"
      have hc: "control_blocks s \<inter> held = {}" using o by (simp add: owned_inv_def)
      have "set_option p \<inter> control_block s g = {}" for g
        using hc assms(2) sub [of g] by blast
      moreover have "control_block s e \<inter> control_block s f = {}"
        using o ne by (simp add: owned_inv_def)
      ultimately show "control_block s' e \<inter> control_block s' f = {}"
        using ne unfolding blocks by (cases "e = c"; cases "f = c") (auto simp: Int_commute)
    qed
    show "\<forall>e f. e \<noteq> f \<longrightarrow> unique_block s' e \<inter> unique_block s' f = {}"
      using o by (simp add: owned_inv_def blocks)
  qed (use o assms(2) in \<open>auto simp: owned_inv_def s'(1)\<close>)
  moreover have "kinds_inv d s'" using k assms(3) by (auto simp: kinds_inv_def s'(1))
  moreover have "uses_inv (bump (Some c) extra) s'"
  proof -
    have users: "users s' = users s" by (simp add: users_def fun_eq_iff s'(1))
    have link: "s_ptr b = points_to s' (s_control b)" if "shareds s v = Some b" for v b
      using none(1) that uses_link [OF u that]
      by (cases "s_control b") (auto simp: points_to_def s'(1) users_def)
    have con: "controls s' = (controls s)(c \<mapsto> Control 1 p d')" "shareds s' = shareds s" "next_control s' = Suc c"
      by (simp_all add: s'(1))
    show ?thesis unfolding uses_inv_def users con
    proof (intro conjI allI impI)
      show "finite (dom (shareds s))" using u by (simp add: uses_inv_def)
      show "\<forall>e \<in> dom ((controls s)(c \<mapsto> Control 1 p d')). e < Suc c"
        using u s'(2) by (auto simp: uses_inv_def less_Suc_eq)
      show "users s e = {}" "bump (Some c) extra e = 0" if "((controls s)(c \<mapsto> Control 1 p d')) e = None" for e
        using that uses_None [OF u, of e] by (auto simp: bump_def split: if_splits)
      show "uses k = card (users s e) + bump (Some c) extra e" "uses k \<noteq> 0"
        if "((controls s)(c \<mapsto> Control 1 p d')) e = Some k" for e k
        using that uses_Some [OF u, of e] none by (auto simp: bump_def split: if_splits)
      show "s_ptr b = points_to s' (s_control b)" if "shareds s v = Some b" for v b
        using link that .
    qed
  qed
  ultimately show "buffers_inv d (held - set_option p) (bump (Some c) extra) s'"
    by (simp add: buffers_inv_def)
  show "points_to s' (Some c) = p" by (simp add: points_to_def s'(1))
qed (use assms(4) in \<open>auto simp: new_control_def\<close>)

lemma users_put [simp]:
  "users (put_shared v b s) c = (if s_control b = Some c then insert v (users s c) else users s c - {v})"
  by (auto simp: users_def put_shared_def)

lemma users_finite: "uses_inv extra s \<Longrightarrow> finite (users s c)"
  by (rule finite_subset [of _ "dom (shareds s)"]) (auto simp: users_def uses_inv_def)

lemma user_iff: "v \<in> users s c \<longleftrightarrow> shared_control s v = Some c"
  by (auto simp: users_def shared_control_def split: option.splits)

text \<open>
  A local shared pointer becomes the variable \<open>v\<close>, and what \<open>v\<close> was becomes a local.
\<close>

lemma uses_put_shared:
  assumes "uses_inv (bump (s_control b) extra) s" and "s_ptr b = points_to s (s_control b)"
  shows "uses_inv (bump (shared_control s v) extra) (put_shared v b s)"
proof -
  let ?s = "put_shared v b s"
  have same: "controls ?s = controls s" "next_control ?s = next_control s" "points_to ?s = points_to s"
    "shareds ?s = (shareds s)(v \<mapsto> b)"
    by (auto simp: put_shared_def points_to_def fun_eq_iff)
  show ?thesis unfolding uses_inv_def same
  proof (intro conjI allI impI)
    show "finite (dom ((shareds s)(v \<mapsto> b)))" "\<forall>c \<in> dom (controls s). c < next_control s"
      using assms(1) by (simp_all add: uses_inv_def)
    show "users ?s c = {}" "bump (shared_control s v) extra c = 0" if "controls s c = None" for c
    proof -
      have u: "users s c = {}" "bump (s_control b) extra c = 0" using uses_None [OF assms(1) that] by auto
      then have "s_control b \<noteq> Some c" "extra c = 0" by (auto simp: bump_def)
      moreover have "shared_control s v \<noteq> Some c" using u(1) user_iff [of v s c] by auto
      ultimately show "users ?s c = {}" "bump (shared_control s v) extra c = 0"
        using u(1) by (simp_all add: bump_def)
    qed
    show "uses k = card (users ?s c) + bump (shared_control s v) extra c" "uses k \<noteq> 0"
      if "controls s c = Some k" for c k
    proof -
      have u: "uses k = card (users s c) + bump (s_control b) extra c" "uses k \<noteq> 0"
        using uses_Some [OF assms(1) that] by auto
      show "uses k \<noteq> 0" by (rule u(2))
      have fin: "finite (users s c)" by (rule users_finite [OF assms(1)])
      have "card (users ?s c) + (if shared_control s v = Some c then 1 else 0) =
          card (users s c) + (if s_control b = Some c then 1 else 0)"
        using fin user_iff [of v s c] card_Suc_Diff1 [OF fin, of v]
        by (auto simp: card_insert_if insert_absorb)
      then show "uses k = card (users ?s c) + bump (shared_control s v) extra c"
        using u(1) by (simp add: bump_def)
    qed
    show "s_ptr e = points_to s (s_control e)" if "((shareds s)(v \<mapsto> b)) w = Some e" for w e
      using that assms(2) uses_link [OF assms(1), of w] by (auto split: if_splits)
  qed
qed

lemma buffers_put_shared:
  assumes "buffers_inv d held (bump (s_control b) extra) s" and "s_ptr b = points_to s (s_control b)"
  shows "buffers_inv d held (bump (shared_control s v) extra) (put_shared v b s)"
proof -
  have "unique_block (put_shared v b s) = unique_block s" "control_block (put_shared v b s) = control_block s"
    by (auto simp: unique_block_def control_block_def put_shared_def fun_eq_iff)
  then have "owned_inv held (put_shared v b s) = owned_inv held s"
    "kinds_inv d (put_shared v b s) = kinds_inv d s"
    by (subst owned_frame kinds_frame; simp add: put_shared_def)+
  then show ?thesis using assms uses_put_shared by (simp add: buffers_inv_def)
qed

lemma buffers_del_shared:
  assumes "buffers_inv d held extra s"
  shows "buffers_inv d held (bump (shared_control s v) extra) (s\<lparr>shareds := (shareds s)(v := None)\<rparr>)"
proof -
  let ?b = "\<lparr>s_ptr = None, s_control = None, s_length = 0\<rparr>"
  let ?t = "put_shared v ?b s" and ?s = "s\<lparr>shareds := (shareds s)(v := None)\<rparr>"
  have t: "buffers_inv d held (bump (shared_control s v) extra) ?t"
    using buffers_put_shared [of d held ?b extra s v] assms by (simp add: points_to_def)
  have users: "users ?s = users ?t" by (auto simp: users_def put_shared_def fun_eq_iff)
  have same: "controls ?s = controls ?t" "next_control ?s = next_control ?t" "points_to ?s = points_to ?t"
    "unique_block ?s = unique_block ?t" "control_block ?s = control_block ?t" "live ?s = live ?t"
    "next_block ?s = next_block ?t" "faults ?s = faults ?t"
    by (auto simp: put_shared_def points_to_def unique_block_def control_block_def fun_eq_iff)
  have "uses_inv (bump (shared_control s v) extra) ?s"
  proof -
    have u: "uses_inv (bump (shared_control s v) extra) ?t" using t by (simp add: buffers_inv_def)
    have "finite (dom (shareds ?s))" "\<And>w b. shareds ?s w = Some b \<Longrightarrow> shareds ?t w = Some b"
      using u by (auto simp: uses_inv_def put_shared_def split: if_splits)
    then show ?thesis using u unfolding uses_inv_def users same by blast
  qed
  then show ?thesis
    using t owned_frame [of ?s ?t] kinds_frame [of ?s ?t] same by (simp add: buffers_inv_def)
qed

lemma uses_upd_uses:
  assumes "uses_inv extra s" and "controls s c = Some (Control n p d')"
    and "m + extra c = n + extra' c" and "m \<noteq> 0" and "\<And>e. e \<noteq> c \<Longrightarrow> extra' e = extra e"
  shows "uses_inv extra' (s\<lparr>controls := (controls s)(c \<mapsto> Control m p d')\<rparr>)"
    and "points_to (s\<lparr>controls := (controls s)(c \<mapsto> Control m p d')\<rparr>) = points_to s"
proof -
  let ?c = "(controls s)(c \<mapsto> Control m p d')"
  let ?s = "s\<lparr>controls := ?c\<rparr>"
  have same: "users ?s = users s" "controls ?s = ?c" "shareds ?s = shareds s" "next_control ?s = next_control s"
    by (simp_all add: users_def fun_eq_iff)
  show pt: "points_to ?s = points_to s"
  proof
    show "points_to ?s e = points_to s e" for e using assms(2) by (cases e) (simp_all add: points_to_def)
  qed
  show "uses_inv extra' ?s"
    unfolding uses_inv_def same pt
  proof (intro conjI allI impI)
    show "finite (dom (shareds s))" using assms(1) by (simp add: uses_inv_def)
    show "\<forall>e \<in> dom ?c. e < next_control s" using assms(1,2) by (auto simp: uses_inv_def)
    show "users s e = {}" "extra' e = 0" if "?c e = None" for e
      using that uses_None [OF assms(1), of e] assms(5) [of e] by (auto split: if_splits)
    show "uses k = card (users s e) + extra' e" "uses k \<noteq> 0" if "?c e = Some k" for e k
    proof -
      have "uses k = card (users s e) + extra' e \<and> uses k \<noteq> 0"
      proof (cases "e = c")
        case True
        then show ?thesis using that uses_Some [OF assms(1,2)] assms(3,4) by auto
      next
        case False
        then show ?thesis using that uses_Some [OF assms(1), of e k] assms(5) [OF False] by auto
      qed
      then show "uses k = card (users s e) + extra' e" "uses k \<noteq> 0" by auto
    qed
    show "s_ptr b = points_to s (s_control b)" if "shareds s v = Some b" for v b
      by (rule uses_link [OF assms(1) that])
  qed
qed

lemma buffers_add_use:
  assumes "buffers_inv d held extra s" and "\<And>e. c = Some e \<Longrightarrow> controls s e \<noteq> None"
  shows "buffers_inv d held (bump c extra) (add_use c s)"
    and "points_to (add_use c s) = points_to s" and "shareds (add_use c s) = shareds s"
    and "uniques (add_use c s) = uniques s" and "live (add_use c s) = live s" and "raws (add_use c s) = raws s"
proof -
  have "buffers_inv d held (bump c extra) (add_use c s) \<and> points_to (add_use c s) = points_to s \<and>
    shareds (add_use c s) = shareds s \<and> uniques (add_use c s) = uniques s \<and> live (add_use c s) = live s \<and>
    raws (add_use c s) = raws s"
  proof (cases c)
    case None
    then show ?thesis using assms(1) by simp
  next
    case (Some e)
    then obtain k0 where "controls s e = Some k0" using assms(2) by blast
    then obtain n p d' where k: "controls s e = Some (Control n p d')" by (cases k0) simp
    let ?s = "s\<lparr>controls := (controls s)(e \<mapsto> Control (Suc n) p d')\<rparr>"
    have s': "add_use c s = ?s" using k Some by simp
    have blocks: "unique_block ?s = unique_block s" "control_block ?s = control_block s"
      "users ?s = users s"
      using k by (simp_all add: unique_block_def control_block_def users_def fun_eq_iff)
    have o: "owned_inv held s" and kd: "kinds_inv d s" and u: "uses_inv extra s"
      using assms(1) by (auto simp: buffers_inv_def)
    have "owned_inv held ?s = owned_inv held s" by (rule owned_frame) (rule blocks | simp)+
    then have "owned_inv held ?s" using o by simp
    moreover have "kinds_inv d ?s" using kd k by (rule kinds_upd_uses)
    moreover have "uses_inv (bump c extra) ?s"
      by (rule uses_upd_uses(1) [OF u k]) (simp_all add: Some bump_def)
    moreover have "points_to ?s = points_to s"
      by (rule uses_upd_uses(2) [OF u k, of "Suc n" "bump c extra"]) (simp_all add: Some bump_def)
    ultimately show ?thesis using s' by (simp add: buffers_inv_def)
  qed
  then show "buffers_inv d held (bump c extra) (add_use c s)" "points_to (add_use c s) = points_to s"
    "shareds (add_use c s) = shareds s" "uniques (add_use c s) = uniques s"
    "live (add_use c s) = live s" "raws (add_use c s) = raws s"
    by blast+
qed

lemma buffers_del_control:
  assumes "buffers_inv d held (bump (Some c) extra) s" and "controls s c = Some (Control 1 p d')"
  shows "buffers_inv d (held \<union> set_option p) extra (s\<lparr>controls := (controls s)(c := None)\<rparr>)"
    and "set_option p \<inter> held = {}"
proof -
  let ?s = "s\<lparr>controls := (controls s)(c := None)\<rparr>"
  have o: "owned_inv held s" and k: "kinds_inv d s" and u: "uses_inv (bump (Some c) extra) s"
    using assms(1) by (auto simp: buffers_inv_def)
  have none: "users s c = {}" "extra c = 0"
    using uses_Some [OF u assms(2)] users_finite [OF u, of c] by (auto simp: bump_def)
  have block: "control_block s c = set_option p" by (simp add: control_block_def assms(2))
  have blocks: "unique_block ?s = unique_block s" "control_block ?s = (control_block s)(c := {})"
    "unique_blocks ?s = unique_blocks s"
    by (auto simp: unique_block_def unique_blocks_def control_block_def fun_eq_iff)
  have disj: "\<And>e f. e \<noteq> f \<Longrightarrow> control_block s e \<inter> control_block s f = {}"
    using o by (simp add: owned_inv_def)
  have all: "control_blocks ?s = control_blocks s - set_option p"
  proof -
    have "control_blocks ?s = (\<Union>e. if e = c then {} else control_block s e)"
      unfolding control_blocks_def blocks by (simp add: fun_upd_def)
    then show ?thesis using Union_put [of "control_block s", OF disj, of c "{}"] block
      by (simp add: control_blocks_def)
  qed
  have sub: "set_option p \<subseteq> control_blocks s" using block by (auto simp: control_blocks_def)
  show "set_option p \<inter> held = {}" using sub o by (auto simp: owned_inv_def)
  have "owned_inv (held \<union> set_option p) ?s"
    unfolding owned_inv_def all blocks
  proof (intro conjI)
    show "\<forall>e f. e \<noteq> f \<longrightarrow> ((control_block s)(c := {})) e \<inter> ((control_block s)(c := {})) f = {}"
      using disj by simp
  qed (use o sub in \<open>auto simp: owned_inv_def\<close>)
  moreover have "kinds_inv d ?s" using k by (auto simp: kinds_inv_def)
  moreover have "uses_inv extra ?s"
  proof -
    have users: "users ?s = users s" by (simp add: users_def fun_eq_iff)
    have link: "s_ptr b = points_to ?s (s_control b)" if "shareds s v = Some b" for v b
    proof -
      have "s_control b \<noteq> Some c" using none(1) that by (auto simp: users_def)
      then show ?thesis using uses_link [OF u that] by (cases "s_control b") (simp_all add: points_to_def)
    qed
    have con: "controls ?s = (controls s)(c := None)" "shareds ?s = shareds s" "next_control ?s = next_control s"
      by simp_all
    show ?thesis unfolding uses_inv_def users con
    proof (intro conjI allI impI)
      show "finite (dom (shareds s))" "\<forall>e \<in> dom ((controls s)(c := None)). e < next_control s"
        using u by (auto simp: uses_inv_def)
      show "users s e = {}" "extra e = 0" if "((controls s)(c := None)) e = None" for e
        using that none uses_None [OF u, of e] by (auto simp: bump_def split: if_splits)
      show "uses k = card (users s e) + extra e" "uses k \<noteq> 0" if "((controls s)(c := None)) e = Some k" for e k
        using that uses_Some [OF u, of e k] by (auto simp: bump_def split: if_splits)
      show "s_ptr b = points_to ?s (s_control b)" if "shareds s v = Some b" for v b by (rule link [OF that])
    qed
  qed
  ultimately show "buffers_inv d (held \<union> set_option p) extra ?s" by (simp add: buffers_inv_def)
qed

lemma buffers_release_use:
  assumes "buffers_inv d held (bump c extra) s"
  shows "buffers_inv d held extra (release_use c s)"
proof (cases c)
  case None
  then show ?thesis using assms by simp
next
  case (Some e)
  have o: "owned_inv held s" and kd: "kinds_inv d s" and u: "uses_inv (bump c extra) s"
    using assms by (auto simp: buffers_inv_def)
  have "controls s e \<noteq> None" using uses_None [OF u, of e] Some by (auto simp: bump_def)
  then obtain k0 where "controls s e = Some k0" by blast
  then obtain n p d' where k: "controls s e = Some (Control n p d')" by (cases k0) simp
  show ?thesis
  proof (cases "n = 1")
    case True
    let ?s = "s\<lparr>controls := (controls s)(e := None)\<rparr>"
    have "buffers_inv d (held \<union> set_option p) extra ?s" and disj: "set_option p \<inter> held = {}"
      using buffers_del_control [of d held e extra s p d'] assms k True Some by auto
    then have "buffers_inv d (held \<union> set_option p - set_option p) extra (deallocate (frees d) p ?s)"
      by (intro buffers_deallocate) auto
    moreover have "held \<union> set_option p - set_option p = held" using disj by auto
    moreover have "deallocate (frees d') p ?s = deallocate (frees d) p ?s"
      using kinds_deleter [OF kd] k by (cases p) auto
    ultimately show ?thesis using k True Some by simp
  next
    case False
    let ?s = "s\<lparr>controls := (controls s)(e \<mapsto> Control (n - 1) p d')\<rparr>"
    have s': "release_use c s = ?s" using k Some False by simp
    have blocks: "unique_block ?s = unique_block s" "control_block ?s = control_block s" "users ?s = users s"
      using k by (simp_all add: unique_block_def control_block_def users_def fun_eq_iff)
    have "owned_inv held ?s = owned_inv held s" by (rule owned_frame) (rule blocks | simp)+
    then have "owned_inv held ?s" using o by simp
    moreover have "kinds_inv d ?s" using kd k by (rule kinds_upd_uses)
    moreover have "uses_inv extra ?s"
      using uses_Some [OF u k] False by (intro uses_upd_uses [OF u k]) (auto simp: Some bump_def)
    ultimately show ?thesis using s' by (simp add: buffers_inv_def)
  qed
qed

end
