(* ===== verification/BufferPrograms.thy ===== *)
theory BufferPrograms
  imports Ownership
begin

text \<open>
  What holds of every program that uses the buffers of \<open>common/include/sg/buffer.h\<close>: no block is given
  back twice, to the wrong deallocator or while somebody still owns it, and none is lost.
\<close>

section \<open>Every operation keeps the ownership\<close>

lemma unique_block_of: "has_unique s x \<Longrightarrow> unique_block s x = set_option (u_ptr (unique s x))"
  by (auto simp: has_unique_def unique_block_def)

lemma unique_block_none: "\<not> has_unique s x \<Longrightarrow> unique_block s x = {}"
  by (auto simp: has_unique_def unique_block_def)

lemma shared_control_of: "has_shared s v \<Longrightarrow> shared_control s v = s_control (shared s v)"
  by (auto simp: has_shared_def shared_control_def)

lemma shared_control_none: "\<not> has_shared s v \<Longrightarrow> shared_control s v = None"
  by (auto simp: has_shared_def shared_control_def)

lemma owned_disjoint:
  assumes "buffers_inv d held extra s"
  shows "unique_block s x \<inter> held = {}"
  using assms unfolding buffers_inv_def owned_inv_def unique_blocks_def by blast

lemma keeps_unique_from_pointer:
  assumes "buffers_inv d held extra s" and "\<not> has_unique s x" and "set_option p \<subseteq> held"
  shows "buffers_inv d (held - set_option p) extra (unique_from_pointer x p len s)"
  using buffers_put_unique [OF assms(1), of "\<lparr>u_ptr = p, u_length = len\<rparr>" x] assms(2,3)
  by (simp add: unique_from_pointer_def unique_block_none)

lemma keeps_unique_release:
  assumes "buffers_inv d held extra s" and "has_unique s x" and "unique_release x s = (p, s')"
  shows "buffers_inv d (held \<union> set_option p) extra s'" and "set_option p \<inter> held = {}"
  using buffers_put_unique [OF assms(1), of "(unique s x)\<lparr>u_ptr := None\<rparr>" x] assms(3)
    unique_block_of [OF assms(2)] owned_disjoint [OF assms(1), of x]
  by (auto simp: unique_release_def Let_def)

text \<open>A local pointer becomes the variable \<open>x\<close>, and the block that \<open>x\<close> had is given back.\<close>

lemma keeps_unique_replace:
  assumes "buffers_inv d held extra s" and "set_option (u_ptr b) \<subseteq> held"
  shows "buffers_inv d (held - set_option (u_ptr b)) extra
    (deallocate (frees d) (case uniques s x of None \<Rightarrow> None | Some a \<Rightarrow> u_ptr a) (put_unique x b s))"
proof -
  let ?old = "case uniques s x of None \<Rightarrow> None | Some a \<Rightarrow> u_ptr a"
  have old: "unique_block s x = set_option ?old" by (simp add: unique_block_def split: option.splits)
  have "buffers_inv d (held - set_option (u_ptr b) \<union> set_option ?old) extra (put_unique x b s)"
    using buffers_put_unique [OF assms, of x] unfolding old .
  then have "buffers_inv d (held - set_option (u_ptr b) \<union> set_option ?old - set_option ?old) extra
      (deallocate (frees d) ?old (put_unique x b s))"
    by (rule buffers_deallocate) auto
  moreover have "held - set_option (u_ptr b) \<union> set_option ?old - set_option ?old = held - set_option (u_ptr b)"
    using owned_disjoint [OF assms(1), of x] old by auto
  ultimately show ?thesis by simp
qed

lemma keeps_unique_move:
  assumes "buffers_inv d held extra s" and "\<not> has_unique s x" and "has_unique s y"
  shows "buffers_inv d held extra (unique_move x y s)"
proof -
  obtain p s' where r: "unique_release y s = (p, s')" by fastforce
  have p: "p = u_ptr (unique s y)" "s' = put_unique y ((unique s y)\<lparr>u_ptr := None\<rparr>) s"
    using r by (auto simp: unique_release_def Let_def)
  have ne: "x \<noteq> y" using assms(2,3) by auto
  note k = keeps_unique_release [OF assms(1,3) r]
  have "unique_block s' x = {}" using p ne unique_block_none [OF assms(2)] by simp
  then have "buffers_inv d (held \<union> set_option p - set_option p) extra (put_unique x (unique s y) s')"
    using buffers_put_unique [OF k(1), of "unique s y" x] p by simp
  moreover have "held \<union> set_option p - set_option p = held" using k(2) by auto
  ultimately show ?thesis using p by (simp add: unique_move_def Let_def)
qed

lemma keeps_unique_move_assign:
  assumes "buffers_inv d held extra s" and "has_unique s x" and "has_unique s y"
  shows "buffers_inv d held extra (unique_move_assign d x y s)"
proof -
  obtain p s' where r: "unique_release y s = (p, s')" by fastforce
  have p: "p = u_ptr (unique s y)" "s' = put_unique y ((unique s y)\<lparr>u_ptr := None\<rparr>) s"
    using r by (auto simp: unique_release_def Let_def)
  note k = keeps_unique_release [OF assms(1,3) r]
  have "(case uniques s' x of None \<Rightarrow> None | Some a \<Rightarrow> u_ptr a) = u_ptr (unique s' x)"
    using assms(2) p by (auto simp: has_unique_def put_unique_def split: option.splits)
  then have "buffers_inv d (held \<union> set_option p - set_option p) extra
      (deallocate (frees d) (u_ptr (unique s' x)) (put_unique x (unique s y) s'))"
    using keeps_unique_replace [OF k(1), of "unique s y" x] p by simp
  moreover have "held \<union> set_option p - set_option p = held" using k(2) by auto
  ultimately show ?thesis using p by (simp add: unique_move_assign_def Let_def)
qed

lemma keeps_unique_swap:
  assumes "buffers_inv d held extra s" and "has_unique s x" and "has_unique s y"
  shows "buffers_inv d held extra (unique_swap x y s)"
proof (cases "x = y")
  case True
  then have "unique_swap x y s = put_unique x (unique s x) (put_unique x (unique s x) s)"
    by (simp add: unique_swap_def Let_def)
  also have "\<dots> = s" using assms(2) by (auto simp: put_unique_def has_unique_def fun_upd_idem)
  finally show ?thesis using assms(1) by simp
next
  case False
  obtain p s1 where r: "unique_release x s = (p, s1)" by fastforce
  have p: "p = u_ptr (unique s x)" "s1 = put_unique x ((unique s x)\<lparr>u_ptr := None\<rparr>) s"
    using r by (auto simp: unique_release_def Let_def)
  note k = keeps_unique_release [OF assms(1,2) r]
  have y: "has_unique s1 y" "unique s1 y = unique s y"
    using assms(3) p False by (auto simp: has_unique_def put_unique_def)
  have yx: "unique_block s1 x = {}" using p by simp
  obtain q s2 where r2: "unique_release y s1 = (q, s2)" by fastforce
  have q: "q = u_ptr (unique s y)" "s2 = put_unique y ((unique s y)\<lparr>u_ptr := None\<rparr>) s1"
    using r2 y by (auto simp: unique_release_def Let_def)
  note k2 = keeps_unique_release [OF k(1) y(1) r2]
  have none: "unique_block s2 x = {}" "unique_block s2 y = {}" using q yx False by auto
  have "buffers_inv d (held \<union> set_option p \<union> set_option q - set_option q) extra (put_unique x (unique s y) s2)"
    using buffers_put_unique [OF k2(1), of "unique s y" x] q none by simp
  moreover have "held \<union> set_option p \<union> set_option q - set_option q = held \<union> set_option p" using k2(2) by auto
  ultimately have "buffers_inv d (held \<union> set_option p) extra (put_unique x (unique s y) s2)" by simp
  moreover have "unique_block (put_unique x (unique s y) s2) y = {}" using none False by simp
  ultimately have "buffers_inv d (held \<union> set_option p - set_option p) extra
      (put_unique y (unique s x) (put_unique x (unique s y) s2))"
    using buffers_put_unique [of d "held \<union> set_option p" extra "put_unique x (unique s y) s2" "unique s x" y]
    by (simp add: p(1))
  moreover have "held \<union> set_option p - set_option p = held" using k(2) by auto
  moreover have "put_unique y (unique s x) (put_unique x (unique s y) s2) = unique_swap x y s"
    using False by (simp add: p q put_unique_def unique_swap_def Let_def fun_upd_twist)
  ultimately show ?thesis by simp
qed

text \<open>A length has no part in this.\<close>

lemma keeps_unique_length:
  assumes "buffers_inv d held extra s" and "uniques s x = Some b" and "u_ptr b' = u_ptr b"
  shows "buffers_inv d held extra (put_unique x b' s)"
proof -
  have "unique_block (put_unique x b' s) = unique_block s" "control_block (put_unique x b' s) = control_block s"
    using assms(2,3) by (auto simp: fun_eq_iff unique_block_def control_block_def put_unique_def)
  then have "owned_inv held (put_unique x b' s) = owned_inv held s"
    "kinds_inv d (put_unique x b' s) = kinds_inv d s" "uses_inv extra (put_unique x b' s) = uses_inv extra s"
    by (intro owned_frame kinds_frame uses_frame; simp add: put_unique_def)+
  then show ?thesis using assms(1) by (simp add: buffers_inv_def)
qed

lemma keeps_unique_reset_to:
  assumes "buffers_inv d held extra s" and "has_unique s x" and "set_option p \<subseteq> held"
  shows "buffers_inv d (held - set_option p) extra (unique_reset_to d x p len s)"
proof -
  let ?b = "(unique s x)\<lparr>u_ptr := p\<rparr>"
  have old: "(case uniques s x of None \<Rightarrow> None | Some a \<Rightarrow> u_ptr a) = u_ptr (unique s x)"
    using assms(2) by (auto simp: has_unique_def)
  let ?s = "deallocate (frees d) (u_ptr (unique s x)) (put_unique x ?b s)"
  have k: "buffers_inv d (held - set_option p) extra ?s"
    using keeps_unique_replace [OF assms(1), of ?b x] assms(3) old by simp
  have b: "unique_block ?s x = set_option p"
    by (cases "u_ptr (unique s x)") (auto simp: unique_block_def put_unique_def split: option.splits)
  have u: "uniques ?s x = Some ?b"
    by (cases "u_ptr (unique s x)") (auto simp: put_unique_def split: option.splits)
  show ?thesis
    using keeps_unique_length [OF k u] by (simp add: unique_reset_to_def Let_def)
qed

lemma keeps_unique_destroy:
  assumes "buffers_inv d held extra s" and "has_unique s x"
  shows "buffers_inv d held extra (unique_destroy d x s)"
proof -
  let ?p = "u_ptr (unique s x)"
  have "buffers_inv d (held \<union> set_option ?p - set_option ?p) extra (unique_destroy d x s)"
    unfolding unique_destroy_def
    using buffers_del_unique [OF assms(1), of x] unique_block_of [OF assms(2)]
    by (intro buffers_deallocate) auto
  moreover have "held \<union> set_option ?p - set_option ?p = held"
    using owned_disjoint [OF assms(1), of x] unique_block_of [OF assms(2)] by auto
  ultimately show ?thesis by simp
qed

section \<open>Shared buffers\<close>

lemma shared_link:
  assumes "buffers_inv d held extra s" and "has_shared s v"
  shows "s_ptr (shared s v) = points_to s (s_control (shared s v))"
proof -
  have "uses_inv extra s" using assms(1) by (simp add: buffers_inv_def)
  then show ?thesis using assms(2) uses_link [of extra s v] by (auto simp: has_shared_def)
qed

lemma control_exists:
  assumes "buffers_inv d held extra s" and "has_shared s v" and "s_control (shared s v) = Some c"
  shows "controls s c \<noteq> None"
proof
  assume none: "controls s c = None"
  have "users s c = {}" using uses_None [OF _ none] assms(1) by (auto simp: buffers_inv_def)
  moreover have "v \<in> users s c" using assms(2,3) by (auto simp: users_def has_shared_def)
  ultimately show False by blast
qed

lemma points_to_put [simp]:
  "points_to (put_shared v b s) = points_to s" "points_to (put_unique x a s) = points_to s"
  by (simp_all add: points_to_def put_shared_def put_unique_def fun_eq_iff)

lemma keeps_shared_default:
  assumes "buffers_inv d held extra s" and "\<not> has_shared s v"
  shows "buffers_inv d held extra (shared_default v s)"
  using buffers_put_shared [of d held "\<lparr>s_ptr = None, s_control = None, s_length = 0\<rparr>" extra s v] assms
  by (simp add: shared_default_def points_to_def shared_control_none)

lemma keeps_shared_from_pointer:
  assumes "buffers_inv d held extra s" and "\<not> has_shared s v" and "set_option p \<subseteq> held"
  shows "buffers_inv d (held - set_option p) extra (shared_from_pointer d v p len s)"
proof -
  obtain c s' where n: "new_control p d s = (c, s')" by fastforce
  note k = buffers_new_control [OF assms(1,3) refl n]
  have "shared_control s' v = None" using k(4) assms(2) by (simp add: shared_control_def has_shared_def)
  then show ?thesis
    using buffers_put_shared [of d _ "\<lparr>s_ptr = p, s_control = Some c, s_length = len\<rparr>" extra s' v] k(1,2)
    by (simp add: shared_from_pointer_def n)
qed

lemma keeps_shared_from_unique:
  assumes "buffers_inv d held extra s" and "\<not> has_shared s v" and "has_unique s x"
  shows "buffers_inv d held extra (shared_from_unique d v x s)"
proof -
  obtain p s' where r: "unique_release x s = (p, s')" by fastforce
  note k = keeps_unique_release [OF assms(1,3) r]
  have "\<not> has_shared s' v"
    using assms(2) r by (auto simp: unique_release_def Let_def has_shared_def put_unique_def)
  from keeps_shared_from_pointer [OF k(1) this, of p]
  have "buffers_inv d (held \<union> set_option p - set_option p) extra (shared_from_unique d v x s)"
    by (simp add: shared_from_unique_def r)
  moreover have "held \<union> set_option p - set_option p = held" using k(2) by auto
  ultimately show ?thesis by simp
qed

lemma keeps_shared_copy:
  assumes "buffers_inv d held extra s" and "\<not> has_shared s v" and "has_shared s w"
  shows "buffers_inv d held extra (shared_copy v w s)"
proof -
  let ?b = "shared s w"
  note k = buffers_add_use [OF assms(1), of "s_control ?b", OF control_exists [OF assms(1,3)]]
  have "shared_control (add_use (s_control ?b) s) v = None"
    using k(3) assms(2) by (simp add: shared_control_def has_shared_def)
  then show ?thesis
    using buffers_put_shared [OF k(1), of v] k(2) shared_link [OF assms(1,3)]
    by (simp add: shared_copy_def Let_def)
qed

text \<open>Taking the value of a shared variable: it becomes a local, the variable is empty.\<close>

lemma take_shared:
  assumes "buffers_inv d held extra s" and "has_shared s w"
  shows "buffers_inv d held (bump (s_control (shared s w)) extra)
    (put_shared w ((shared s w)\<lparr>s_ptr := None, s_control := None\<rparr>) s)"
  using buffers_put_shared [of d held "(shared s w)\<lparr>s_ptr := None, s_control := None\<rparr>" extra s w] assms
  by (simp add: points_to_def shared_control_of)

lemma keeps_shared_move:
  assumes "buffers_inv d held extra s" and "\<not> has_shared s v" and "has_shared s w"
  shows "buffers_inv d held extra (shared_move v w s)"
proof -
  let ?s = "put_shared w ((shared s w)\<lparr>s_ptr := None, s_control := None\<rparr>) s"
  have "v \<noteq> w" using assms(2,3) by auto
  then have "shared_control ?s v = None"
    using assms(2) by (simp add: shared_control_def put_shared_def has_shared_def)
  then show ?thesis
    using buffers_put_shared [OF take_shared [OF assms(1,3)], of v] shared_link [OF assms(1,3)]
    by (simp add: shared_move_def Let_def)
qed

lemma keeps_shared_replace:
  assumes "buffers_inv d held (bump (s_control b) extra) s" and "s_ptr b = points_to s (s_control b)"
    and "has_shared s v"
  shows "buffers_inv d held extra (release_use (s_control (shared s v)) (put_shared v b s))"
  using buffers_release_use [OF buffers_put_shared [OF assms(1,2), of v]] shared_control_of [OF assms(3)]
  by simp

lemma keeps_shared_move_assign:
  assumes "buffers_inv d held extra s" and "has_shared s v" and "has_shared s w"
  shows "buffers_inv d held extra (shared_move_assign v w s)"
proof -
  let ?s = "put_shared w ((shared s w)\<lparr>s_ptr := None, s_control := None\<rparr>) s"
  have "has_shared ?s v" using assms(2) by (auto simp: has_shared_def put_shared_def)
  then show ?thesis
    using keeps_shared_replace [OF take_shared [OF assms(1,3)]] shared_link [OF assms(1,3)]
    by (simp add: shared_move_assign_def Let_def)
qed

lemma keeps_shared_copy_assign:
  assumes "buffers_inv d held extra s" and "has_shared s v" and "has_shared s w"
  shows "buffers_inv d held extra (shared_copy_assign v w s)"
proof -
  let ?b = "shared s w"
  note k = buffers_add_use [OF assms(1), of "s_control ?b", OF control_exists [OF assms(1,3)]]
  have "has_shared (add_use (s_control ?b) s) v" using k(3) assms(2) by (simp add: has_shared_def)
  then show ?thesis
    using keeps_shared_replace [OF k(1)] k(2) shared_link [OF assms(1,3)]
    by (simp add: shared_copy_assign_def Let_def)
qed

lemma keeps_shared_swap:
  assumes "buffers_inv d held extra s" and "has_shared s v" and "has_shared s w"
  shows "buffers_inv d held extra (shared_swap v w s)"
proof (cases "v = w")
  case True
  then have "shared_swap v w s = put_shared v (shared s v) (put_shared v (shared s v) s)"
    by (simp add: shared_swap_def Let_def)
  also have "\<dots> = s" using assms(2) by (auto simp: put_shared_def has_shared_def fun_upd_idem)
  finally show ?thesis using assms(1) by simp
next
  case False
  let ?a = "shared s v" and ?b = "shared s w"
  let ?s = "put_shared v (?a\<lparr>s_ptr := None, s_control := None\<rparr>) s"
  have c: "shared_control ?s w = s_control ?b" "shared_control (put_shared w ?a ?s) v = None"
    using False assms(3) by (auto simp: shared_control_def put_shared_def has_shared_def)
  have "buffers_inv d held (bump (s_control ?b) extra) (put_shared w ?a ?s)"
    using buffers_put_shared [OF take_shared [OF assms(1,2)], of w] shared_link [OF assms(1,2)] c
    by simp
  from buffers_put_shared [OF this, of v] have
    "buffers_inv d held extra (put_shared v ?b (put_shared w ?a ?s))"
    using shared_link [OF assms(1,3)] c(2) by simp
  moreover have "put_shared v ?b (put_shared w ?a ?s) = shared_swap v w s"
    using False by (simp add: shared_swap_def Let_def put_shared_def fun_upd_twist)
  ultimately show ?thesis by simp
qed

text \<open>The new control block must have the deleter that fits, unless it owns nothing.\<close>

lemma keeps_shared_reset_to:
  assumes "buffers_inv d held extra s" and "has_shared s v" and "set_option p \<subseteq> held"
    and "p \<noteq> None \<Longrightarrow> d = Default_delete"
  shows "buffers_inv d (held - set_option p) extra (shared_reset_to v p len s)"
proof -
  obtain c s' where n: "new_control p Default_delete s = (c, s')" by fastforce
  have d: "p = Some q \<Longrightarrow> Default_delete = d" for q using assms(4) by simp
  note k = buffers_new_control [OF assms(1,3) d n]
  have "has_shared s' v" using k(4) assms(2) by (simp add: has_shared_def)
  then show ?thesis
    using keeps_shared_replace [of d _ "\<lparr>s_ptr = p, s_control = Some c, s_length = len\<rparr>" extra s' v] k(1,2)
    by (simp add: shared_reset_to_def n Let_def)
qed

lemma keeps_shared_destroy:
  assumes "buffers_inv d held extra s" and "has_shared s v"
  shows "buffers_inv d held extra (shared_destroy v s)"
  using buffers_release_use [OF buffers_del_shared [OF assms(1), of v, unfolded shared_control_of [OF assms(2)]]]
  by (simp add: shared_destroy_def)

section \<open>Programs\<close>

text \<open>
  What the program must see to: a bare pointer it gives to a buffer has room for the length it claims,
  the size asked of \<open>make_unique_c_buffer\<close> and \<open>make_shared_c_buffer\<close> does not overflow, and
  \<open>shared_buffer::reset (p, n)\<close> is used with the default deleter only.
\<close>

definition fits_in :: "u64 \<Rightarrow> store \<Rightarrow> nat option \<Rightarrow> u64 \<Rightarrow> bool" where
  "fits_in sizeof s p len \<longleftrightarrow>
     (\<forall>q a n. p = Some q \<and> live s q = Some (a, n) \<longrightarrow> unat sizeof * unat len \<le> n)"

fun proper :: "deleter \<Rightarrow> u64 \<Rightarrow> buffer_op \<Rightarrow> store \<Rightarrow> bool" where
  "proper d sizeof (Make_unique ok x len) s \<longleftrightarrow> unat sizeof * unat len < 2 ^ 64"
| "proper d sizeof (Make_shared ok v len) s \<longleftrightarrow> unat sizeof * unat len < 2 ^ 64"
| "proper d sizeof (Unique_of_raw x p len) s \<longleftrightarrow> fits_in sizeof s (Some p) len"
| "proper d sizeof (Reset_unique_to x p len) s \<longleftrightarrow> fits_in sizeof s (Some p) len"
| "proper d sizeof (Shared_of_raw v p len) s \<longleftrightarrow> fits_in sizeof s (Some p) len"
| "proper d sizeof (Reset_shared_to v p len) s \<longleftrightarrow> fits_in sizeof s (Some p) len \<and> d = Default_delete"
| "proper d sizeof ev s \<longleftrightarrow> True"

definition buffer_step :: "deleter \<Rightarrow> u64 \<Rightarrow> store \<Rightarrow> buffer_op \<Rightarrow> store \<Rightarrow> bool" where
  "buffer_step d sizeof s ev s' \<longleftrightarrow> proper d sizeof ev s \<and> buffer_exec d sizeof ev s = Some s'"

inductive buffer_init :: "store \<Rightarrow> bool" where
  "buffer_init empty_store"

text \<open>The bare pointers of the program.\<close>

lemma deallocate_frame [simp]:
  "raws (deallocate a p s) = raws s" "uniques (deallocate a p s) = uniques s"
  "shareds (deallocate a p s) = shareds s" "controls (deallocate a p s) = controls s"
  by (cases p; simp split: option.splits prod.splits)+

lemma release_use_frame [simp]:
  "raws (release_use c s) = raws s" "uniques (release_use c s) = uniques s" "shareds (release_use c s) = shareds s"
  by (cases c; simp split: option.splits control.splits)+

lemma add_use_frame [simp]:
  "raws (add_use c s) = raws s" "uniques (add_use c s) = uniques s" "shareds (add_use c s) = shareds s"
  "live (add_use c s) = live s"
  by (cases c; simp split: option.splits control.splits)+

lemma put_frame [simp]:
  "raws (put_unique x b s) = raws s" "raws (put_shared v e s) = raws s"
  "live (put_unique x b s) = live s" "live (put_shared v e s) = live s"
  by (simp_all add: put_unique_def put_shared_def)

lemma buffers_raws [simp]: "buffers_inv d held extra (s\<lparr>raws := r\<rparr>) = buffers_inv d held extra s"
proof -
  have "unique_block (s\<lparr>raws := r\<rparr>) = unique_block s" "control_block (s\<lparr>raws := r\<rparr>) = control_block s"
    by (auto simp: unique_block_def control_block_def fun_eq_iff)
  then show ?thesis unfolding buffers_inv_def
    by (subst owned_frame [of "s\<lparr>raws := r\<rparr>" s] kinds_frame [of "s\<lparr>raws := r\<rparr>" s]
        uses_frame [of "s\<lparr>raws := r\<rparr>" s]; simp)+
qed

lemma has_raws [simp]:
  "has_unique (s\<lparr>raws := r\<rparr>) x = has_unique s x" "has_shared (s\<lparr>raws := r\<rparr>) v = has_shared s v"
  by (simp_all add: has_unique_def has_shared_def)

abbreviation program_inv :: "deleter \<Rightarrow> store \<Rightarrow> bool" where
  "program_inv d s \<equiv> buffers_inv d (raws s) (\<lambda>_. 0) s"

lemma malloc_keeps:
  assumes "program_inv Deleter_free s" and "malloc_or_throw ok n s = (s', r)"
  shows "case r of Inl e \<Rightarrow> s' = s
    | Inr p \<Rightarrow> buffers_inv Deleter_free (insert p (raws s)) (\<lambda>_. 0) s' \<and> raws s' = raws s \<and> p \<notin> raws s \<and>
        uniques s' = uniques s \<and> shareds s' = shareds s \<and> live s' = (live s)(p \<mapsto> (Malloc, unat n)) \<and>
        live s p = None"
proof (cases r)
  case (Inl e)
  then show ?thesis using assms(2) by (auto simp: malloc_or_throw_def split: if_splits prod.splits)
next
  case (Inr p)
  then have a: "allocate (frees Deleter_free) (unat n) s = (p, s')"
    using assms(2) by (auto simp: malloc_or_throw_def split: if_splits prod.splits)
  note k = buffers_allocate [OF assms(1) a]
  have o: "owned_inv (raws s) s" using assms(1) by (simp add: buffers_inv_def)
  have "live s p = None"
  proof (rule ccontr)
    assume "live s p \<noteq> None"
    then have "p < next_block s" using o by (auto simp: owned_inv_def)
    then show False using k(7) by simp
  qed
  moreover from this have "p \<notin> raws s" using o by (auto simp: owned_inv_def)
  ultimately show ?thesis using k Inr by simp
qed

lemma program_inv_step:
  assumes "program_inv d s" and "buffer_step d sizeof s ev s'"
  shows "program_inv d s'"
proof -
  have step: "buffer_exec d sizeof ev s = Some s'" and ok: "proper d sizeof ev s"
    using assms(2) by (auto simp: buffer_step_def)
  show ?thesis
  proof (cases ev)
    case (Make_unique succ x len)
    then have d: "d = Deleter_free" "\<not> has_unique s x" "s' = fst (make_unique_c_buffer sizeof succ x len s)"
      using step by auto
    obtain s1 r where m: "malloc_or_throw succ (sizeof * len) s = (s1, r)" by fastforce
    note k = malloc_keeps [OF assms(1) [unfolded d(1)] m]
    show ?thesis
    proof (cases r)
      case (Inr p)
      then have "\<not> has_unique s1 x" "insert p (raws s) - {p} = raws s" using k d(2) by (auto simp: has_unique_def)
      then show ?thesis
        using keeps_unique_from_pointer [of d "insert p (raws s)" "\<lambda>_. 0" s1 x "Some p" len] k Inr d m
        by (simp add: make_unique_c_buffer_def unique_from_pointer_def Diff_insert_absorb)
    qed (use k d m assms(1) in \<open>simp add: make_unique_c_buffer_def\<close>)
  next
    case (Make_shared succ v len)
    then have d: "d = Deleter_free" "\<not> has_shared s v" "s' = fst (make_shared_c_buffer sizeof succ v len s)"
      using step by auto
    obtain s1 r where m: "malloc_or_throw succ (sizeof * len) s = (s1, r)" by fastforce
    note k = malloc_keeps [OF assms(1) [unfolded d(1)] m]
    show ?thesis
    proof (cases r)
      case (Inr p)
      then have "\<not> has_shared s1 v" "insert p (raws s) - {p} = raws s" using k d(2) by (auto simp: has_shared_def)
      then show ?thesis
        using keeps_shared_from_pointer [of d "insert p (raws s)" "\<lambda>_. 0" s1 v "Some p" len] k Inr d m
        by (simp add: make_shared_c_buffer_def shared_from_pointer_def new_control_def Diff_insert_absorb)
    qed (use k d m assms(1) in \<open>simp add: make_shared_c_buffer_def\<close>)
  next
    case (Alloc_raw n)
    obtain p s1 where a: "allocate (frees d) n s = (p, s1)" by fastforce
    then show ?thesis using step Alloc_raw buffers_allocate [OF assms(1) a]
      by (auto simp: take_raw_def Un_commute)
  next
    case (Free_raw p)
    then have p: "p \<in> raws s" "s' = deallocate (frees d) (Some p) (give p s)" using step by auto
    have "buffers_inv d (raws s - set_option (Some p)) (\<lambda>_. 0) s'"
      unfolding p(2) by (rule buffers_deallocate) (use assms(1) p in auto)
    moreover have "raws s' = raws s - {p}" unfolding p(2) deallocate_frame by simp
    ultimately show ?thesis by simp
  next
    case (Release_unique x)
    obtain p s1 where r: "unique_release x s = (p, s1)" by fastforce
    then have "raws s1 = raws s" by (auto simp: unique_release_def Let_def)
    then show ?thesis using step Release_unique keeps_unique_release [OF assms(1) _ r] r
      by (auto simp: take_raw_def)
  next
    case (New_unique x)
    then show ?thesis using step keeps_unique_from_pointer [OF assms(1), of x None 0]
      by (auto simp: unique_default_def unique_from_pointer_def)
  next
    case (Unique_of_raw x p len)
    then show ?thesis using step keeps_unique_from_pointer [of d "raws s" _ "give p s" x "Some p" len] assms(1)
      by (auto simp: unique_from_pointer_def)
  next
    case (Move_unique x y)
    then show ?thesis using step keeps_unique_move [OF assms(1), of x y]
      by (auto simp: unique_move_def Let_def)
  next
    case (Move_assign_unique x y)
    then show ?thesis using step keeps_unique_move_assign [OF assms(1), of x y]
      by (auto simp: unique_move_assign_def Let_def)
  next
    case (Swap_unique x y)
    then show ?thesis using step keeps_unique_swap [OF assms(1), of x y]
      by (auto simp: unique_swap_def Let_def)
  next
    case (Reset_unique x)
    then show ?thesis using step keeps_unique_reset_to [OF assms(1), of x None 0]
      by (auto simp: unique_reset_def unique_reset_to_def Let_def)
  next
    case (Reset_unique_to x p len)
    then show ?thesis using step keeps_unique_reset_to [of d "raws s" _ "give p s" x "Some p" len] assms(1)
      by (auto simp: unique_reset_to_def Let_def)
  next
    case (Destroy_unique x)
    then show ?thesis using step keeps_unique_destroy [OF assms(1), of x] by (auto simp: unique_destroy_def)
  next
    case (New_shared v)
    then show ?thesis using step keeps_shared_default [OF assms(1), of v] by (auto simp: shared_default_def)
  next
    case (Shared_of_raw v p len)
    then show ?thesis using step keeps_shared_from_pointer [of d "raws s" _ "give p s" v "Some p" len] assms(1)
      by (auto simp: shared_from_pointer_def new_control_def)
  next
    case (Shared_of_unique v x)
    then show ?thesis using step keeps_shared_from_unique [OF assms(1), of v x]
      by (auto simp: shared_from_unique_def shared_from_pointer_def unique_release_def new_control_def Let_def)
  next
    case (Copy_shared v w)
    then show ?thesis using step keeps_shared_copy [OF assms(1), of v w] by (auto simp: shared_copy_def Let_def)
  next
    case (Move_shared v w)
    then show ?thesis using step keeps_shared_move [OF assms(1), of v w] by (auto simp: shared_move_def Let_def)
  next
    case (Copy_assign_shared v w)
    then show ?thesis using step keeps_shared_copy_assign [OF assms(1), of v w]
      by (auto simp: shared_copy_assign_def Let_def)
  next
    case (Move_assign_shared v w)
    then show ?thesis using step keeps_shared_move_assign [OF assms(1), of v w]
      by (auto simp: shared_move_assign_def Let_def)
  next
    case (Swap_shared v w)
    then show ?thesis using step keeps_shared_swap [OF assms(1), of v w] by (auto simp: shared_swap_def Let_def)
  next
    case (Reset_shared v)
    then show ?thesis using step keeps_shared_reset_to [OF assms(1), of v None 0]
      by (auto simp: shared_reset_def shared_reset_to_def new_control_def Let_def)
  next
    case (Reset_shared_to v p len)
    then show ?thesis using step ok keeps_shared_reset_to [of d "raws s" _ "give p s" v "Some p" len] assms(1)
      by (auto simp: shared_reset_to_def new_control_def Let_def)
  next
    case (Destroy_shared v)
    then show ?thesis using step keeps_shared_destroy [OF assms(1), of v] by (auto simp: shared_destroy_def)
  qed
qed

section \<open>Room for the elements\<close>

definition sizes_inv :: "u64 \<Rightarrow> store \<Rightarrow> bool" where
  "sizes_inv sizeof s \<longleftrightarrow>
     (\<forall>x b. uniques s x = Some b \<longrightarrow> fits_in sizeof s (u_ptr b) (u_length b)) \<and>
     (\<forall>v b. shareds s v = Some b \<longrightarrow> fits_in sizeof s (s_ptr b) (s_length b))"

lemma fits_None [simp]: "fits_in sizeof s None len"
  by (simp add: fits_in_def)

lemma fits_mono: "fits_in sizeof s p len \<Longrightarrow> live s' \<subseteq>\<^sub>m live s \<Longrightarrow> fits_in sizeof s' p len"
  unfolding fits_in_def map_le_def by (metis domI)

lemma fits_frame [simp]:
  "fits_in sizeof (put_unique x b s) = fits_in sizeof s" "fits_in sizeof (put_shared v e s) = fits_in sizeof s"
  "fits_in sizeof (add_use c s) = fits_in sizeof s" "fits_in sizeof (s\<lparr>raws := r\<rparr>) = fits_in sizeof s"
  "fits_in sizeof (s\<lparr>uniques := us\<rparr>) = fits_in sizeof s" "fits_in sizeof (s\<lparr>shareds := ss\<rparr>) = fits_in sizeof s"
  by (simp_all add: fits_in_def fun_eq_iff)

lemma deallocate_live: "live (deallocate a p s) \<subseteq>\<^sub>m live s"
  by (cases p) (auto simp: map_le_def split: option.splits)

lemma release_use_live: "live (release_use c s) \<subseteq>\<^sub>m live s"
proof (cases c)
  case (Some e)
  then show ?thesis
    using deallocate_live [of _ _ "s\<lparr>controls := (controls s)(e := None)\<rparr>"]
    by (auto split: option.splits control.splits)
qed simp

lemma sizes_unique: "sizes_inv sizeof s \<Longrightarrow> has_unique s x \<Longrightarrow> fits_in sizeof s (u_ptr (unique s x)) (u_length (unique s x))"
  by (auto simp: sizes_inv_def has_unique_def)

lemma sizes_shared: "sizes_inv sizeof s \<Longrightarrow> has_shared s v \<Longrightarrow> fits_in sizeof s (s_ptr (shared s v)) (s_length (shared s v))"
  by (auto simp: sizes_inv_def has_shared_def)

lemma sizes_put_unique [simp]:
  "sizes_inv sizeof s \<Longrightarrow> fits_in sizeof s (u_ptr b) (u_length b) \<Longrightarrow> sizes_inv sizeof (put_unique x b s)"
  unfolding sizes_inv_def fits_frame by (simp add: put_unique_def put_shared_def)

lemma sizes_put_shared [simp]:
  "sizes_inv sizeof s \<Longrightarrow> fits_in sizeof s (s_ptr b) (s_length b) \<Longrightarrow> sizes_inv sizeof (put_shared v b s)"
  unfolding sizes_inv_def fits_frame by (simp add: put_unique_def put_shared_def)

lemma sizes_mono:
  assumes "sizes_inv sizeof s" and "live s' \<subseteq>\<^sub>m live s"
    and "uniques s' \<subseteq>\<^sub>m uniques s" and "shareds s' \<subseteq>\<^sub>m shareds s"
  shows "sizes_inv sizeof s'"
proof -
  have "uniques s x = Some b" if "uniques s' x = Some b" for x b
    using assms(3) that unfolding map_le_def by (metis domI)
  moreover have "shareds s v = Some b" if "shareds s' v = Some b" for v b
    using assms(4) that unfolding map_le_def by (metis domI)
  ultimately show ?thesis using assms(1,2) fits_mono unfolding sizes_inv_def by blast
qed

lemma sizes_steps [simp]:
  assumes "sizes_inv sizeof s"
  shows "sizes_inv sizeof (deallocate a p s)" "sizes_inv sizeof (release_use c s)"
    "sizes_inv sizeof (add_use c s)" "sizes_inv sizeof (s\<lparr>raws := r\<rparr>)"
    "sizes_inv sizeof (s\<lparr>uniques := (uniques s)(x := None)\<rparr>)" "sizes_inv sizeof (s\<lparr>shareds := (shareds s)(x := None)\<rparr>)"
    "sizes_inv sizeof (snd (new_control p d s))"
proof -
  show "sizes_inv sizeof (deallocate a p s)" by (rule sizes_mono [OF assms deallocate_live]) simp_all
  show "sizes_inv sizeof (release_use c s)" by (rule sizes_mono [OF assms release_use_live]) simp_all
qed (rule sizes_mono [OF assms]; simp add: new_control_def map_le_def)+

lemma unique_live:
  assumes "buffers_inv d held extra s" and "uniques s x = Some b" and "u_ptr b = Some q"
  shows "\<exists>n. live s q = Some (frees d, n)" and "q \<in> unique_block s x"
proof -
  show q: "q \<in> unique_block s x" using assms(2,3) by (simp add: unique_block_def)
  then have "q \<in> dom (live s)"
    using assms(1) by (auto simp: buffers_inv_def owned_inv_def unique_blocks_def)
  then show "\<exists>n. live s q = Some (frees d, n)"
    using assms(1) by (auto simp: buffers_inv_def kinds_inv_def)
qed

lemma shared_live:
  assumes "buffers_inv d held extra s" and "shareds s v = Some b" and "s_ptr b = Some q"
  shows "\<exists>n. live s q = Some (frees d, n)" and "\<exists>c. s_control b = Some c \<and> q \<in> control_block s c"
proof -
  have "s_ptr b = points_to s (s_control b)"
    using assms(1,2) uses_link [of extra s v b] by (simp add: buffers_inv_def)
  then have "Option.bind (Option.bind (s_control b) (controls s)) managed = Some q"
    using assms(3) by (simp add: points_to_def)
  then obtain c k where c: "s_control b = Some c" "controls s c = Some k" "managed k = Some q"
    unfolding bind_eq_Some_conv by blast
  then show "\<exists>c. s_control b = Some c \<and> q \<in> control_block s c" by (simp add: control_block_def)
  have "control_block s c = {q}" using c by (simp add: control_block_def)
  then have "q \<in> control_blocks s" unfolding control_blocks_def by blast
  then have "q \<in> dom (live s)" using assms(1) by (simp add: buffers_inv_def owned_inv_def)
  then show "\<exists>n. live s q = Some (frees d, n)"
    using assms(1) by (auto simp: buffers_inv_def kinds_inv_def)
qed

lemma sizes_allocate:
  assumes "program_inv d s" and "sizes_inv sizeof s" and "live s p = None"
    and "live s' = (live s)(p \<mapsto> (a, n))" and "uniques s' = uniques s" and "shareds s' = shareds s"
  shows "sizes_inv sizeof s'"
proof -
  have "fits_in sizeof s' q len" if "fits_in sizeof s q len" "q \<noteq> Some p" for q len
    using that assms(4) by (auto simp: fits_in_def)
  moreover have "u_ptr b \<noteq> Some p" if "uniques s x = Some b" for x b
    using unique_live(1) [OF assms(1) that] assms(3) by fastforce
  moreover have "s_ptr b \<noteq> Some p" if "shareds s v = Some b" for v b
    using shared_live(1) [OF assms(1) that] assms(3) by fastforce
  ultimately show ?thesis using assms(2) unfolding sizes_inv_def assms(5,6) by blast
qed

lemma sizes_shared_from_pointer:
  "sizes_inv sizeof s \<Longrightarrow> fits_in sizeof s p len \<Longrightarrow> sizes_inv sizeof (shared_from_pointer d v p len s)"
  using sizes_steps(7) [of sizeof s p d]
  by (auto simp: shared_from_pointer_def new_control_def fits_in_def)

lemma sizes_shared_reset_to:
  assumes "sizes_inv sizeof s" and "fits_in sizeof s p len"
  shows "sizes_inv sizeof (shared_reset_to v p len s)"
  using sizes_steps(7) [OF assms(1), of p Default_delete] assms(2)
  by (auto simp: shared_reset_to_def new_control_def Let_def fits_in_def)

lemma sizes_unique_reset_to:
  assumes "sizes_inv sizeof s" and "fits_in sizeof s p len"
  shows "sizes_inv sizeof (unique_reset_to d x p len s)"
proof -
  let ?b = "(unique s x)\<lparr>u_ptr := p\<rparr>"
  let ?s = "deallocate (frees d) (u_ptr (unique s x)) (put_unique x ?b s)"
  let ?t = "deallocate (frees d) (u_ptr (unique s x)) (put_unique x \<lparr>u_ptr = p, u_length = len\<rparr> s)"
  have t: "sizes_inv sizeof ?t" using assms by simp
  have live: "live ?s = live ?t"
    by (cases "u_ptr (unique s x)") (simp_all add: put_unique_def split: option.splits)
  have "sizes_inv sizeof (put_unique x \<lparr>u_ptr = p, u_length = len\<rparr> ?s)"
  proof (rule sizes_mono [OF t])
    show "live (put_unique x \<lparr>u_ptr = p, u_length = len\<rparr> ?s) \<subseteq>\<^sub>m live ?t" using live by simp
  qed (simp_all add: put_unique_def)
  then show ?thesis by (simp add: unique_reset_to_def Let_def)
qed

lemma unat_product: "unat a * unat b < 2 ^ 64 \<Longrightarrow> unat (a * b :: u64) = unat a * unat b"
  using unat_mult_lem [of a b] by simp

lemma sizes_inv_step:
  assumes "program_inv d s" and "sizes_inv sizeof s" and "buffer_step d sizeof s ev s'"
  shows "sizes_inv sizeof s'"
proof -
  have step: "buffer_exec d sizeof ev s = Some s'" and ok: "proper d sizeof ev s"
    using assms(3) by (auto simp: buffer_step_def)
  note sz = assms(2)
  show ?thesis
  proof (cases ev)
    case (Make_unique succ x len)
    then have d: "d = Deleter_free" "s' = fst (make_unique_c_buffer sizeof succ x len s)"
      using step by auto
    obtain s1 r where m: "malloc_or_throw succ (sizeof * len) s = (s1, r)" by fastforce
    note k = malloc_keeps [OF assms(1) [unfolded d(1)] m]
    show ?thesis
    proof (cases r)
      case (Inr p)
      have "sizes_inv sizeof s1" using sizes_allocate [OF assms(1,2), of p s1] k Inr by simp
      moreover have "fits_in sizeof s1 (Some p) len"
        using k Inr ok Make_unique unat_product [of sizeof len] by (simp add: fits_in_def)
      ultimately show ?thesis using d m Inr by (auto simp: make_unique_c_buffer_def unique_from_pointer_def)
    qed (use k d m sz in \<open>simp add: make_unique_c_buffer_def\<close>)
  next
    case (Make_shared succ v len)
    then have d: "d = Deleter_free" "s' = fst (make_shared_c_buffer sizeof succ v len s)"
      using step by auto
    obtain s1 r where m: "malloc_or_throw succ (sizeof * len) s = (s1, r)" by fastforce
    note k = malloc_keeps [OF assms(1) [unfolded d(1)] m]
    show ?thesis
    proof (cases r)
      case (Inr p)
      have "sizes_inv sizeof s1" using sizes_allocate [OF assms(1,2), of p s1] k Inr by simp
      moreover have "fits_in sizeof s1 (Some p) len"
        using k Inr ok Make_shared unat_product [of sizeof len] by (simp add: fits_in_def)
      ultimately show ?thesis using d m Inr
        by (simp add: make_shared_c_buffer_def sizes_shared_from_pointer)
    qed (use k d m sz in \<open>simp add: make_shared_c_buffer_def\<close>)
  next
    case (Alloc_raw n)
    obtain p s1 where a: "allocate (frees d) n s = (p, s1)" by fastforce
    note k = buffers_allocate [OF assms(1) a]
    have "live s p = None"
      using assms(1) k(7) by (auto simp: buffers_inv_def owned_inv_def)
    then have "sizes_inv sizeof s1" by (rule sizes_allocate [OF assms(1,2) _ k(5,2,3)])
    then show ?thesis using step Alloc_raw a by (auto simp: take_raw_def)
  next
    case (Release_unique x)
    then show ?thesis using step sz by (auto simp: take_raw_def unique_release_def Let_def)
  next
    case (Move_unique x y)
    then show ?thesis using step sz sizes_unique [OF sz, of y] by (auto simp: unique_move_def Let_def)
  next
    case (Move_assign_unique x y)
    then show ?thesis using step sz sizes_unique [OF sz, of y] by (auto simp: unique_move_assign_def Let_def)
  next
    case (Swap_unique x y)
    then show ?thesis using step sz sizes_unique [OF sz] by (auto simp: unique_swap_def Let_def)
  next
    case (Copy_shared v w)
    then show ?thesis using step sz sizes_shared [OF sz, of w] by (auto simp: shared_copy_def Let_def)
  next
    case (Move_shared v w)
    then show ?thesis using step sz sizes_shared [OF sz, of w] by (auto simp: shared_move_def Let_def)
  next
    case (Copy_assign_shared v w)
    then show ?thesis using step sz sizes_shared [OF sz, of w] by (auto simp: shared_copy_assign_def Let_def)
  next
    case (Move_assign_shared v w)
    then show ?thesis using step sz sizes_shared [OF sz, of w] by (auto simp: shared_move_assign_def Let_def)
  next
    case (Swap_shared v w)
    then show ?thesis using step sz sizes_shared [OF sz] by (auto simp: shared_swap_def Let_def)
  next
    case (Shared_of_unique v x)
    then show ?thesis using step sz sizes_unique [OF sz, of x]
      by (auto simp: shared_from_unique_def unique_release_def Let_def has_unique_def put_unique_def
          intro!: sizes_shared_from_pointer sizes_put_unique [unfolded put_unique_def])
  next
    case (Reset_unique_to x p len)
    then show ?thesis using step ok sizes_unique_reset_to [of sizeof "give p s" "Some p" len d x] sz by auto
  next
    case (Reset_shared_to v p len)
    then show ?thesis using step ok sizes_shared_reset_to [of sizeof "give p s" "Some p" len v] sz by auto
  next
    case (Shared_of_raw v p len)
    then show ?thesis using step ok sizes_shared_from_pointer [of sizeof "give p s" "Some p" len d v] sz by auto
  next
    case (Reset_unique x)
    then show ?thesis using step sizes_unique_reset_to [OF sz, of None 0 d x] by (auto simp: unique_reset_def)
  next
    case (Reset_shared x)
    then show ?thesis using step sizes_shared_reset_to [OF sz, of None 0 x] by (auto simp: shared_reset_def)
  qed (use step ok sz in \<open>auto simp: unique_default_def unique_from_pointer_def unique_destroy_def
      shared_default_def shared_destroy_def simp del: deallocate.simps\<close>)
qed

section \<open>What every program has\<close>

interpretation buffer_system: invariant_system buffer_init "buffer_step d sizeof"
    "\<lambda>s. program_inv d s \<and> sizes_inv sizeof s"
  for d sizeof
proof
  fix s
  assume "buffer_init s"
  then have s: "s = empty_store" by (rule buffer_init.cases)
  show "program_inv d s \<and> sizes_inv sizeof s"
    by (simp add: s empty_store_def buffers_inv_def owned_inv_def kinds_inv_def uses_inv_def sizes_inv_def
        unique_blocks_def control_blocks_def unique_block_def control_block_def users_def)
qed (blast intro: program_inv_step sizes_inv_step)

text \<open>The blocks of different owners are different.\<close>

lemma program_disjoint:
  assumes "program_inv d s"
  shows "unique_blocks s \<inter> control_blocks s = {}" and "unique_blocks s \<inter> raws s = {}"
    and "control_blocks s \<inter> raws s = {}" and "x \<noteq> y \<Longrightarrow> unique_block s x \<inter> unique_block s y = {}"
    and "unique_block s x \<subseteq> unique_blocks s" and "control_block s c \<subseteq> control_blocks s"
    and "dom (live s) = unique_blocks s \<union> control_blocks s \<union> raws s" and "faults s = []"
  using assms by (auto simp: buffers_inv_def owned_inv_def unique_blocks_def control_blocks_def)

lemma fits_exists:
  assumes "sizes_inv sizeof s" and "\<exists>n. live s p = Some (frees d, n)"
  shows "uniques s x = Some b \<Longrightarrow> u_ptr b = Some p \<Longrightarrow>
      \<exists>n. live s p = Some (frees d, n) \<and> unat sizeof * unat (u_length b) \<le> n"
    and "shareds s v = Some e \<Longrightarrow> s_ptr e = Some p \<Longrightarrow>
      \<exists>n. live s p = Some (frees d, n) \<and> unat sizeof * unat (s_length e) \<le> n"
  using assms unfolding sizes_inv_def fits_in_def by blast+

lemma unique_owner:
  assumes "program_inv d s" and "uniques s x = Some b" and "u_ptr b = Some p"
  shows "uniques s y = Some e \<Longrightarrow> u_ptr e = Some p \<Longrightarrow> y = x"
    and "shareds s v = Some e' \<Longrightarrow> s_ptr e' \<noteq> Some p" and "p \<notin> raws s"
proof -
  note disjoint = program_disjoint [OF assms(1)]
  have p: "p \<in> unique_block s x" by (rule unique_live(2) [OF assms])
  show "y = x" if "uniques s y = Some e" "u_ptr e = Some p"
    using unique_live(2) [OF assms(1) that] p disjoint(4) [of y x] by blast
  show "s_ptr e' \<noteq> Some p" if "shareds s v = Some e'"
    using shared_live(2) [OF assms(1) that] p disjoint(1,5,6) by blast
  show "p \<notin> raws s" using p disjoint(2,5) by blast
qed

lemma shared_owner:
  assumes "program_inv d s" and "shareds s v = Some b" and "s_ptr b = Some p"
  shows "\<exists>c k. s_control b = Some c \<and> controls s c = Some k \<and>
      uses k = card {w. \<exists>e. shareds s w = Some e \<and> s_control e = Some c}" and "p \<notin> raws s"
proof -
  obtain c where c: "s_control b = Some c" "p \<in> control_block s c" using shared_live(2) [OF assms] by blast
  then obtain k where k: "controls s c = Some k" by (auto simp: control_block_def split: option.splits)
  have "uses_inv (\<lambda>_. 0) s" using assms(1) by (simp add: buffers_inv_def)
  then show "\<exists>c k. s_control b = Some c \<and> controls s c = Some k \<and>
      uses k = card {w. \<exists>e. shareds s w = Some e \<and> s_control e = Some c}"
    using c(1) k uses_Some by (fastforce simp: users_def)
  show "p \<notin> raws s" using c(2) program_disjoint(3,6) [OF assms(1)] by blast
qed

lemma no_buffers_left:
  assumes "program_inv d s" and "uniques s = Map.empty" and "shareds s = Map.empty"
  shows "dom (live s) = raws s"
proof -
  have "uses_inv (\<lambda>_. 0) s" using assms(1) by (simp add: buffers_inv_def)
  then have "controls s c = None" for c
    using uses_Some [of "\<lambda>_. 0" s c] assms(3) by (cases "controls s c") (fastforce simp: users_def)+
  then show ?thesis using program_disjoint(7) [OF assms(1)] assms(2)
    by (simp add: unique_blocks_def control_blocks_def unique_block_def control_block_def)
qed


definition next_buffer :: "deleter \<Rightarrow> u64 \<Rightarrow> buffer_op \<Rightarrow> store \<Rightarrow> store option" where
  "next_buffer d sizeof ev s = (if proper d sizeof ev s then buffer_exec d sizeof ev s else None)"

lemma buffer_reach_exec:
  "exec_run (next_buffer d sizeof) es empty_store = Some s \<Longrightarrow> reach buffer_init (buffer_step d sizeof) s"
  by (rule reach_run [OF reach_init [of buffer_init, OF buffer_init.intros]])
    (rule exec_run_sound [of "next_buffer d sizeof"],
      auto simp: buffer_step_def next_buffer_def split: if_splits)

lemmas buffer_evaluation = next_buffer_def guarded_def has_unique_def has_shared_def make_unique_c_buffer_def
  make_shared_c_buffer_def malloc_or_throw_def allocate_def unique_from_pointer_def put_unique_def put_shared_def
  unique_release_def shared_from_unique_def shared_from_pointer_def new_control_def shared_copy_def
  unique_destroy_def shared_destroy_def unique_move_def shared_reset_to_def take_raw_def fits_in_def
  empty_store_def Let_def


section \<open>What can go wrong\<close>

text \<open>
  \<open>shared_buffer::reset (p, n)\<close> of a C buffer later calls \<open>delete[]\<close> on memory from \<open>malloc\<close>; a product that
  overflows gives a buffer of eight bytes that claims \<open>2 ^ 61 + 1\<close> elements; a buffer that was moved from
  keeps its length without a block.
\<close>

lemma shared_reset_wrong_deallocator:
  "\<exists>s. exec_run (buffer_exec Deleter_free 1) [New_shared 0, Alloc_raw 4, Reset_shared_to 0 0 4, Destroy_shared 0]
      empty_store = Some s \<and> faults s = [Wrong_deallocator 0]"
  by (simp add: buffer_evaluation shared_default_def)

lemma make_buffer_size_overflows:
  "\<exists>s. make_unique_c_buffer 8 True 0 (2 ^ 61 + 1) empty_store = (s, Inr ()) \<and>
     live s 0 = Some (Malloc, 8) \<and> u_length (unique s 0) = 2 ^ 61 + 1"
  by (simp add: buffer_evaluation)

lemma moved_buffer_keeps_length:
  "\<exists>s. exec_run (next_buffer Deleter_free 8) [Make_unique True 0 3, Move_unique 1 0] empty_store = Some s \<and>
     u_ptr (unique s 0) = None \<and> u_length (unique s 0) = 3"
  by (simp add: buffer_evaluation)

end
