(* ===== verification/OpaqueBuffers.thy ===== *)
theory OpaqueBuffers
  imports BufferPrograms
begin

text \<open>
  The opaque buffers of \<open>common/include/sg/buffer.h\<close>: \<open>unique_opaque_buffer\<close> and \<open>shared_opaque_buffer\<close>
  hold a buffer on the heap twice, through a smart pointer that owns it and through the plain pointer of
  \<open>buffer_base\<close>, by which they reach it.

  The inner buffers are variables of the store of theory \<open>Buffers\<close>, an address being a name there. Both
  classes have the copy and move operations the compiler makes: the plain pointer is copied, the smart
  pointer moved or copied. \<open>uses_of\<close> counts the smart pointers to an inner buffer and the bare pointers
  the program got from \<open>release()\<close>, which are \<open>loose\<close>; \<open>dangles\<close> records every use of an inner buffer that
  is gone.
\<close>

section \<open>State\<close>

datatype opaque_kind = Opaque_unique | Opaque_shared

record opaque =
  o_ptr :: nat
  o_buffer :: "nat option"

record opaque_heap =
  inner :: store
  opaques :: "nat \<rightharpoonup> opaque"
  uses_of :: "nat \<Rightarrow> nat"
  loose :: "nat \<Rightarrow> nat"
  dangles :: "nat list"

definition empty_opaque_heap :: opaque_heap where
  "empty_opaque_heap =
     \<lparr>inner = empty_store, opaques = Map.empty, uses_of = (\<lambda>_. 0), loose = (\<lambda>_. 0), dangles = []\<rparr>"

fun has_inner :: "opaque_kind \<Rightarrow> store \<Rightarrow> nat \<Rightarrow> bool" where
  "has_inner Opaque_unique s i = has_unique s i"
| "has_inner Opaque_shared s i = has_shared s i"

definition has_opaque :: "opaque_heap \<Rightarrow> nat \<Rightarrow> bool" where
  "has_opaque h x \<longleftrightarrow> opaques h x \<noteq> None"

abbreviation opaque_at :: "opaque_heap \<Rightarrow> nat \<Rightarrow> opaque" where
  "opaque_at h x \<equiv> the (opaques h x)"

definition put_opaque :: "nat \<Rightarrow> opaque \<Rightarrow> opaque_heap \<Rightarrow> opaque_heap" where
  "put_opaque x b h = h\<lparr>opaques := (opaques h)(x \<mapsto> b)\<rparr>"

text \<open>The destructor of the inner buffer, and a smart pointer that stops pointing to it.\<close>

fun destroy_inner :: "opaque_kind \<Rightarrow> nat \<Rightarrow> store \<Rightarrow> store" where
  "destroy_inner Opaque_unique i s = unique_destroy Default_delete i s"
| "destroy_inner Opaque_shared i s = shared_destroy i s"

fun give_up :: "opaque_kind \<Rightarrow> nat option \<Rightarrow> opaque_heap \<Rightarrow> opaque_heap" where
  "give_up k None h = h"
| "give_up k (Some i) h =
     (if uses_of h i = 0 then h\<lparr>dangles := dangles h @ [i]\<rparr>
      else if uses_of h i = 1 then h\<lparr>inner := destroy_inner k i (inner h), uses_of := (uses_of h)(i := 0)\<rparr>
      else h\<lparr>uses_of := (uses_of h)(i := uses_of h i - 1)\<rparr>)"

fun add_owner :: "nat option \<Rightarrow> opaque_heap \<Rightarrow> opaque_heap" where
  "add_owner None h = h"
| "add_owner (Some i) h = h\<lparr>uses_of := (uses_of h)(i := Suc (uses_of h i))\<rparr>"

section \<open>Operations\<close>

text \<open>
  \<open>new T[length]\<close>: a size beyond the address space throws, as does a lack of memory. \<open>i\<close> is the address of
  the inner buffer.
\<close>

definition new_array :: "u64 \<Rightarrow> bool \<Rightarrow> u64 \<Rightarrow> store \<Rightarrow> store \<times> nat res" where
  "new_array sizeof ok len s =
     (if unat sizeof * unat len \<ge> 2 ^ 64 \<or> \<not> ok then (s, Inl Bad_alloc)
      else let (p, s) = allocate New_array (unat sizeof * unat len) s in (take_raw (Some p, s), Inr p))"

definition opaque_of_pointer :: "nat \<Rightarrow> nat \<Rightarrow> opaque_heap \<Rightarrow> opaque_heap" where
  "opaque_of_pointer x buff h = put_opaque x \<lparr>o_ptr = buff, o_buffer = Some buff\<rparr> h"

definition make_unique_opaque_buffer ::
    "u64 \<Rightarrow> bool \<Rightarrow> nat \<Rightarrow> nat \<Rightarrow> u64 \<Rightarrow> opaque_heap \<Rightarrow> opaque_heap \<times> unit res" where
  "make_unique_opaque_buffer sizeof ok x i len h =
     (case new_array sizeof ok len (inner h) of
        (s, Inl e) \<Rightarrow> (h\<lparr>inner := s\<rparr>, Inl e)
      | (s, Inr p) \<Rightarrow>
          (opaque_of_pointer x i (h\<lparr>inner := unique_from_pointer i (Some p) len (give p s), uses_of := (uses_of h)(i := 1)\<rparr>),
           Inr ()))"

definition make_shared_opaque_buffer ::
    "u64 \<Rightarrow> bool \<Rightarrow> nat \<Rightarrow> nat \<Rightarrow> u64 \<Rightarrow> opaque_heap \<Rightarrow> opaque_heap \<times> unit res" where
  "make_shared_opaque_buffer sizeof ok x i len h =
     (case new_array sizeof ok len (inner h) of
        (s, Inl e) \<Rightarrow> (h\<lparr>inner := s\<rparr>, Inl e)
      | (s, Inr p) \<Rightarrow>
          (opaque_of_pointer x i
             (h\<lparr>inner := shared_from_pointer Default_delete i (Some p) len (give p s), uses_of := (uses_of h)(i := 1)\<rparr>),
           Inr ()))"

text \<open>Moving copies the plain pointer and takes the smart one; only shared ones are copied.\<close>

definition opaque_move :: "nat \<Rightarrow> nat \<Rightarrow> opaque_heap \<Rightarrow> opaque_heap" where
  "opaque_move x y h = (let b = opaque_at h y in put_opaque x b (put_opaque y (b\<lparr>o_buffer := None\<rparr>) h))"

definition opaque_move_assign :: "opaque_kind \<Rightarrow> nat \<Rightarrow> nat \<Rightarrow> opaque_heap \<Rightarrow> opaque_heap" where
  "opaque_move_assign k x y h =
     (let b = opaque_at h y;
          h = put_opaque y (b\<lparr>o_buffer := None\<rparr>) h;
          old = o_buffer (opaque_at h x)
      in give_up k old (put_opaque x b h))"

definition opaque_copy :: "nat \<Rightarrow> nat \<Rightarrow> opaque_heap \<Rightarrow> opaque_heap" where
  "opaque_copy x y h = (let b = opaque_at h y in put_opaque x b (add_owner (o_buffer b) h))"

definition opaque_copy_assign :: "opaque_kind \<Rightarrow> nat \<Rightarrow> nat \<Rightarrow> opaque_heap \<Rightarrow> opaque_heap" where
  "opaque_copy_assign k x y h =
     (let b = opaque_at h y; h = add_owner (o_buffer b) h; old = o_buffer (opaque_at h x)
      in give_up k old (put_opaque x b h))"

definition opaque_destroy :: "opaque_kind \<Rightarrow> nat \<Rightarrow> opaque_heap \<Rightarrow> opaque_heap" where
  "opaque_destroy k x h = give_up k (o_buffer (opaque_at h x)) (h\<lparr>opaques := (opaques h)(x := None)\<rparr>)"

text \<open>\<open>release()\<close> leaves the plain pointer as it was.\<close>

definition opaque_release :: "nat \<Rightarrow> opaque_heap \<Rightarrow> nat option \<times> opaque_heap" where
  "opaque_release x h = (let b = opaque_at h x in (o_buffer b, put_opaque x (b\<lparr>o_buffer := None\<rparr>) h))"

text \<open>Every access goes through the plain pointer.\<close>

definition through :: "opaque_kind \<Rightarrow> nat \<Rightarrow> (nat \<Rightarrow> store \<Rightarrow> store) \<Rightarrow> opaque_heap \<Rightarrow> opaque_heap" where
  "through k x f h =
     (let i = o_ptr (opaque_at h x)
      in if has_inner k (inner h) i then h\<lparr>inner := f i (inner h)\<rparr> else h\<lparr>dangles := dangles h @ [i]\<rparr>)"

definition opaque_get :: "opaque_kind \<Rightarrow> nat \<Rightarrow> opaque_heap \<Rightarrow> opaque_heap \<times> nat option" where
  "opaque_get k x h =
     (through k x (\<lambda>i s. s) h,
      let i = o_ptr (opaque_at h x)
      in case k of Opaque_unique \<Rightarrow> u_ptr (unique (inner h) i) | Opaque_shared \<Rightarrow> s_ptr (shared (inner h) i))"

definition opaque_size :: "opaque_kind \<Rightarrow> nat \<Rightarrow> opaque_heap \<Rightarrow> opaque_heap \<times> u64" where
  "opaque_size k x h =
     (through k x (\<lambda>i s. s) h,
      let i = o_ptr (opaque_at h x)
      in case k of Opaque_unique \<Rightarrow> u_length (unique (inner h) i) | Opaque_shared \<Rightarrow> s_length (shared (inner h) i))"

definition opaque_reset :: "opaque_kind \<Rightarrow> nat \<Rightarrow> opaque_heap \<Rightarrow> opaque_heap" where
  "opaque_reset k x h =
     through k x (case k of Opaque_unique \<Rightarrow> unique_reset Default_delete | Opaque_shared \<Rightarrow> shared_reset) h"

definition opaque_reset_to :: "opaque_kind \<Rightarrow> nat \<Rightarrow> nat \<Rightarrow> u64 \<Rightarrow> opaque_heap \<Rightarrow> opaque_heap" where
  "opaque_reset_to k x p len h =
     through k x (\<lambda>i s. case k of
         Opaque_unique \<Rightarrow> unique_reset_to Default_delete i (Some p) len (give p s)
       | Opaque_shared \<Rightarrow> shared_reset_to i (Some p) len (give p s)) h"

section \<open>Programs\<close>

datatype opaque_op =
    Make_opaque bool nat nat u64 | Wrap_opaque nat nat | Move_opaque nat nat | Move_assign_opaque nat nat
  | Copy_opaque nat nat | Copy_assign_opaque nat nat | Destroy_opaque nat | Release_opaque nat
  | Get_opaque nat | Size_opaque nat | Reset_opaque nat | Reset_opaque_to nat nat u64 | New_raw nat

fun opaque_exec :: "opaque_kind \<Rightarrow> u64 \<Rightarrow> opaque_op \<Rightarrow> opaque_heap \<Rightarrow> opaque_heap option" where
  "opaque_exec k sizeof (Make_opaque ok x i len) h =
     guarded (\<not> has_opaque h x \<and> uses_of h i = 0 \<and> \<not> has_inner k (inner h) i)
       (fst (case k of Opaque_unique \<Rightarrow> make_unique_opaque_buffer sizeof ok x i len h
             | Opaque_shared \<Rightarrow> make_shared_opaque_buffer sizeof ok x i len h))"
| "opaque_exec k sizeof (Wrap_opaque x i) h =
     guarded (\<not> has_opaque h x \<and> loose h i > 0)
       (opaque_of_pointer x i (h\<lparr>loose := (loose h)(i := loose h i - 1)\<rparr>))"
| "opaque_exec k sizeof (Move_opaque x y) h = guarded (\<not> has_opaque h x \<and> has_opaque h y) (opaque_move x y h)"
| "opaque_exec k sizeof (Move_assign_opaque x y) h =
     guarded (has_opaque h x \<and> has_opaque h y) (opaque_move_assign k x y h)"
| "opaque_exec k sizeof (Copy_opaque x y) h =
     guarded (k = Opaque_shared \<and> \<not> has_opaque h x \<and> has_opaque h y) (opaque_copy x y h)"
| "opaque_exec k sizeof (Copy_assign_opaque x y) h =
     guarded (k = Opaque_shared \<and> has_opaque h x \<and> has_opaque h y) (opaque_copy_assign k x y h)"
| "opaque_exec k sizeof (Destroy_opaque x) h = guarded (has_opaque h x) (opaque_destroy k x h)"
| "opaque_exec k sizeof (Release_opaque x) h =
     guarded (k = Opaque_unique \<and> has_opaque h x)
       (case opaque_release x h of
          (None, h) \<Rightarrow> h
        | (Some i, h) \<Rightarrow> h\<lparr>loose := (loose h)(i := Suc (loose h i))\<rparr>)"
| "opaque_exec k sizeof (Get_opaque x) h = guarded (has_opaque h x) (fst (opaque_get k x h))"
| "opaque_exec k sizeof (Size_opaque x) h = guarded (has_opaque h x) (fst (opaque_size k x h))"
| "opaque_exec k sizeof (Reset_opaque x) h = guarded (has_opaque h x) (opaque_reset k x h)"
| "opaque_exec k sizeof (Reset_opaque_to x p len) h =
     guarded (has_opaque h x \<and> p \<in> raws (inner h)) (opaque_reset_to k x p len h)"
| "opaque_exec k sizeof (New_raw n) h =
     (case allocate New_array n (inner h) of (p, s) \<Rightarrow> Some (h\<lparr>inner := take_raw (Some p, s)\<rparr>))"

text \<open>
  A program that reads only opaque buffers that own what they point to, and that copies a unique one only
  by moving it.
\<close>

definition owning :: "nat \<Rightarrow> opaque_heap \<Rightarrow> bool" where
  "owning x h \<longleftrightarrow> has_opaque h x \<and> o_buffer (opaque_at h x) \<noteq> None"

fun careful :: "u64 \<Rightarrow> opaque_op \<Rightarrow> opaque_heap \<Rightarrow> bool" where
  "careful sizeof (Get_opaque x) h \<longleftrightarrow> owning x h"
| "careful sizeof (Size_opaque x) h \<longleftrightarrow> owning x h"
| "careful sizeof (Reset_opaque x) h \<longleftrightarrow> owning x h"
| "careful sizeof (Reset_opaque_to x p len) h \<longleftrightarrow> owning x h \<and> fits_in sizeof (inner h) (Some p) len"
| "careful sizeof ev h \<longleftrightarrow> True"

definition opaque_step :: "opaque_kind \<Rightarrow> u64 \<Rightarrow> opaque_heap \<Rightarrow> opaque_op \<Rightarrow> opaque_heap \<Rightarrow> bool" where
  "opaque_step k sizeof h ev h' \<longleftrightarrow> careful sizeof ev h \<and> opaque_exec k sizeof ev h = Some h'"

inductive opaque_init :: "opaque_heap \<Rightarrow> bool" where
  "opaque_init empty_opaque_heap"

section \<open>Who owns an inner buffer\<close>

definition owners :: "opaque_heap \<Rightarrow> nat \<Rightarrow> nat set" where
  "owners h i = {x. has_opaque h x \<and> o_buffer (opaque_at h x) = Some i}"

text \<open>\<open>extra\<close> counts the owners that are not opaque buffers. The inner buffers are those of a program.\<close>

definition opaque_inv :: "opaque_kind \<Rightarrow> u64 \<Rightarrow> (nat \<Rightarrow> nat) \<Rightarrow> opaque_heap \<Rightarrow> bool" where
  "opaque_inv k sizeof extra h \<longleftrightarrow>
     (\<forall>x i. x \<in> owners h i \<longrightarrow> o_ptr (opaque_at h x) = i) \<and>
     (\<forall>i. finite (owners h i) \<and> card (owners h i) + extra i = uses_of h i) \<and>
     (\<forall>i. has_inner k (inner h) i \<longleftrightarrow> uses_of h i > 0) \<and>
     reach buffer_init (buffer_step Default_delete sizeof) (inner h) \<and> dangles h = []"

definition owned_by :: "opaque_heap \<Rightarrow> nat \<Rightarrow> nat option" where
  "owned_by h x = (if has_opaque h x then o_buffer (opaque_at h x) else None)"

definition one :: "nat option \<Rightarrow> nat \<Rightarrow> nat" where
  "one p i = (if p = Some i then 1 else 0)"

lemma owners_put [simp]:
  "owners (put_opaque x b h) i = (if o_buffer b = Some i then insert x (owners h i) else owners h i - {x})"
  by (auto simp: owners_def put_opaque_def has_opaque_def)

lemma owners_frame [simp]:
  "owners (h\<lparr>inner := s\<rparr>) = owners h" "owners (h\<lparr>uses_of := u\<rparr>) = owners h" "owners (h\<lparr>loose := l\<rparr>) = owners h"
  "owners (h\<lparr>dangles := ds\<rparr>) = owners h" "owners (h\<lparr>opaques := (opaques h)(x := None)\<rparr>) i = owners h i - {x}"
  by (auto simp: owners_def has_opaque_def)

lemma has_inner_frames:
  "has_inner k (destroy_inner k i s) j \<longleftrightarrow> has_inner k s j \<and> j \<noteq> i"
  "has_inner k (s\<lparr>raws := r\<rparr>) j = has_inner k s j"
  "has_inner k (unique_from_pointer i p len s) j \<longleftrightarrow> has_inner k s j \<or> k = Opaque_unique \<and> j = i"
  "has_inner k (shared_from_pointer d i p len s) j \<longleftrightarrow> has_inner k s j \<or> k = Opaque_shared \<and> j = i"
  "has_inner k (take_raw (p, s)) j = has_inner k s j"
  "has_inner k (snd (allocate a n s)) j = has_inner k s j"
  by (cases k; auto simp: has_unique_def has_shared_def unique_destroy_def shared_destroy_def unique_from_pointer_def
      shared_from_pointer_def put_unique_def put_shared_def new_control_def take_raw_def allocate_def Let_def)+

lemma card_put:
  assumes "finite A"
  shows "card (insert x A) + (if x \<in> A then 1 else 0) = card A + 1"
    and "card (A - {x}) + (if x \<in> A then 1 else 0) = card A"
  using assms by (auto simp: card_insert_if card_gt_0_iff card_Suc_Diff1 intro!: Suc_pred)

lemma owners_owned_by: "x \<in> owners h i \<longleftrightarrow> owned_by h x = Some i"
  by (auto simp: owners_def owned_by_def)

text \<open>The smart pointer of an opaque buffer is replaced: it owned \<open>old\<close> and owns \<open>new\<close>.\<close>

lemma opaque_inv_put:
  assumes "opaque_inv k sizeof E h" and "\<And>i. o_buffer b = Some i \<Longrightarrow> o_ptr b = i"
    and "\<And>i. E' i + one (o_buffer b) i = E i + one (owned_by h x) i"
  shows "opaque_inv k sizeof E' (put_opaque x b h)"
proof -
  have c: "card (owners (put_opaque x b h) i) + E' i = uses_of h i" for i
  proof -
    have "finite (owners h i)" "card (owners h i) + E i = uses_of h i"
      using assms(1) by (auto simp: opaque_inv_def)
    then show ?thesis
      using card_put [of "owners h i" x] assms(3) [of i]
      by (auto simp: one_def owners_owned_by split: if_splits)
  qed
  have p: "o_ptr (opaque_at (put_opaque x b h) y) = i" if "y \<in> owners (put_opaque x b h) i" for y i
  proof -
    have at: "opaque_at (put_opaque x b h) y = (if y = x then b else opaque_at h y)" by (simp add: put_opaque_def)
    have "\<forall>x i. x \<in> owners h i \<longrightarrow> o_ptr (opaque_at h x) = i" using assms(1) by (simp add: opaque_inv_def)
    with that assms(2) show ?thesis unfolding at by (auto split: if_splits)
  qed
  have f: "finite (owners (put_opaque x b h) i)" for i
    using assms(1) by (simp add: opaque_inv_def)
  have u: "uses_of (put_opaque x b h) = uses_of h" "inner (put_opaque x b h) = inner h"
    "dangles (put_opaque x b h) = dangles h"
    by (simp_all add: put_opaque_def)
  show ?thesis
    using assms(1) p c f unfolding opaque_inv_def u by blast
qed

lemma opaque_inv_drop:
  assumes "opaque_inv k sizeof E h"
  shows "opaque_inv k sizeof (\<lambda>i. E i + one (owned_by h x) i) (h\<lparr>opaques := (opaques h)(x := None)\<rparr>)"
proof -
  have "card (owners h i - {x}) + (E i + one (owned_by h x) i) = uses_of h i" for i
  proof -
    have "finite (owners h i)" "card (owners h i) + E i = uses_of h i"
      using assms(1) by (auto simp: opaque_inv_def)
    then show ?thesis
      using card_put(2) [of "owners h i" x] by (auto simp: one_def owners_owned_by split: if_splits)
  qed
  then show ?thesis using assms by (auto simp: opaque_inv_def)
qed

lemma inner_destroyed:
  assumes "reach buffer_init (buffer_step Default_delete sizeof) s" and "has_inner k s i"
  shows "reach buffer_init (buffer_step Default_delete sizeof) (destroy_inner k i s)"
proof (cases k)
  case Opaque_unique
  then have "buffer_step Default_delete sizeof s (Destroy_unique i) (destroy_inner k i s)"
    using assms(2) by (simp add: buffer_step_def)
  with assms(1) show ?thesis by (rule reach_step)
next
  case Opaque_shared
  then have "buffer_step Default_delete sizeof s (Destroy_shared i) (destroy_inner k i s)"
    using assms(2) by (simp add: buffer_step_def)
  with assms(1) show ?thesis by (rule reach_step)
qed

lemma opaque_inv_give_up:
  assumes "opaque_inv k sizeof E h" and "\<And>i. E i = E' i + one p i"
  shows "opaque_inv k sizeof E' (give_up k p h)"
proof (cases p)
  case None
  then have "E' = E" using assms(2) by (auto simp: one_def)
  with None assms(1) show ?thesis by simp
next
  case (Some i)
  then have e: "E i = Suc (E' i)" "\<And>j. j \<noteq> i \<Longrightarrow> E j = E' j" using assms(2) by (simp_all add: one_def)
  have u: "card (owners h j) + E j = uses_of h j" "finite (owners h j)" for j
    using assms(1) by (auto simp: opaque_inv_def)
  then have pos: "uses_of h i > 0" using e(1) u(1) [of i] by simp
  then have "has_inner k (inner h) i" "reach buffer_init (buffer_step Default_delete sizeof) (inner h)"
    using assms(1) by (auto simp: opaque_inv_def)
  then have r: "reach buffer_init (buffer_step Default_delete sizeof) (destroy_inner k i (inner h))"
    by (rule inner_destroyed [rotated])
  have new: "card (owners h j) + E' j = ((uses_of h)(i := uses_of h i - 1)) j" for j
    using u(1) [of j] e by (cases "j = i") auto
  show ?thesis
  proof (cases "uses_of h i = 1")
    case True
    then show ?thesis
      using assms(1) Some new r by (auto simp: opaque_inv_def has_inner_frames)
  next
    case False
    then show ?thesis
      using assms(1) Some new pos by (auto simp: opaque_inv_def)
  qed
qed

lemma opaque_inv_add_owner:
  assumes "opaque_inv k sizeof E h" and "\<And>i. p = Some i \<Longrightarrow> uses_of h i > 0"
  shows "opaque_inv k sizeof (\<lambda>i. E i + one p i) (add_owner p h)"
  using assms by (cases p) (auto simp: opaque_inv_def one_def)

section \<open>Every operation keeps the ownership\<close>

lemma owned_ptr:
  assumes "opaque_inv k sizeof E h" and "owned_by h x = Some i"
  shows "o_ptr (opaque_at h x) = i" and "uses_of h i > 0"
proof -
  have x: "x \<in> owners h i" using assms(2) by (simp add: owners_owned_by)
  then show "o_ptr (opaque_at h x) = i" using assms(1) by (simp add: opaque_inv_def)
  have "finite (owners h i)" "card (owners h i) + E i = uses_of h i" using assms(1) by (auto simp: opaque_inv_def)
  moreover have "card (owners h i) > 0" using x calculation(1) by (auto simp: card_gt_0_iff)
  ultimately show "uses_of h i > 0" by simp
qed

lemma owned_by_simps [simp]:
  "owned_by (put_opaque x b h) y = (if y = x then o_buffer b else owned_by h y)"
  "owned_by (add_owner p h) y = owned_by h y"
  by (cases p; auto simp: owned_by_def has_opaque_def put_opaque_def)+

lemma owned_by_has: "has_opaque h x \<Longrightarrow> owned_by h x = o_buffer (opaque_at h x)"
  by (simp add: owned_by_def)

lemma not_owned: "\<not> has_opaque h x \<Longrightarrow> owned_by h x = None"
  by (simp add: owned_by_def)

lemma one_None [simp]: "one None i = 0"
  by (simp add: one_def)

lemma opaque_inv_taken:
  assumes "opaque_inv k sizeof E h" and "has_opaque h y"
  shows "opaque_inv k sizeof (\<lambda>i. E i + one (owned_by h y) i) (put_opaque y ((opaque_at h y)\<lparr>o_buffer := None\<rparr>) h)"
  by (rule opaque_inv_put [OF assms(1)]) simp_all

lemma keeps_opaque_move:
  assumes "opaque_inv k sizeof E h" and "\<not> has_opaque h x" and "has_opaque h y"
  shows "opaque_inv k sizeof E (opaque_move x y h)"
proof -
  have "x \<noteq> y" using assms(2,3) by auto
  then show ?thesis
    unfolding opaque_move_def Let_def
    by (intro opaque_inv_put [OF opaque_inv_taken [OF assms(1,3)]])
      (use assms owned_ptr(1) [OF assms(1), of y] in \<open>auto simp: owned_by_has not_owned\<close>)
qed

lemma keeps_opaque_move_assign:
  assumes "opaque_inv k sizeof E h" and "has_opaque h x" and "has_opaque h y"
  shows "opaque_inv k sizeof E (opaque_move_assign k x y h)"
proof -
  let ?h = "put_opaque y ((opaque_at h y)\<lparr>o_buffer := None\<rparr>) h"
  have x: "has_opaque ?h x" using assms(2) by (simp add: put_opaque_def has_opaque_def)
  have "opaque_inv k sizeof (\<lambda>i. E i + one (owned_by ?h x) i) (put_opaque x (opaque_at h y) ?h)"
    by (rule opaque_inv_put [OF opaque_inv_taken [OF assms(1,3)]])
      (use assms owned_ptr(1) [OF assms(1), of y] in \<open>auto simp: owned_by_has\<close>)
  then show ?thesis
    unfolding opaque_move_assign_def Let_def owned_by_has [OF x] by (rule opaque_inv_give_up) simp
qed

lemma add_owner_at [simp]: "opaque_at (add_owner p h) x = opaque_at h x" "has_opaque (add_owner p h) x = has_opaque h x"
  by (cases p; simp add: has_opaque_def)+

lemma opaque_inv_added:
  assumes "opaque_inv k sizeof E h" and "has_opaque h y"
  shows "opaque_inv k sizeof (\<lambda>i. E i + one (o_buffer (opaque_at h y)) i) (add_owner (o_buffer (opaque_at h y)) h)"
  by (rule opaque_inv_add_owner [OF assms(1)]) (rule owned_ptr(2) [OF assms(1), of y], simp add: owned_by_has assms(2))

lemma keeps_opaque_copy:
  assumes "opaque_inv k sizeof E h" and "\<not> has_opaque h x" and "has_opaque h y"
  shows "opaque_inv k sizeof E (opaque_copy x y h)"
  unfolding opaque_copy_def Let_def
  by (rule opaque_inv_put [OF opaque_inv_added [OF assms(1,3)]])
    (use assms owned_ptr(1) [OF assms(1), of y] in \<open>auto simp: owned_by_has not_owned\<close>)

lemma keeps_opaque_copy_assign:
  assumes "opaque_inv k sizeof E h" and "has_opaque h x" and "has_opaque h y"
  shows "opaque_inv k sizeof E (opaque_copy_assign k x y h)"
proof -
  let ?b = "opaque_at h y"
  have "opaque_inv k sizeof (\<lambda>i. E i + one (owned_by h x) i) (put_opaque x ?b (add_owner (o_buffer ?b) h))"
    by (rule opaque_inv_put [OF opaque_inv_added [OF assms(1,3)]])
      (use assms owned_ptr(1) [OF assms(1), of y] in \<open>auto simp: owned_by_has\<close>)
  then show ?thesis
    unfolding opaque_copy_assign_def Let_def add_owner_at owned_by_has [OF assms(2)]
    by (rule opaque_inv_give_up) simp
qed

lemma keeps_opaque_destroy:
  assumes "opaque_inv k sizeof E h" and "has_opaque h x"
  shows "opaque_inv k sizeof E (opaque_destroy k x h)"
  using opaque_inv_give_up [OF opaque_inv_drop [OF assms(1), of x]] assms(2)
  by (simp add: opaque_destroy_def owned_by_has)

text \<open>Access to the inner buffer of an owner, by an operation of the store that keeps its variables.\<close>

lemma keeps_through:
  assumes "opaque_inv k sizeof E h" and "owning x h"
    and "\<And>i s. has_inner k s i \<Longrightarrow> s = inner h \<Longrightarrow>
      (\<forall>j. has_inner k (f i s) j = has_inner k s j) \<and>
      (reach buffer_init (buffer_step Default_delete sizeof) s \<longrightarrow>
       reach buffer_init (buffer_step Default_delete sizeof) (f i s))"
  shows "opaque_inv k sizeof E (through k x f h)"
proof -
  obtain i where i: "owned_by h x = Some i" using assms(2) by (auto simp: owning_def owned_by_has)
  then have "has_inner k (inner h) i" using owned_ptr(2) [OF assms(1) i] assms(1) by (simp add: opaque_inv_def)
  with assms(3) [OF this refl] assms(1) owned_ptr(1) [OF assms(1) i] show ?thesis
    by (simp add: through_def Let_def opaque_inv_def)
qed

text \<open>What the inner operations are as steps of a program with buffers.\<close>

lemma reset_steps:
  "has_unique s i \<Longrightarrow> buffer_step Default_delete sizeof s (Reset_unique i) (unique_reset Default_delete i s)"
  "has_shared s i \<Longrightarrow> buffer_step Default_delete sizeof s (Reset_shared i) (shared_reset i s)"
  "has_unique s i \<Longrightarrow> p \<in> raws s \<Longrightarrow> fits_in sizeof s (Some p) len \<Longrightarrow>
     buffer_step Default_delete sizeof s (Reset_unique_to i p len) (unique_reset_to Default_delete i (Some p) len (give p s))"
  "has_shared s i \<Longrightarrow> p \<in> raws s \<Longrightarrow> fits_in sizeof s (Some p) len \<Longrightarrow>
     buffer_step Default_delete sizeof s (Reset_shared_to i p len) (shared_reset_to i (Some p) len (give p s))"
  by (simp_all add: buffer_step_def)

lemma reset_has_inner:
  "has_unique s i \<Longrightarrow> has_unique (unique_reset_to Default_delete i p len s) j = has_unique s j"
  "has_shared s i \<Longrightarrow> has_shared (shared_reset_to i p len s) j = has_shared s j"
  by (auto simp: unique_reset_to_def shared_reset_to_def put_unique_def put_shared_def has_unique_def
      has_shared_def new_control_def Let_def)+

lemma keeps_opaque_reset:
  assumes "opaque_inv k sizeof E h" and "owning x h"
  shows "opaque_inv k sizeof E (opaque_reset k x h)"
  unfolding opaque_reset_def
  by (rule keeps_through [OF assms])
    (cases k; auto simp: unique_reset_def [abs_def] shared_reset_def [abs_def] reset_has_inner
      intro: reach_step reset_steps(1,2) [unfolded unique_reset_def shared_reset_def])

lemma keeps_opaque_reset_to:
  assumes "opaque_inv k sizeof E h" and "owning x h" and "p \<in> raws (inner h)" and "fits_in sizeof (inner h) (Some p) len"
  shows "opaque_inv k sizeof E (opaque_reset_to k x p len h)"
  unfolding opaque_reset_to_def
  by (rule keeps_through [OF assms(1,2)])
    (use assms(3,4) in \<open>cases k; auto simp: reset_has_inner has_inner_frames intro: reach_step reset_steps(3,4)\<close>)

lemma keeps_through_id:
  "opaque_inv k sizeof E h \<Longrightarrow> owning x h \<Longrightarrow> opaque_inv k sizeof E (through k x (\<lambda>i s. s) h)"
  by (rule keeps_through) auto

lemma new_array_step:
  assumes "new_array sizeof ok len s = (s', Inr p)"
  shows "buffer_step Default_delete sizeof s (Alloc_raw (unat sizeof * unat len)) s'"
    and "p \<in> raws s'" and "fits_in sizeof s' (Some p) len" and "has_inner k s' j = has_inner k s j"
  using assms
  by (cases k; auto simp: new_array_def allocate_def buffer_step_def take_raw_def fits_in_def has_unique_def has_shared_def
      split: if_splits)+

lemma new_array_fails: "new_array sizeof ok len s = (s', Inl e) \<Longrightarrow> s' = s \<and> e = Bad_alloc"
  by (auto simp: new_array_def allocate_def split: if_splits prod.splits)

text \<open>A new inner buffer, owned by a new opaque one.\<close>

lemma keeps_opaque_new:
  assumes "opaque_inv k sizeof E h" and "\<not> has_opaque h x" and "uses_of h i = 0"
    and "reach buffer_init (buffer_step Default_delete sizeof) s"
    and "\<And>j. has_inner k s j \<longleftrightarrow> has_inner k (inner h) j \<or> j = i"
  shows "opaque_inv k sizeof E (opaque_of_pointer x i (h\<lparr>inner := s, uses_of := (uses_of h)(i := 1)\<rparr>))"
proof -
  let ?h = "h\<lparr>inner := s, uses_of := (uses_of h)(i := 1)\<rparr>"
  have u: "card (owners h j) + E j = uses_of h j" for j using assms(1) by (auto simp: opaque_inv_def)
  then have "card (owners h j) + (E j + one (Some i) j) = ((uses_of h)(i := 1)) j" for j
    using u [of j] assms(3) by (auto simp: one_def)
  then have "opaque_inv k sizeof (\<lambda>j. E j + one (Some i) j) ?h"
    using assms(1,4,5) by (auto simp: opaque_inv_def)
  then show ?thesis
    unfolding opaque_of_pointer_def
    by (rule opaque_inv_put) (use assms(2) in \<open>auto simp: owned_by_def has_opaque_def\<close>)
qed

lemma keeps_make_opaque:
  assumes "opaque_inv k sizeof E h" and "\<not> has_opaque h x" and "uses_of h i = 0"
  shows "k = Opaque_unique \<Longrightarrow> opaque_inv k sizeof E (fst (make_unique_opaque_buffer sizeof ok x i len h))"
    and "k = Opaque_shared \<Longrightarrow> opaque_inv k sizeof E (fst (make_shared_opaque_buffer sizeof ok x i len h))"
proof -
  obtain s r where n: "new_array sizeof ok len (inner h) = (s, r)" by fastforce
  have reach: "reach buffer_init (buffer_step Default_delete sizeof) (inner h)" and free: "\<not> has_inner k (inner h) i"
    using assms(1,3) by (auto simp: opaque_inv_def)
  show "opaque_inv k sizeof E (fst (make_unique_opaque_buffer sizeof ok x i len h))" if k: "k = Opaque_unique"
  proof (cases r)
    case (Inl e)
    then have "s = inner h" using new_array_fails [OF n [unfolded Inl]] by simp
    with Inl n assms(1) show ?thesis by (simp add: make_unique_opaque_buffer_def)
  next
    case (Inr p)
    note a = new_array_step [OF n [unfolded Inr]]
    have "buffer_step Default_delete sizeof s (Unique_of_raw i p len) (unique_from_pointer i (Some p) len (give p s))"
      using a(2,3) a(4) [of k i] free k by (simp add: buffer_step_def)
    with reach_step [OF reach a(1)] have "reach buffer_init (buffer_step Default_delete sizeof)
        (unique_from_pointer i (Some p) len (give p s))" by (rule reach_step)
    from keeps_opaque_new [OF assms this] show ?thesis
      using n Inr a(4) k by (simp add: make_unique_opaque_buffer_def has_inner_frames)
  qed
  show "opaque_inv k sizeof E (fst (make_shared_opaque_buffer sizeof ok x i len h))" if k: "k = Opaque_shared"
  proof (cases r)
    case (Inl e)
    then have "s = inner h" using new_array_fails [OF n [unfolded Inl]] by simp
    with Inl n assms(1) show ?thesis by (simp add: make_shared_opaque_buffer_def)
  next
    case (Inr p)
    note a = new_array_step [OF n [unfolded Inr]]
    have "buffer_step Default_delete sizeof s (Shared_of_raw i p len) (shared_from_pointer Default_delete i (Some p) len (give p s))"
      using a(2,3) a(4) [of k i] free k by (simp add: buffer_step_def)
    with reach_step [OF reach a(1)] have "reach buffer_init (buffer_step Default_delete sizeof)
        (shared_from_pointer Default_delete i (Some p) len (give p s))" by (rule reach_step)
    from keeps_opaque_new [OF assms this] show ?thesis
      using n Inr a(4) k by (simp add: make_shared_opaque_buffer_def has_inner_frames)
  qed
qed

section \<open>Programs\<close>

lemma opaque_inv_loose [simp]: "opaque_inv k sizeof E (h\<lparr>loose := l\<rparr>) = opaque_inv k sizeof E h"
  by (simp add: opaque_inv_def)

lemma opaque_loose_simps [simp]:
  "loose (put_opaque x b h) = loose h" "loose (give_up k p h) = loose h" "loose (add_owner q h) = loose h"
  "loose (through k x f h) = loose h"
  by (cases p; cases q; simp add: put_opaque_def through_def Let_def)+

lemma opaque_loose_ops [simp]:
  "loose (opaque_move x y h) = loose h" "loose (opaque_move_assign k x y h) = loose h"
  "loose (opaque_copy x y h) = loose h" "loose (opaque_copy_assign k x y h) = loose h"
  "loose (opaque_destroy k x h) = loose h" "loose (opaque_reset k x h) = loose h"
  "loose (opaque_reset_to k x p len h) = loose h"
  "loose (fst (make_unique_opaque_buffer sizeof ok x i n h)) = loose h"
  "loose (fst (make_shared_opaque_buffer sizeof ok x i n h)) = loose h"
  by (simp_all add: opaque_move_def opaque_move_assign_def opaque_copy_def opaque_copy_assign_def opaque_destroy_def
      opaque_reset_def opaque_reset_to_def make_unique_opaque_buffer_def make_shared_opaque_buffer_def
      opaque_of_pointer_def Let_def split: prod.splits sum.splits)

lemma keeps_opaque_release:
  assumes "opaque_inv k sizeof (loose h) h" and "has_opaque h x" and "opaque_release x h = (p, h')"
  shows "opaque_inv k sizeof (\<lambda>i. loose h i + one p i) h'" and "loose h' = loose h"
  using opaque_inv_taken [OF assms(1,2)] assms(2,3) by (auto simp: opaque_release_def Let_def owned_by_has)

lemma keeps_opaque_wrap:
  assumes "opaque_inv k sizeof (loose h) h" and "\<not> has_opaque h x" and "loose h i > 0"
  shows "opaque_inv k sizeof ((loose h)(i := loose h i - 1)) (opaque_of_pointer x i h)"
  unfolding opaque_of_pointer_def
  by (rule opaque_inv_put [OF assms(1)]) (use assms(2,3) in \<open>auto simp: not_owned one_def\<close>)

lemma opaque_inv_step:
  assumes "opaque_inv k sizeof (loose h) h" and "opaque_step k sizeof h ev h'"
  shows "opaque_inv k sizeof (loose h') h'"
proof -
  have step: "opaque_exec k sizeof ev h = Some h'" and ok: "careful sizeof ev h"
    using assms(2) by (auto simp: opaque_step_def)
  note inv = assms(1)
  show ?thesis
  proof (cases ev)
    case (Make_opaque succ x i len)
    then show ?thesis using step keeps_make_opaque [OF inv] by (cases k) auto
  next
    case (Wrap_opaque x i)
    then have "\<not> has_opaque h x" "loose h i > 0"
      and "h' = (opaque_of_pointer x i h)\<lparr>loose := (loose h)(i := loose h i - 1)\<rparr>"
      using step by (auto simp: opaque_of_pointer_def put_opaque_def)
    with keeps_opaque_wrap [OF inv, of x i] show ?thesis by simp
  next
    case (Move_opaque x y)
    then show ?thesis using step keeps_opaque_move [OF inv] by auto
  next
    case (Move_assign_opaque x y)
    then show ?thesis using step keeps_opaque_move_assign [OF inv] by auto
  next
    case (Copy_opaque x y)
    then show ?thesis using step keeps_opaque_copy [OF inv] by auto
  next
    case (Copy_assign_opaque x y)
    then show ?thesis using step keeps_opaque_copy_assign [OF inv] by auto
  next
    case (Destroy_opaque x)
    then show ?thesis using step keeps_opaque_destroy [OF inv] by auto
  next
    case (Release_opaque x)
    obtain p h1 where r: "opaque_release x h = (p, h1)" by fastforce
    have x: "has_opaque h x" and h': "h' = (case p of None \<Rightarrow> h1 | Some i \<Rightarrow> h1\<lparr>loose := (loose h1)(i := Suc (loose h1 i))\<rparr>)"
      using step Release_opaque r by (auto split: option.splits)
    note k = keeps_opaque_release [OF inv x r]
    show ?thesis
    proof (cases p)
      case None
      then show ?thesis using k h' by simp
    next
      case (Some i)
      have "(\<lambda>j. loose h j + one p j) = (loose h1)(i := Suc (loose h1 i))"
        using k(2) Some by (auto simp: one_def)
      then show ?thesis using k(1) h' Some by simp
    qed
  next
    case (Reset_opaque x)
    then show ?thesis using step ok keeps_opaque_reset [OF inv] by auto
  next
    case (Reset_opaque_to x p len)
    then show ?thesis using step ok keeps_opaque_reset_to [OF inv] by auto
  next
    case (Get_opaque x)
    then show ?thesis using step ok keeps_through_id [OF inv] by (auto simp: opaque_get_def)
  next
    case (Size_opaque x)
    then show ?thesis using step ok keeps_through_id [OF inv] by (auto simp: opaque_size_def)
  next
    case (New_raw n)
    obtain p s where a: "allocate New_array n (inner h) = (p, s)" by fastforce
    then have h': "h' = h\<lparr>inner := take_raw (Some p, s)\<rparr>" using step New_raw by simp
    have "buffer_step Default_delete sizeof (inner h) (Alloc_raw n) (take_raw (Some p, s))"
      using a by (simp add: buffer_step_def)
    moreover have "has_inner k (take_raw (Some p, s)) j = has_inner k (inner h) j" for j
      using has_inner_frames(6) [of k New_array n "inner h" j] a by (simp add: has_inner_frames)
    ultimately show ?thesis using inv unfolding h' by (auto simp: opaque_inv_def intro: reach_step)
  qed
qed

interpretation opaque_system: invariant_system opaque_init "opaque_step k sizeof"
    "\<lambda>h. opaque_inv k sizeof (loose h) h" for k sizeof
proof
  fix h
  assume "opaque_init h"
  then have h: "h = empty_opaque_heap" by (rule opaque_init.cases)
  have "reach buffer_init (buffer_step Default_delete sizeof) empty_store"
    by (intro reach_init buffer_init.intros)
  moreover have "\<not> has_inner k empty_store i" for i
    by (cases k) (simp_all add: empty_store_def has_unique_def has_shared_def)
  ultimately show "opaque_inv k sizeof (loose h) h"
    by (simp add: h empty_opaque_heap_def opaque_inv_def owners_def has_opaque_def)
qed (rule opaque_inv_step)

section \<open>Properties\<close>

text \<open>
  C27: Whatever a program does with opaque buffers, as long as it reaches into those only that own what they
  point to: no access and no deletion meets an inner buffer that is gone; what happens to the inner
  buffers is what a program with plain buffers could do, so no block is freed twice or by the wrong
  deallocator; an inner buffer lives exactly as long as somebody owns it, and when all opaque buffers
  and released pointers are gone, so are all inner buffers.
\<close>

theorem opaque_buffers_owned:
  assumes "reach opaque_init (opaque_step k sizeof) h"
  shows "dangles h = [] \<and> reach buffer_init (buffer_step Default_delete sizeof) (inner h) \<and> faults (inner h) = [] \<and>
    (\<forall>i. has_inner k (inner h) i \<longleftrightarrow> (\<exists>x. owned_by h x = Some i) \<or> loose h i > 0) \<and>
    (\<forall>x i. owned_by h x = Some i \<longrightarrow> o_ptr (opaque_at h x) = i)"
proof -
  have inv: "opaque_inv k sizeof (loose h) h" by (rule opaque_system.reach_inv [OF assms])
  then have r: "reach buffer_init (buffer_step Default_delete sizeof) (inner h)" by (simp add: opaque_inv_def)
  then have "program_inv Default_delete (inner h)" using buffer_system.reach_inv by blast
  then have f: "faults (inner h) = []" by (rule program_disjoint(8))
  have "has_inner k (inner h) i \<longleftrightarrow> (\<exists>x. owned_by h x = Some i) \<or> loose h i > 0" for i
  proof -
    have "finite (owners h i)" "card (owners h i) + loose h i = uses_of h i" "has_inner k (inner h) i \<longleftrightarrow> uses_of h i > 0"
      using inv by (auto simp: opaque_inv_def)
    moreover have "(\<exists>x. owned_by h x = Some i) \<longleftrightarrow> owners h i \<noteq> {}" using owners_owned_by by blast
    ultimately show ?thesis by (metis card_gt_0_iff gr0I add_gr_0)
  qed
  with inv r f owned_ptr(1) [OF inv] show ?thesis by (simp add: opaque_inv_def)
qed

definition next_opaque :: "opaque_kind \<Rightarrow> u64 \<Rightarrow> opaque_op \<Rightarrow> opaque_heap \<Rightarrow> opaque_heap option" where
  "next_opaque k sizeof ev h = (if careful sizeof ev h then opaque_exec k sizeof ev h else None)"

lemma opaque_reach_exec:
  "exec_run (next_opaque k sizeof) es empty_opaque_heap = Some h \<Longrightarrow> reach opaque_init (opaque_step k sizeof) h"
  by (rule reach_run [OF reach_init [of opaque_init, OF opaque_init.intros]])
    (rule exec_run_sound [of "next_opaque k sizeof"], auto simp: opaque_step_def next_opaque_def split: if_splits)

lemmas opaque_evaluation = buffer_evaluation next_opaque_def owning_def has_opaque_def put_opaque_def
  opaque_of_pointer_def make_unique_opaque_buffer_def make_shared_opaque_buffer_def new_array_def opaque_move_def
  opaque_copy_def opaque_destroy_def opaque_release_def opaque_get_def through_def empty_opaque_heap_def

text \<open>A shared opaque buffer of three elements, copied, read through the copy, and destroyed twice.\<close>

lemma opaque_buffers_owned_witness:
  "\<exists>h. reach opaque_init (opaque_step Opaque_shared 8) h \<and> next_block (inner h) = 1 \<and> dangles h = [] \<and>
     (\<forall>i. \<not> has_inner Opaque_shared (inner h) i)"
proof -
  let ?es = "[Make_opaque True 0 7 3, Copy_opaque 1 0, Destroy_opaque 0, Get_opaque 1, Destroy_opaque 1]"
  obtain h where h: "exec_run (next_opaque Opaque_shared 8) ?es empty_opaque_heap = Some h"
    "next_block (inner h) = 1" "opaques h = Map.empty" "loose h = (\<lambda>_. 0)"
    by (simp add: opaque_evaluation)
  have r: "reach opaque_init (opaque_step Opaque_shared 8) h" by (rule opaque_reach_exec [OF h(1)])
  have "owned_by h x = None" for x using h(3) by (simp add: owned_by_def has_opaque_def)
  with opaque_buffers_owned [OF r] h r show ?thesis by auto
qed

text \<open>
  The moves the compiler makes leave the plain pointer behind: a moved-from opaque buffer still gives
  access to the buffer of the one that took it, and to freed memory once that one is gone. So does one
  that was released.
\<close>

lemma moved_from_opaque_dangles:
  "\<exists>h. exec_run (opaque_exec Opaque_unique 8) [Make_opaque True 0 7 3, Move_opaque 1 0, Get_opaque 0] empty_opaque_heap
      = Some h \<and> dangles h = [] \<and> snd (opaque_get Opaque_unique 0 h) = snd (opaque_get Opaque_unique 1 h)"
  "\<exists>h. exec_run (opaque_exec Opaque_unique 8)
      [Make_opaque True 0 7 3, Move_opaque 1 0, Destroy_opaque 1, Get_opaque 0] empty_opaque_heap
      = Some h \<and> dangles h = [7]"
  by (simp_all add: opaque_evaluation)

end
