(* ===== verification/Destruction.thy ===== *)
theory Destruction
  imports Worker Timer FileWriter IoPool TcpServer SessionOwners
begin

text \<open>
  The destructors of the components with a thread: of \<open>worker\<close>, \<open>background_timer\<close>, \<open>AccurateSleeper\<close>,
  \<open>file_writer\<close>, \<open>asio_io_pool\<close>, \<open>tcp_server\<close> and \<open>tcp_client\<close>.

  A destructor asks for a stop and then waits, which other threads interleave with: its first part
  gives the state in which it starts to wait, or \<open>None\<close> when it ends the program; its last part gives the
  state that is destroyed, or \<open>None\<close> while it blocks. Nobody else calls the object in the meantime
  except from its own callbacks. The locale \<open>destruction\<close> is what all of them promise.
\<close>

section \<open>The contract\<close>

locale destruction = invariant_system init step inv
  for init :: "'s \<Rightarrow> bool" and step :: "'s \<Rightarrow> 'e \<Rightarrow> 's \<Rightarrow> bool" and inv :: "'s \<Rightarrow> bool" +
  fixes first_part :: "'s \<Rightarrow> 's option"
    and last_part :: "'s \<Rightarrow> 's option"
    and quiet :: "'s \<Rightarrow> bool"
  assumes first_part_inv: "inv s \<Longrightarrow> first_part s = Some s' \<Longrightarrow> inv s'"
    and last_part_quiet: "inv s \<Longrightarrow> last_part s = Some s' \<Longrightarrow> quiet s'"
begin

text \<open>Whatever happens while the destructor waits, nothing of the object is active when it is gone.\<close>

lemma destroyed_quiet:
  assumes "reach init step s" and "first_part s = Some t" and "run step t es u" and "last_part u = Some v"
  shows "quiet v"
  using run_inv [OF assms(3) first_part_inv [OF reach_inv [OF assms(1)] assms(2)]] last_part_quiet assms(4)
  by blast

end

section \<open>worker\<close>

definition worker_destroy :: "thread \<Rightarrow> worker \<Rightarrow> worker option" where
  "worker_destroy caller w = (if m_thread_id w = Some caller then None else Some (request_stop w))"

definition worker_destroy_wait :: "thread \<Rightarrow> worker \<Rightarrow> worker option" where
  "worker_destroy_wait caller w =
     (case wait_for_stop caller w of Some (w', Inr _) \<Rightarrow> Some w' | _ \<Rightarrow> None)"

interpretation worker_destruction: destruction worker_init worker_step thread_inv
    "worker_destroy caller" "worker_destroy_wait caller" "\<lambda>w. pc w = No_thread \<and> m_thread_id w = None" for caller
proof unfold_locales
  fix w w' assume "thread_inv w" "worker_destroy caller w = Some w'"
  then show "thread_inv w'"
    by (auto simp: worker_destroy_def request_stop_def request_stop_store_def notify_due_def notify_def split: if_splits)
next
  fix w w' assume "thread_inv w" "worker_destroy_wait caller w = Some w'"
  then show "pc w' = No_thread \<and> m_thread_id w' = None"
    by (auto simp: worker_destroy_wait_def wait_for_stop_def thread_inv_def split: if_splits)
qed

section \<open>background_timer and AccurateSleeper\<close>

definition timer_destroy :: "bool \<Rightarrow> timer \<Rightarrow> timer option" where
  "timer_destroy own_thread t =
     (let t = timer_request_stop t
      in case timer_wait_for_stop own_thread t of Some (Inl _) \<Rightarrow> None | _ \<Rightarrow> Some t)"

definition timer_destroy_wait :: "bool \<Rightarrow> timer \<Rightarrow> timer option" where
  "timer_destroy_wait own_thread t =
     (case timer_wait_for_stop own_thread t of
        Some (Inr _) \<Rightarrow> Some (t\<lparr>timer_pc := T_none\<rparr>)
      | _ \<Rightarrow> None)"

text \<open>An exception leaves the destructor, which ends the program.\<close>

definition sleeper_destroy :: "bool \<Rightarrow> bool \<Rightarrow> sleeper \<Rightarrow> sleeper option" where
  "sleeper_destroy set_ok esrch s =
     (case disable_realtime set_ok esrch s of (_, Inl _) \<Rightarrow> None | (s', Inr _) \<Rightarrow> Some s')"

text \<open>When the timer is gone the callbacks of its last run are complete.\<close>

interpretation timer_destruction: destruction timer_init timer_step timer_inv
    "timer_destroy own" "timer_destroy_wait own"
    "\<lambda>t. timer_pc t = T_none \<and> (\<exists>n. calls_at T_none t n \<or> calls_at T_finished t n)" for own
proof unfold_locales
  fix t t' assume inv: "timer_inv t" and d: "timer_destroy own t = Some t'"
  have "timer_step t Tm_requests_stop (timer_request_stop t)" by (simp add: timer_step_def)
  then have "timer_inv (timer_request_stop t)" by (rule timer_inv_step [OF inv])
  then show "timer_inv t'"
    using d by (auto simp: timer_destroy_def Let_def split: option.splits sum.splits)
next
  fix t t' assume "timer_inv t" and "timer_destroy_wait own t = Some t'"
  then show "timer_pc t' = T_none \<and> (\<exists>n. calls_at T_none t' n \<or> calls_at T_finished t' n)"
    by (cases "timer_pc t")
      (auto simp: timer_destroy_wait_def timer_wait_for_stop_def timer_inv_def split: if_splits)
qed

text \<open>A policy that cannot be set back ends the program; otherwise the thread has its old one.\<close>

lemma sleeper_destroy_spec:
  "sleeper_destroy set_ok esrch s = None \<longleftrightarrow> m_realtime_enabled s \<and> \<not> set_ok \<and> \<not> esrch"
  "sleeper_destroy True esrch s = Some s' \<Longrightarrow> m_realtime_enabled s \<Longrightarrow>
     thread_policy s' = the (m_previous_policy s) \<and> \<not> m_realtime_enabled s'"
  by (auto simp: sleeper_destroy_def disable_realtime_def)

section \<open>file_writer\<close>

text \<open>\<open>stop()\<close>; joining the own thread throws. A writer that does not run has nothing to wait for.\<close>

definition file_writer_destroy :: "bool \<Rightarrow> file_writer \<Rightarrow> file_writer option" where
  "file_writer_destroy own_thread w =
     (if writer_is_running w \<and> own_thread then None
      else if FileWriter.stopper w = St_none then Some (stop_request w) else Some w)"

definition file_writer_destroy_wait :: "file_writer \<Rightarrow> file_writer option" where
  "file_writer_destroy_wait w =
     (if \<not> writer_is_running w then Some w
      else if FileWriter.stopper w = St_join \<and> thread_pc w = Wr_finished then Some (stop_joined w) else None)"

text \<open>
  A join leaves the file as the thread left it, which is everything accepted before unless the stream
  or the callback failed.
\<close>

lemma joined_file_flushed:
  assumes "writer_inv w" and "thread_pc w = Wr_finished" and "errors w = 0" and "file_good w"
    and "accepted_at_stop w = Some a"
  shows "prefix a (contents (stop_joined w))"
  using assms by (simp add: writer_inv_def cover_inv_def stop_joined_def)

interpretation file_writer_destruction: destruction writer_init writer_step writer_inv
    "file_writer_destroy own" file_writer_destroy_wait "\<lambda>w. thread_pc w = Wr_none" for own
proof unfold_locales
  fix w w' assume inv: "writer_inv w" and d: "file_writer_destroy own w = Some w'"
  have "writer_step w Stop_requests (stop_request w)" if "FileWriter.stopper w = St_none"
    using that by (simp add: writer_step_def guarded_def)
  then show "writer_inv w'"
    using d inv writer_system.inv_step by (auto simp: file_writer_destroy_def split: if_splits)
next
  fix w w' assume "writer_inv w" and "file_writer_destroy_wait w = Some w'"
  then show "thread_pc w' = Wr_none"
    by (auto simp: file_writer_destroy_wait_def writer_is_running_def stop_joined_def split: if_splits)
qed

section \<open>asio_io_pool\<close>

text \<open>
  \<open>stop_async()\<close> enters when the mutex is free; the rest of it are steps of the pool. In the stopped
  callback \<open>wait_for_stop()\<close> returns at once and the member \<open>m_cb_thread\<close> joins its own thread.
\<close>

definition pool_destroy :: "bool \<Rightarrow> io_pool \<Rightarrow> io_pool option" where
  "pool_destroy in_stopped_callback p =
     (if in_stopped_callback then None else guarded (m_mutex p = Free) (pool_stop_enter Outside p))"

definition pool_destroy_wait :: "io_pool \<Rightarrow> io_pool option" where
  "pool_destroy_wait p = guarded (m_mutex p = Free \<and> pool_wait_for_stop False p) p"

interpretation pool_destruction: destruction pool_init pool_step pool_inv "pool_destroy cb" pool_destroy_wait
    "\<lambda>p. m_workers p = [] \<and> monitor p = No_monitor \<and> \<not> m_guard p" for cb
proof unfold_locales
  fix p p' assume inv: "pool_inv p" and d: "pool_destroy cb p = Some p'"
  then have "pool_step p Calls_stop p'"
    by (auto simp: pool_destroy_def pool_step_def guarded_def split: if_splits)
  then show "pool_inv p'" by (rule pool_system.inv_step [OF inv])
next
  fix p p' assume "pool_inv p" and "pool_destroy_wait p = Some p'"
  then show "m_workers p' = [] \<and> monitor p' = No_monitor \<and> \<not> m_guard p'"
    by (cases "monitor p")
      (auto simp: pool_destroy_wait_def pool_wait_for_stop_def pool_inv_def guarded_def split: if_splits)
qed

lemma pool_destroyed:
  assumes "reach pool_init pool_step p" and "pool_destroy cb p = Some q" and "run pool_step q es r"
    and "pool_destroy_wait r = Some r'"
  shows "m_workers r' = [] \<and> monitor r' = No_monitor \<and> \<not> m_guard r'"
  by (rule pool_destruction.destroyed_quiet [OF assms])

section \<open>tcp_server\<close>

text \<open>\<open>spawned\<close>: the stopping thread could be created.\<close>

definition server_destroy :: "bool \<Rightarrow> bool \<Rightarrow> server \<Rightarrow> server option" where
  "server_destroy running_in_callback_thread spawned s =
     (if running_in_callback_thread then None
      else if \<not> m_stop_in_operation s \<and> \<not> spawned then None
      else Some (server_stop_async s))"

text \<open>Joining the stopping thread, if there is one.\<close>

definition server_destroy_wait :: "server \<Rightarrow> server option" where
  "server_destroy_wait s = guarded (m_stop_in_operation s \<and> stopper s \<in> {No_stop, Stop_done}) s"

definition server_future_get_once :: "bool \<Rightarrow> server \<Rightarrow> unit res option" where
  "server_future_get_once running_in_callback_thread s =
     (if running_in_callback_thread then Some (Inl Logic_error)
      else if m_context s = No_context then Some (Inr ())
      else guarded (m_context s \<noteq> Context_running \<and> \<not> server.m_running s) (Inr ()))"

text \<open>Without a stopping thread a server that has been told to stop has never been started.\<close>

definition stopped_inv :: "server \<Rightarrow> bool" where
  "stopped_inv s \<longleftrightarrow> server_inv s \<and>
     (m_stop_in_operation s \<and> stopper s = No_stop \<longrightarrow> \<not> server.m_running s)"

lemma server_running_frame:
  assumes "server_step posix s e s'"
  shows "(m_stop_in_operation s' \<and> stopper s' = No_stop \<longrightarrow> \<not> server.m_running s') \<or>
    m_stop_in_operation s' = m_stop_in_operation s \<and> stopper s' = stopper s \<and> server.m_running s' = server.m_running s"
  using assms
proof (induct rule: server_step.induct)
  case (server_starts binds cb r s s')
  then show ?case by (auto simp: server_start_def Let_def split: if_splits prod.splits sum.splits)
next
  case (server_start_fails binds cb r s s' e)
  then show ?case by (auto simp: server_start_def Let_def split: if_splits prod.splits sum.splits)
qed (auto simp: server_defs split: sum.splits bool.splits)

interpretation server_stopped: invariant_system server_init "server_step posix" stopped_inv for posix
proof unfold_locales
  show "stopped_inv s" if "server_init s" for s
  proof -
    have "\<not> server.m_running s" using that by (auto elim!: server_init.cases simp: new_server_def)
    with server_inv_init [OF that] show ?thesis by (simp only: stopped_inv_def simp_thms)
  qed
  show "stopped_inv s'" if "stopped_inv s" and "server_step posix s e s'" for s e s'
  proof -
    have "server_inv s" using that(1) by (simp only: stopped_inv_def)
    then have "server_inv s'" using that(2) by (rule server_inv_step)
    then show ?thesis
      using that(1) server_running_frame [OF that(2)] by (auto simp only: stopped_inv_def)
  qed
qed

text \<open>
  A destroyed server has no listener, no session and no running pool: the destructor does not return
  before everything that uses the object is over.
\<close>

interpretation server_destruction: destruction server_init "server_step posix" stopped_inv
    "server_destroy in_callback spawned" server_destroy_wait
    "\<lambda>s. \<not> server.m_running s \<and> all_done (listeners s) \<and> m_sessions s = {} \<and> m_context s \<noteq> Context_running"
  for posix in_callback spawned
proof unfold_locales
  fix s s' assume inv: "stopped_inv s" and d: "server_destroy in_callback spawned s = Some s'"
  have "server_step posix s server_event.Stop_async (server_stop_async s)" by (rule server_step.stop_asyncs)
  then show "stopped_inv s'"
    using d server_stopped.inv_step [OF inv] by (auto simp: server_destroy_def split: if_splits)
next
  fix s s' assume inv: "stopped_inv s" and "server_destroy_wait s = Some s'"
  then have s: "s' = s" "m_stop_in_operation s" "stopper s \<in> {No_stop, Stop_done}"
    by (auto simp: server_destroy_wait_def guarded_def split: if_splits)
  with inv have "\<not> server.m_running s" by (auto simp: stopped_inv_def server_inv_def)
  with inv s(1) idle_tables [of s]
  show "\<not> server.m_running s' \<and> all_done (listeners s') \<and> m_sessions s' = {} \<and> m_context s' \<noteq> Context_running"
    by (auto simp: stopped_inv_def server_inv_def)
qed

lemma server_destroyed:
  assumes "reach server_init (server_step posix) s" and "server_destroy cb spawned s = Some t"
    and "run (server_step posix) t es u" and "server_destroy_wait u = Some v"
  shows "\<not> server.m_running v \<and> all_done (listeners v) \<and> m_sessions v = {} \<and> m_context v \<noteq> Context_running"
  by (rule server_destruction.destroyed_quiet [OF assms])

lemma server_future_waits:
  assumes "reach server_init (server_step posix) s" and "server_future_get_once False s = Some r"
  shows "r = Inr () \<and> m_context s \<noteq> Context_running"
  using assms(2) by (auto simp: server_future_get_once_def guarded_def split: if_splits)

section \<open>tcp_client\<close>

text \<open>In a thread of the pool the destructor does not wait for the session.\<close>

definition tcp_client_destroy :: "bool \<Rightarrow> tcp_client \<Rightarrow> tcp_client option" where
  "tcp_client_destroy in_pool_thread c =
     (case m_session c of
        None \<Rightarrow> Some c
      | Some s \<Rightarrow>
          if has_context c \<and> in_pool_thread then Some (c\<lparr>m_session := Some (stop_async s)\<rparr>)
          else Some (disconnect_begin in_pool_thread c))"

definition tcp_client_destroy_wait :: "bool \<Rightarrow> tcp_client \<Rightarrow> tcp_client option" where
  "tcp_client_destroy_wait in_pool_thread c =
     (case m_session c of
        None \<Rightarrow> Some c
      | Some s \<Rightarrow> guarded (has_context c \<and> in_pool_thread \<or> session.m_state s = Stopped) c)"

text \<open>The session that may outlive the client will end: it does not accept a write any more.\<close>

lemma tcp_client_destroyed:
  assumes "reach client_init client_step c" and "client_pc c = K_idle" and "m_session c = Some s"
    and "tcp_client_destroy in_pool c = Some c'"
  shows "m_session c' = Some (stop_async s) \<and> session_write msg (stop_async s) = (stop_async s, Inl Runtime_error)"
proof -
  have "has_context c" using client_system.reach_inv [OF assms(1)] assms(3) by (simp add: client_inv_def)
  then show ?thesis
    using assms(3,4) by (cases in_pool) (auto simp: tcp_client_destroy_def disconnect_begin_def session_write_def)
qed

lemma tcp_client_destroy_waits:
  "tcp_client_destroy_wait False c = Some c' \<Longrightarrow> m_session c' = Some s \<Longrightarrow> session.m_state s = Stopped"
  by (auto simp: tcp_client_destroy_wait_def guarded_def split: option.splits if_splits)

end
