(* ===== verification/Zstd.thy ===== *)
theory Zstd
  imports Buffers
begin

text \<open>
  Compression: \<open>common/include/sg/compression_zstd.h\<close>, \<open>common/src/compression_zstd.cpp\<close>.

  The zstd library is a parameter, the record \<open>zstd_api\<close>: what the functions the code calls return, with
  \<open>None\<close> for an error code. \<open>zstd_documented\<close> states what the library documents of them. The buffers
  live in the heap of theory \<open>Buffers\<close>, so that the theorems also say what is left allocated; what they
  hold is returned beside the pointer.
\<close>

section \<open>The library\<close>

datatype content_size = Content_error | Content_unknown | Content_size u64

record zstd_api =
  create_context :: bool
  set_parameter_ok :: "int \<Rightarrow> int \<Rightarrow> bool"
  compress_bound :: "nat \<Rightarrow> nat option"
  compress2 :: "int \<Rightarrow> int \<Rightarrow> byte list \<Rightarrow> nat \<Rightarrow> byte list option"
  frame_content_size :: "byte list \<Rightarrow> content_size"
  decompress_dctx :: "byte list \<Rightarrow> nat \<Rightarrow> byte list option"

text \<open>
  A frame is not empty, fits the capacity given, records the size of its contents, and decompresses
  into any capacity of at least that size.
\<close>

definition zstd_documented :: "zstd_api \<Rightarrow> bool" where
  "zstd_documented z \<longleftrightarrow>
     (\<forall>threads level src cap out. compress2 z threads level src cap = Some out \<longrightarrow>
        out \<noteq> [] \<and> length out \<le> cap \<and> frame_content_size z out = Content_size (of_nat (length src)) \<and>
        (\<forall>dst \<ge> length src. decompress_dctx z out dst = Some src))"

section \<open>Compression\<close>

definition get_max_compressed_size :: "zstd_api \<Rightarrow> nat \<Rightarrow> u64 res" where
  "get_max_compressed_size z src_size =
     (case compress_bound z src_size of None \<Rightarrow> Inl Runtime_error | Some n \<Rightarrow> Inr (of_nat n))"

text \<open>Into a buffer of \<open>dstSize\<close> bytes: what is written there.\<close>

definition zstd_compress_into ::
    "zstd_api \<Rightarrow> int \<Rightarrow> int \<Rightarrow> byte list \<Rightarrow> u64 \<Rightarrow> byte list res" where
  "zstd_compress_into z cLevel noThreads src dstSize =
     (if \<not> create_context z then Inl Bad_alloc
      else if \<not> set_parameter_ok z noThreads cLevel then Inl Runtime_error
      else case compress2 z noThreads cLevel src (unat dstSize) of
          None \<Rightarrow> Inl Runtime_error | Some out \<Rightarrow> Inr out)"

text \<open>
  \<open>ok\<close> and \<open>ok'\<close> say whether the system has the memory for the intermediate buffer and for shrinking it.
  An exception destroys the intermediate buffer; once it is released, shrinking frees it on failure.
\<close>

definition zstd_compress ::
    "bool \<Rightarrow> bool \<Rightarrow> zstd_api \<Rightarrow> int \<Rightarrow> int \<Rightarrow> byte list \<Rightarrow> heap \<Rightarrow> heap \<times> (nat \<times> byte list) res" where
  "zstd_compress ok ok' z compressionLevel noThreads src h =
     (case get_max_compressed_size z (length src) of
        Inl e \<Rightarrow> (h, Inl e)
      | Inr cBuffSize \<Rightarrow>
        (case malloc_or_throw ok cBuffSize h of
           (h, Inl e) \<Rightarrow> (h, Inl e)
         | (h, Inr cBuff) \<Rightarrow>
           (case zstd_compress_into z compressionLevel noThreads src cBuffSize of
              Inl e \<Rightarrow> (deallocate Malloc (Some cBuff) h, Inl e)
            | Inr out \<Rightarrow>
              (case realloc_or_free_and_throw ok' (Some cBuff) (of_nat (length out)) h of
                 (h, Inl e) \<Rightarrow> (h, Inl e)
               | (h, Inr newPtr) \<Rightarrow> (h, Inr (newPtr, out))))))"

section \<open>Decompression\<close>

definition get_uncompressed_size :: "zstd_api \<Rightarrow> byte list \<Rightarrow> u64 res" where
  "get_uncompressed_size z src =
     (case frame_content_size z src of
        Content_error \<Rightarrow> Inl Runtime_error
      | Content_unknown \<Rightarrow> Inl Runtime_error
      | Content_size n \<Rightarrow> Inr n)"

definition zstd_decompress_into :: "zstd_api \<Rightarrow> byte list \<Rightarrow> u64 \<Rightarrow> byte list res" where
  "zstd_decompress_into z src uncompressedSize =
     (case decompress_dctx z src (unat uncompressedSize) of
        None \<Rightarrow> Inl Runtime_error | Some out \<Rightarrow> Inr out)"

text \<open>The result is the pointer, the size of the buffer and the bytes written to it.\<close>

definition zstd_decompress ::
    "bool \<Rightarrow> zstd_api \<Rightarrow> byte list \<Rightarrow> heap \<Rightarrow> heap \<times> (nat \<times> u64 \<times> byte list) res" where
  "zstd_decompress ok z src h =
     (case get_uncompressed_size z src of
        Inl e \<Rightarrow> (h, Inl e)
      | Inr unCompressedSize \<Rightarrow>
        (case malloc_or_throw ok unCompressedSize h of
           (h, Inl e) \<Rightarrow> (h, Inl e)
         | (h, Inr output) \<Rightarrow>
           (case zstd_decompress_into z src unCompressedSize of
              Inl e \<Rightarrow> (deallocate Malloc (Some output) h, Inl e)
            | Inr out \<Rightarrow> (h, Inr (output, unCompressedSize, out)))))"

text \<open>As elements of another type: the remainder is left out of the count.\<close>

definition zstd_decompress_as ::
    "u64 \<Rightarrow> bool \<Rightarrow> zstd_api \<Rightarrow> byte list \<Rightarrow> heap \<Rightarrow> heap \<times> (nat \<times> u64 \<times> byte list) res" where
  "zstd_decompress_as sizeof ok z src h =
     (case zstd_decompress ok z src h of
        (h, Inl e) \<Rightarrow> (h, Inl e)
      | (h, Inr (ptr, count, out)) \<Rightarrow> (h, Inr (ptr, count div sizeof, out)))"

section \<open>Nothing leaks, and what was compressed comes back\<close>

lemma malloc_cases:
  assumes "malloc_or_throw ok n h = (h', r)"
  shows "r = Inl Bad_alloc \<and> h' = h \<or>
    (\<exists>p. r = Inr p \<and> p = next_block h \<and> n \<noteq> 0 \<and> ok \<and> live h' = (live h)(p \<mapsto> (Malloc, unat n)) \<and>
       next_block h' = Suc p \<and> faults h' = faults h)"
  using assms by (auto simp: malloc_or_throw_def allocate_def split: if_splits)

lemma fresh_deallocated:
  assumes "live h p = None" and "live h' = (live h)(p \<mapsto> (Malloc, n))" and "faults h' = faults h"
  shows "live (deallocate Malloc (Some p) h') = live h \<and> faults (deallocate Malloc (Some p) h') = faults h"
  using assms by (simp add: fun_upd_idem)

lemma realloc_shrinks:
  assumes "live h p = None" and "live h' = (live h)(p \<mapsto> (Malloc, n))" and "faults h' = faults h"
    and "realloc_or_free_and_throw ok (Some p) m h' = (h'', r)"
  shows "faults h'' = faults h \<and>
    (case r of Inl e \<Rightarrow> live h'' = live h \<and> (m = 0 \<or> \<not> ok)
     | Inr q \<Rightarrow> live h'' = (live h)(q \<mapsto> (Malloc, unat m)) \<and> m \<noteq> 0 \<and> ok)"
proof -
  have "live h' p = Some (Malloc, n)" using assms(2) by simp
  from realloc_consumes [OF this, of m ok] have "faults h'' = faults h'"
    "case r of Inl e \<Rightarrow> live h'' = (live h')(p := None)
      | Inr q \<Rightarrow> live h'' = ((live h')(p := None))(q \<mapsto> (Malloc, unat m))"
    using assms(4) by (auto split: sum.splits)
  moreover have "(live h')(p := None) = live h" using assms(1,2) by (simp add: fun_upd_idem)
  ultimately show ?thesis
    using assms(3,4) by (auto simp: realloc_or_free_and_throw_def split: sum.splits if_splits prod.splits)
qed

text \<open>
  Whatever fails, \<open>compress\<close> and \<open>decompress\<close> leave nothing allocated; when they succeed the result is the
  only new block, of the size of the result.
\<close>

lemma compress_no_leak:
  assumes "zstd_compress ok ok' z level threads src h = (h', r)" and "live h (next_block h) = None"
  shows "faults h' = faults h \<and>
    (case r of Inl e \<Rightarrow> live h' = live h
     | Inr (p, out) \<Rightarrow> live h' = (live h)(p \<mapsto> (Malloc, unat (of_nat (length out) :: u64))))"
proof (cases "get_max_compressed_size z (length src)")
  case (Inl e)
  then show ?thesis using assms(1) by (auto simp: zstd_compress_def)
next
  case (Inr n)
  obtain h1 r1 where m: "malloc_or_throw ok n h = (h1, r1)" by fastforce
  show ?thesis
  proof (cases r1)
    case (Inl e)
    then show ?thesis using assms(1) malloc_cases [OF m] by (auto simp: zstd_compress_def Inr m)
  next
    case p: (Inr p)
    then have h1: "live h p = None" "live h1 = (live h)(p \<mapsto> (Malloc, unat n))" "faults h1 = faults h"
      using malloc_cases [OF m] assms(2) by auto
    show ?thesis
    proof (cases "zstd_compress_into z level threads src n")
      case (Inl e)
      then show ?thesis using assms(1) fresh_deallocated [OF h1]
        by (auto simp: zstd_compress_def Inr m p simp del: deallocate.simps)
    next
      case out: (Inr out)
      obtain h2 r2 where re: "realloc_or_free_and_throw ok' (Some p) (of_nat (length out)) h1 = (h2, r2)" by fastforce
      show ?thesis using assms(1) re realloc_shrinks [OF h1 re]
        by (cases r2) (auto simp: zstd_compress_def Inr m p out)
    qed
  qed
qed

lemma decompress_no_leak:
  assumes "zstd_decompress ok z src h = (h', r)" and "live h (next_block h) = None"
  shows "faults h' = faults h \<and>
    (case r of Inl e \<Rightarrow> live h' = live h | Inr (p, n, out) \<Rightarrow> live h' = (live h)(p \<mapsto> (Malloc, unat n)))"
proof (cases "get_uncompressed_size z src")
  case (Inl e)
  then show ?thesis using assms(1) by (auto simp: zstd_decompress_def)
next
  case (Inr n)
  obtain h1 r1 where m: "malloc_or_throw ok n h = (h1, r1)" by fastforce
  show ?thesis
  proof (cases r1)
    case (Inl e)
    then show ?thesis using assms(1) malloc_cases [OF m] by (auto simp: zstd_decompress_def Inr m)
  next
    case p: (Inr p)
    then have h1: "live h p = None" "live h1 = (live h)(p \<mapsto> (Malloc, unat n))" "faults h1 = faults h"
      using malloc_cases [OF m] assms(2) by auto
    then show ?thesis using assms(1) fresh_deallocated [OF h1]
      by (cases "zstd_decompress_into z src n")
        (auto simp: zstd_decompress_def Inr m p simp del: deallocate.simps)
  qed
qed

text \<open>
  Compressing and decompressing gives the data back, whatever level and number of threads, with the
  library as documented, memory available, and data that is not empty and shorter than \<open>2 ^ 64\<close> bytes.
\<close>

lemma zstd_roundtrip:
  assumes "zstd_documented z" and "zstd_compress ok ok' z level threads src h = (h', Inr (p, out))"
    and "src \<noteq> []" and "length src < 2 ^ 64"
  shows "\<exists>g' q. zstd_decompress True z out g = (g', Inr (q, of_nat (length src), src))"
proof -
  obtain cap where c: "compress2 z threads level src cap = Some out"
    using assms(2) unfolding zstd_compress_def zstd_compress_into_def
    by (auto split: sum.splits prod.splits if_splits option.splits)
  then have d: "frame_content_size z out = Content_size (of_nat (length src))"
    "decompress_dctx z out (length src) = Some src"
    using assms(1) unfolding zstd_documented_def by blast+
  have n: "unat (of_nat (length src) :: u64) = length src" using assms(4) by (simp add: unsigned_of_nat take_bit_nat_eq_self)
  then have "(of_nat (length src) :: u64) \<noteq> 0" using assms(3) by (metis length_0_conv unat_0)
  then obtain q g' where m: "malloc_or_throw True (of_nat (length src)) g = (g', Inr q)"
    by (simp add: malloc_or_throw_def allocate_def)
  then show ?thesis using d n
    by (simp add: zstd_decompress_def get_uncompressed_size_def zstd_decompress_into_def)
qed

text \<open>A library that stores the data behind a byte.\<close>

definition storing_api :: zstd_api where
  "storing_api =
     \<lparr>create_context = True, set_parameter_ok = (\<lambda>_ _. True), compress_bound = (\<lambda>n. Some (n + 1)),
      compress2 = (\<lambda>_ _ src cap. if length src < cap then Some (0 # src) else None),
      frame_content_size = (\<lambda>frame. if frame = [] then Content_error else Content_size (of_nat (length frame - 1))),
      decompress_dctx = (\<lambda>frame cap. if frame \<noteq> [] \<and> length frame \<le> cap + 1 then Some (tl frame) else None)\<rparr>"

definition empty_heap :: heap where
  "empty_heap = \<lparr>live = Map.empty, next_block = 0, faults = []\<rparr>"

lemma storing_api_documented: "zstd_documented storing_api"
  by (auto simp: zstd_documented_def storing_api_def)

section \<open>What can go wrong\<close>

text \<open>
  Data without a single byte is compressed, but not decompressed: allocating nothing counts as a failure
  to allocate. What a frame says its contents are decides how much is allocated.
\<close>

lemma empty_data_does_not_come_back:
  assumes "zstd_documented z" and "zstd_compress ok ok' z level threads [] h = (h', Inr (p, out))"
  shows "zstd_decompress ok'' z out h' = (h', Inl Bad_alloc)"
proof -
  obtain cap where c: "compress2 z threads level [] cap = Some out"
    using assms(2) unfolding zstd_compress_def zstd_compress_into_def
    by (auto split: sum.splits prod.splits if_splits option.splits)
  then have "frame_content_size z out = Content_size (of_nat (length ([] :: byte list)))"
    using assms(1) unfolding zstd_documented_def by blast
  then show ?thesis by (simp add: zstd_decompress_def get_uncompressed_size_def malloc_or_throw_def)
qed

end
