(* ===== verification/System.thy ===== *)
theory System
  imports Text Zstd Bytes "HOL-Library.Sublist"
begin

text \<open>
  What the library asks of the system: files (\<open>common/src/file.cpp\<close>), the locale (\<open>common/src/locale.cpp\<close>),
  the processor (\<open>common/src/cpu.cpp\<close>), processes on Linux (\<open>common/src/process.cpp\<close>), the Windows
  \<open>gettimeofday\<close> (\<open>common/src/gettimeofday.cpp\<close>) and progress reports (\<open>common/src/progress.cpp\<close>). What
  the system answers is an argument of the functions.
\<close>

section \<open>Files\<close>

text \<open>\<open>std::ios\<close> modes as in the GNU library.\<close>

definition ios_app :: u32 where "ios_app = 1"
definition ios_binary :: u32 where "ios_binary = 4"
definition ios_in :: u32 where "ios_in = 8"
definition ios_out :: u32 where "ios_out = 16"

text \<open>
  \<open>opened\<close> are the bytes of the file from the position the stream opens at, \<open>None\<close> when it cannot be
  opened: that sets \<open>failbit\<close>, for which no exception was asked. \<open>io_ok\<close>: reading does not set \<open>badbit\<close>.
  A count of \<open>2 ^ 63\<close> or more is a negative \<open>std::streamsize\<close>, for which nothing is read.
\<close>

definition read_into :: "u32 \<Rightarrow> byte list option \<Rightarrow> bool \<Rightarrow> u64 \<Rightarrow> byte list res" where
  "read_into mode opened io_ok count =
     (if enum_contains mode ios_out then Inl Invalid_argument
      else case opened of
          None \<Rightarrow> Inr []
        | Some bytes \<Rightarrow> if io_ok then Inr (take (nat (sint count)) bytes) else Inl Runtime_error)"

text \<open>The buffer, its size, and the bytes read into it.\<close>

definition read_file ::
    "bool \<Rightarrow> u64 res \<Rightarrow> u32 \<Rightarrow> byte list option \<Rightarrow> bool \<Rightarrow> heap \<Rightarrow> heap \<times> (nat \<times> u64 \<times> byte list) res" where
  "read_file ok file_size mode opened io_ok h =
     (case file_size of
        Inl e \<Rightarrow> (h, Inl e)
      | Inr count \<Rightarrow>
        (case malloc_or_throw ok count h of
           (h, Inl e) \<Rightarrow> (h, Inl e)
         | (h, Inr data) \<Rightarrow>
           (case read_into mode opened io_ok count of
              Inl e \<Rightarrow> (deallocate Malloc (Some data) h, Inl e)
            | Inr bytes \<Rightarrow> (h, Inr (data, count, bytes)))))"

text \<open>
  The file afterwards. \<open>reached\<close> of the bytes get to the file; \<open>seen\<close> says whether the loss of the others
  shows while \<open>write\<close> runs, or only when the destructor closes the stream.
\<close>

definition write_file ::
    "u32 \<Rightarrow> bool \<Rightarrow> nat \<Rightarrow> bool \<Rightarrow> byte list \<Rightarrow> byte list option \<Rightarrow> byte list option \<times> unit res" where
  "write_file mode opens reached seen buffer old =
     (if enum_contains mode ios_in then (old, Inl Invalid_argument)
      else if \<not> opens then (old, Inr ())
      else
        let start = (if enum_contains mode ios_app then case old of None \<Rightarrow> [] | Some bytes \<Rightarrow> bytes else [])
        in (Some (start @ take reached buffer),
            if reached < length buffer \<and> seen then Inl Runtime_error else Inr ()))"

lemma modes [simp]:
  "\<not> enum_contains ios_in ios_out" "\<not> enum_contains ios_out ios_in"
  "\<not> enum_contains (ios_binary OR ios_in) ios_out" "\<not> enum_contains (ios_binary OR ios_out) ios_in"
  "\<not> enum_contains (ios_binary OR ios_out) ios_app"
  by (simp_all add: enum_contains_def enum_and_def ios_in_def ios_out_def ios_binary_def ios_app_def)

lemma file_roundtrip:
  assumes "write_file (ios_binary OR ios_out) True (length data) seen data old = (now, Inr ())"
    and "data \<noteq> []" and "length data < 2 ^ 63"
  shows "\<exists>p h'. read_file True (Inr (of_nat (length data))) (ios_binary OR ios_in) now True h =
    (h', Inr (p, of_nat (length data), data))"
proof -
  have now: "now = Some data" using assms(1) by (simp add: write_file_def)
  have n: "unat (of_nat (length data) :: u64) = length data"
    using assms(3) by (simp add: unsigned_of_nat take_bit_nat_eq_self)
  then have "(of_nat (length data) :: u64) \<noteq> 0" using assms(2) by (metis length_0_conv unat_0)
  then obtain p h' where m: "malloc_or_throw True (of_nat (length data)) h = (h', Inr p)"
    by (simp add: malloc_or_throw_def allocate_def)
  have "nat (sint (of_nat (length data) :: u64)) = length data"
    using assms(3) by (simp add: signed_of_nat signed_take_bit_int_eq_self)
  then show ?thesis using m now by (simp add: read_file_def read_into_def)
qed

text \<open>
  Although "all errors are exceptions", writing to a path that cannot be opened succeeds, and so does a
  write whose bytes are lost when the stream is closed. An empty file cannot be read at all.
\<close>

lemma unopened_write_succeeds:
  "write_file (ios_binary OR ios_out) False n seen data old = (old, Inr ())"
  by (simp add: write_file_def)

lemma lost_write_succeeds:
  "write_file (ios_binary OR ios_out) True 0 False [1, 2, 3] old = (Some [], Inr ())"
  by (simp add: write_file_def)

lemma empty_file_unreadable: "read_file ok (Inr 0) mode (Some []) True h = (h, Inl Bad_alloc)"
  by (simp add: read_file_def malloc_or_throw_def)

section \<open>Locale\<close>

definition localname_has_utf8 :: "string \<Rightarrow> bool" where
  "localname_has_utf8 input \<longleftrightarrow>
     suffix ''UTF8'' input \<or> suffix ''UTF-8'' input \<or> suffix ''utf8'' input \<or>
     suffix ''utf-8'' input \<or> suffix ''Utf8'' input \<or> suffix ''Utf-8'' input"

text \<open>\<open>valid\<close> are the names the system knows, \<open>user\<close> is what the empty name stands for.\<close>

definition set_ctype_globally :: "(string \<Rightarrow> bool) \<Rightarrow> string \<Rightarrow> string \<Rightarrow> string \<Rightarrow> string \<times> unit res" where
  "set_ctype_globally valid user ctype current =
     (let name = (if ctype = '''' then user else ctype)
      in if valid name then (name, Inr ()) else (current, Inl Runtime_error))"

fun try_ctypes :: "(string \<Rightarrow> bool) \<Rightarrow> string \<Rightarrow> string list \<Rightarrow> string \<Rightarrow> string \<times> unit res" where
  "try_ctypes valid user [] current = (current, Inl Runtime_error)"
| "try_ctypes valid user (name # names) current =
     (case set_ctype_globally valid user name current of
        (current, Inr _) \<Rightarrow> (current, Inr ())
      | (current, Inl _) \<Rightarrow> try_ctypes valid user names current)"

definition enable_utf8_encoding_globally ::
    "(string \<Rightarrow> bool) \<Rightarrow> string \<Rightarrow> string \<Rightarrow> string \<times> unit res" where
  "enable_utf8_encoding_globally valid user current =
     (if localname_has_utf8 current then (current, Inr ())
      else
        let current = (if valid user \<and> localname_has_utf8 user
                       then fst (set_ctype_globally valid user '''' current) else current)
        in try_ctypes valid user [''C.UTF-8'', ''en_US.UTF-8'', ''en_GB.UTF-8''] current)"

lemma enable_utf8_works:
  assumes "enable_utf8_encoding_globally valid user current = (now, Inr ())"
  shows "localname_has_utf8 now"
  using assms
  by (auto simp: enable_utf8_encoding_globally_def set_ctype_globally_def localname_has_utf8_def suffix_def
      Let_def split: if_splits)

text \<open>
  The user's own UTF-8 locale is set and then replaced by \<open>C.UTF-8\<close>; where only the user's is installed
  the function throws although it has set it.
\<close>

lemma user_locale_replaced:
  "enable_utf8_encoding_globally (\<lambda>_. True) ''de_DE.UTF-8'' ''C'' = (''C.UTF-8'', Inr ())"
  by (simp add: enable_utf8_encoding_globally_def set_ctype_globally_def localname_has_utf8_def suffix_def Let_def)

lemma user_locale_set_and_thrown:
  "enable_utf8_encoding_globally (\<lambda>name. name = ''de_DE.UTF-8'') ''de_DE.UTF-8'' ''C'' =
     (''de_DE.UTF-8'', Inl Runtime_error)"
  by (simp add: enable_utf8_encoding_globally_def set_ctype_globally_def localname_has_utf8_def suffix_def Let_def)

section \<open>Processor\<close>

datatype cpu_vendor = Amd | Intel | Arm | Other

text \<open>The registers that \<open>cpuid\<close> gives for leaf 0, read as characters on a little-endian machine.\<close>

definition register_chars :: "u32 \<Rightarrow> string" where
  "register_chars r = map (\<lambda>b. char_of (unat b)) (to_bytes Little r)"

definition current_cpu_vendor :: "bool \<Rightarrow> u32 \<Rightarrow> u32 \<Rightarrow> u32 \<Rightarrow> cpu_vendor" where
  "current_cpu_vendor is_arm ebx edx ecx =
     (let result = Other
      in if is_arm then Arm
         else
           let vendor = register_chars ebx @ register_chars edx @ register_chars ecx;
               result = (if vendor = ''AuthenticAMD'' then Amd else result)
           in if vendor = ''GenuineIntel'' then Intel else result)"

record cpu_info_t =
  model :: string
  speed :: int

text \<open>\<open>uv_cpu_info\<close> gives an error code and the entries it found.\<close>

fun copy_cpu_infos :: "(string \<times> int) list \<Rightarrow> cpu_info_t list" where
  "copy_cpu_infos [] = []"
| "copy_cpu_infos ((m, s) # rest) = \<lparr>model = m, speed = s\<rparr> # copy_cpu_infos rest"

definition cpu_info :: "int \<Rightarrow> (string \<times> int) list \<Rightarrow> cpu_info_t list res" where
  "cpu_info err uv_info = (if err < 0 then Inl Runtime_error else Inr (copy_cpu_infos uv_info))"

section \<open>Processes\<close>

record thread_info =
  tid :: int
  is_kernel_thread :: bool
  thread_name :: string

record process_info =
  pid :: int
  parent_pid :: int
  is_kernel_process :: bool
  thread_count :: nat
  process_name :: string
  cmdline :: "string list"
  threads :: "int \<rightharpoonup> thread_info"

text \<open>
  What the parser of \<open>/proc\<close> finds for a task and for a process; \<open>None\<close> is a \<open>parser_error\<close>, thrown when
  the process is gone.
\<close>

record task_entry =
  t_id :: int
  t_name :: "string option"
  t_kernel :: "bool option"

record proc_entry =
  p_id :: int
  p_status :: "(int \<times> nat \<times> string) option"
  p_cmdline :: "string list option"
  p_kernel :: "bool option"
  p_tasks :: "task_entry list option"

text \<open>\<open>std::map::emplace\<close> keeps what is there.\<close>

definition emplace :: "'k \<Rightarrow> 'v \<Rightarrow> ('k \<rightharpoonup> 'v) \<Rightarrow> ('k \<rightharpoonup> 'v)" where
  "emplace k v m = (case m k of None \<Rightarrow> m(k \<mapsto> v) | Some _ \<Rightarrow> m)"

fun add_threads :: "task_entry list \<Rightarrow> (int \<rightharpoonup> thread_info) \<Rightarrow> (int \<rightharpoonup> thread_info) option" where
  "add_threads [] m = Some m"
| "add_threads (t # ts) m =
     (case (t_name t, t_kernel t) of
        (Some name, Some in_kernel) \<Rightarrow>
          add_threads ts (emplace (t_id t) \<lparr>tid = t_id t, is_kernel_thread = in_kernel, thread_name = name\<rparr> m)
      | _ \<Rightarrow> None)"

definition read_process :: "proc_entry \<Rightarrow> process_info option" where
  "read_process p =
     (case (p_status p, p_cmdline p, p_kernel p, p_tasks p) of
        (Some (ppid, count, name), Some cmds, Some in_kernel, Some tasks) \<Rightarrow>
          (case add_threads tasks Map.empty of
             None \<Rightarrow> None
           | Some ts \<Rightarrow> Some \<lparr>pid = p_id p, parent_pid = ppid, is_kernel_process = in_kernel, thread_count = count,
               process_name = name, cmdline = cmds, threads = ts\<rparr>)
      | _ \<Rightarrow> None)"

fun processes_loop :: "proc_entry list \<Rightarrow> (int \<rightharpoonup> process_info) \<Rightarrow> (int \<rightharpoonup> process_info)" where
  "processes_loop [] result = result"
| "processes_loop (p # ps) result =
     (case read_process p of
        None \<Rightarrow> processes_loop ps result
      | Some process \<Rightarrow> processes_loop ps (emplace (p_id p) process result))"

definition get_processes :: "proc_entry list \<Rightarrow> (int \<rightharpoonup> process_info)" where
  "get_processes entries = processes_loop entries Map.empty"

lemma processes_loop_result:
  "processes_loop ps result i =
     (case result i of Some p \<Rightarrow> Some p
      | None \<Rightarrow> map_of (List.map_filter (\<lambda>p. map_option (Pair (p_id p)) (read_process p)) ps) i)"
  by (induction ps result rule: processes_loop.induct)
    (auto simp: emplace_def map_filter_simps split: option.splits)

text \<open>
  A process that dies while it is read is left out and does not hide the others: with one entry for
  each id exactly the processes that could be read are there.
\<close>

lemma get_processes_readable:
  assumes "distinct (map p_id entries)" and "p \<in> set entries"
  shows "get_processes entries (p_id p) = read_process p"
proof -
  have "map_of (List.map_filter (\<lambda>p. map_option (Pair (p_id p)) (read_process p)) entries) (p_id p) = read_process p"
    using assms
  proof (induction entries)
    case (Cons e es)
    have other: "map_of (List.map_filter (\<lambda>p. map_option (Pair (p_id p)) (read_process p)) es) i = None"
      if "i \<notin> p_id ` set es" for i
      using that by (induction es) (auto simp: map_filter_simps split: option.splits)
    show ?case
    proof (cases "p = e")
      case True
      then show ?thesis using Cons.prems other [of "p_id e"]
        by (cases "read_process e") (auto simp: map_filter_simps)
    next
      case False
      then have "p_id p \<noteq> p_id e" using Cons.prems by (metis distinct.simps(2) image_eqI list.map(2) list.set_map set_ConsD)
      then show ?thesis using Cons False by (auto simp: map_filter_simps split: option.splits)
    qed
  qed simp
  then show ?thesis by (simp add: get_processes_def processes_loop_result)
qed

text \<open>
  On Windows the snapshot lists the processes (id, parent, number of threads, name) and then the threads
  (id, owner) of all of them. \<open>None\<close> for a listing that fails at the first entry; a thread whose owner is
  not listed makes \<open>map::at\<close> throw.
\<close>

fun win_processes :: "(int \<times> int \<times> nat \<times> string) list \<Rightarrow> (int \<rightharpoonup> process_info) \<Rightarrow> (int \<rightharpoonup> process_info)" where
  "win_processes [] result = result"
| "win_processes ((i, ppid, count, exe) # ps) result =
     win_processes ps (emplace i \<lparr>pid = i, parent_pid = ppid,
       is_kernel_process = (exe = ''System'' \<or> exe = ''[System Process]''), thread_count = count,
       process_name = exe, cmdline = [exe], threads = Map.empty\<rparr> result)"

fun win_threads :: "(int \<times> int) list \<Rightarrow> (int \<rightharpoonup> process_info) \<Rightarrow> (int \<rightharpoonup> process_info) res" where
  "win_threads [] result = Inr result"
| "win_threads ((t, owner) # ts) result =
     (case result owner of
        None \<Rightarrow> Inl Out_of_range
      | Some process \<Rightarrow>
          win_threads ts (result(owner \<mapsto> process\<lparr>threads := emplace t
            \<lparr>tid = t, is_kernel_thread = is_kernel_process process, thread_name = process_name process\<rparr>
            (threads process)\<rparr>)))"

definition win_get_processes ::
    "(int \<times> int \<times> nat \<times> string) list option option \<Rightarrow> (int \<times> int) list option \<Rightarrow> (int \<rightharpoonup> process_info) res" where
  "win_get_processes snapshot thread_list =
     (case snapshot of
        None \<Rightarrow> Inl Runtime_error
      | Some None \<Rightarrow> Inl Runtime_error
      | Some (Some ps) \<Rightarrow>
          (case thread_list of
             None \<Rightarrow> Inl Runtime_error
           | Some ts \<Rightarrow> win_threads ts (win_processes ps Map.empty)))"

lemma win_threads_keeps_processes:
  "win_threads ts result = Inr result' \<Longrightarrow> dom result' = dom result"
  by (induction ts result rule: win_threads.induct) (auto split: option.splits)

lemma win_threads_unknown_owner:
  assumes "(t, owner) \<in> set ts" and "owner \<notin> dom result"
  shows "win_threads ts result = Inl Out_of_range"
  using assms by (induction ts result rule: win_threads.induct) (auto split: option.splits)

text \<open>
  On macOS: the ids that \<open>proc_listpids\<close> left in the buffer, then for each of them \<open>proc_pidinfo\<close> and
  \<open>proc_pidpath\<close>, whose results are not looked at. A call that fails leaves its structure as it was, with
  whatever the stack held (\<open>old_info\<close>, \<open>old_path\<close>) in that turn of the loop.
\<close>

record mac_info =
  pbi_pid :: int
  pbi_ppid :: int
  pti_threadnum :: int
  pbi_name :: string

definition mac_process :: "int \<Rightarrow> mac_info \<Rightarrow> string \<Rightarrow> process_info" where
  "mac_process i bsdInfo path =
     \<lparr>pid = pbi_pid bsdInfo, parent_pid = pbi_ppid bsdInfo, is_kernel_process = (i = 0),
      thread_count = nat (pti_threadnum bsdInfo mod 2 ^ 64), process_name = pbi_name bsdInfo,
      cmdline = [path], threads = Map.empty\<rparr>"

fun mac_loop ::
    "(int \<Rightarrow> mac_info option) \<Rightarrow> (int \<Rightarrow> string option) \<Rightarrow> (int \<times> mac_info \<times> string) list \<Rightarrow>
      (int \<rightharpoonup> process_info) \<Rightarrow> (int \<rightharpoonup> process_info)" where
  "mac_loop info path [] result = result"
| "mac_loop info path ((i, old_info, old_path) # turns) result =
     (let bsdInfo = (case info i of None \<Rightarrow> old_info | Some b \<Rightarrow> b);
          p = (case path i of None \<Rightarrow> old_path | Some q \<Rightarrow> q)
      in mac_loop info path turns (emplace i (mac_process i bsdInfo p) result))"

definition mac_get_processes ::
    "(int \<Rightarrow> mac_info option) \<Rightarrow> (int \<Rightarrow> string option) \<Rightarrow> (int \<times> mac_info \<times> string) list \<Rightarrow> (int \<rightharpoonup> process_info)" where
  "mac_get_processes info path turns = mac_loop info path turns Map.empty"

lemma mac_loop_result:
  "mac_loop info path turns result i =
     (case result i of Some p \<Rightarrow> Some p
      | None \<Rightarrow> map_option (\<lambda>(b, q). mac_process i (case info i of None \<Rightarrow> b | Some b' \<Rightarrow> b') (case path i of None \<Rightarrow> q | Some q' \<Rightarrow> q'))
          (map_of turns i))"
  by (induction info path turns result rule: mac_loop.induct)
    (auto simp: emplace_def Let_def split: option.splits)

text \<open>Every id that was listed is there; a process that is gone by then is described by the old contents of the stack.\<close>

lemma mac_lists_all: "dom (mac_get_processes info path turns) = fst ` set turns"
proof -
  have "dom (mac_get_processes info path turns) = dom (map_of turns)"
    by (auto simp: mac_get_processes_def mac_loop_result dom_def)
  then show ?thesis by (simp add: dom_map_of_conv_image_fst)
qed

lemma mac_process_gone:
  assumes "info i = None" and "path i = None" and "map_of turns i = Some (b, q)"
  shows "mac_get_processes info path turns i = Some (mac_process i b q)"
  using assms by (simp add: mac_get_processes_def mac_loop_result)

section \<open>gettimeofday\<close>

text \<open>\<open>quad\<close> is the \<open>FILETIME\<close>: steps of 100 ns since 1601. A \<open>long\<close> has 32 bits on Windows.\<close>

definition filetime_epoch :: u64 where "filetime_epoch = 116444736000000000"

definition gettimeofday :: "u64 \<Rightarrow> u32 \<times> u32" where
  "gettimeofday quad =
     (ucast ((quad - filetime_epoch) div 10000000), ucast (((quad - filetime_epoch) mod 10000000) div 10))"

section \<open>Progress\<close>

text \<open>\<open>'f\<close> is \<open>float\<close>; the setters run under the mutex.\<close>

record 'f progress =
  message :: string
  progress_val :: 'f
  max_val :: 'f

definition set_progress_msg :: "'f \<Rightarrow> string \<Rightarrow> 'f progress \<Rightarrow> 'f progress" where
  "set_progress_msg value msg p = p\<lparr>progress_val := value, message := msg\<rparr>"

definition set_progress :: "'f \<Rightarrow> 'f progress \<Rightarrow> 'f progress" where
  "set_progress value p = p\<lparr>progress_val := value\<rparr>"

definition set_max_val :: "'f \<Rightarrow> 'f progress \<Rightarrow> 'f progress" where
  "set_max_val value p = p\<lparr>max_val := value\<rparr>"

definition set_message :: "string \<Rightarrow> 'f progress \<Rightarrow> 'f progress" where
  "set_message msg p = p\<lparr>message := msg\<rparr>"

definition reset_progress :: "'f::zero progress \<Rightarrow> 'f progress" where
  "reset_progress p = set_progress_msg 0 '''' p"

end
