(* ===== verification/DirectX.thy ===== *)
theory DirectX
  imports Prelude
begin

text \<open>
  The Windows and Direct3D 12 wrapper of the graphical interface,
  \<open>imgui/src/imgui_wrapper_win32_directx12.cpp\<close>: the allocator of shader-visible descriptors, the
  frames in flight with the fence that tells when the device has finished one, and the objects that
  \<open>CreateDeviceD3D\<close> acquires and \<open>CleanupDeviceD3D\<close> releases. What Direct3D and the window system answer
  (which calls succeed, where a heap starts, when the device executes a command) is an argument or an
  event.
\<close>

section \<open>The descriptor heap allocator\<close>

text \<open>
  \<open>ID3D12DescriptorHeap\<close>: what \<open>GetDesc\<close> and the two functions for the start of the heap return.
\<close>

record descriptor_heap =
  heap_type :: nat
  num_descriptors :: u32
  cpu_start :: u64
  gpu_start :: u64

text \<open>
  \<open>ExampleDescriptorHeapAllocator\<close>. \<open>FreeIndices\<close> is in the order of the vector: \<open>push_back\<close> appends.
\<close>

record heap_allocator =
  Heap :: "descriptor_heap option"
  HeapStartCpu :: u64
  HeapStartGpu :: u64
  HeapHandleIncrement :: u32
  FreeIndices :: "int list"

text \<open>\<open>for (int n = desc.NumDescriptors; n > 0; n--) FreeIndices.push_back(n - 1);\<close>\<close>

function create_indices :: "int \<Rightarrow> int list" where
  "create_indices n = (if n > 0 then (n - 1) # create_indices (n - 1) else [])"
  by auto
termination by (relation "measure nat") auto

declare create_indices.simps [simp del]

text \<open>
  \<open>IM_ASSERT\<close> stops the program unless it was compiled without assertions: \<open>None\<close> is a failed assertion
  or undefined behaviour (\<open>back\<close> of an empty vector, a division by zero).
\<close>

definition heap_create ::
    "bool \<Rightarrow> (nat \<Rightarrow> u32) \<Rightarrow> descriptor_heap \<Rightarrow> heap_allocator \<Rightarrow> heap_allocator option" where
  "heap_create asserts increment_of h a =
     guarded (asserts \<longrightarrow> Heap a = None \<and> FreeIndices a = [])
       (a\<lparr>Heap := Some h, HeapStartCpu := cpu_start h, HeapStartGpu := gpu_start h,
          HeapHandleIncrement := increment_of (heap_type h),
          FreeIndices := FreeIndices a @ create_indices (sint (num_descriptors h))\<rparr>)"

definition heap_destroy :: "heap_allocator \<Rightarrow> heap_allocator" where
  "heap_destroy a = a\<lparr>Heap := None, FreeIndices := []\<rparr>"

text \<open>\<open>idx * HeapHandleIncrement\<close> is a product of 32 bits, added to a pointer of 64.\<close>

definition handle_offset :: "heap_allocator \<Rightarrow> int \<Rightarrow> u64" where
  "handle_offset a i = ucast (word_of_int i * HeapHandleIncrement a)"

type_synonym handles = "u64 \<times> u64"

definition heap_alloc :: "heap_allocator \<Rightarrow> (heap_allocator \<times> handles) option" where
  "heap_alloc a = guarded (FreeIndices a \<noteq> [])
     (let i = last (FreeIndices a)
      in (a\<lparr>FreeIndices := butlast (FreeIndices a)\<rparr>,
          (HeapStartCpu a + handle_offset a i, HeapStartGpu a + handle_offset a i)))"

text \<open>The conversion to \<open>int\<close> keeps the low 32 bits of the quotient.\<close>

definition handle_index :: "u32 \<Rightarrow> u64 \<Rightarrow> u64 \<Rightarrow> int" where
  "handle_index incr start p = sint (ucast ((p - start) div ucast incr) :: u32)"

definition heap_free :: "bool \<Rightarrow> handles \<Rightarrow> heap_allocator \<Rightarrow> heap_allocator option" where
  "heap_free asserts p a =
     (let cpu_idx = handle_index (HeapHandleIncrement a) (HeapStartCpu a) (fst p);
          gpu_idx = handle_index (HeapHandleIncrement a) (HeapStartGpu a) (snd p)
      in guarded (HeapHandleIncrement a \<noteq> 0 \<and> (asserts \<longrightarrow> cpu_idx = gpu_idx))
           (a\<lparr>FreeIndices := FreeIndices a @ [cpu_idx]\<rparr>))"

text \<open>
  A user of the allocator: it asks for descriptors and gives back one of those it holds, the \<open>k\<close>-th.
\<close>

datatype heap_op = Op_alloc | Op_free nat

fun heap_run :: "bool \<Rightarrow> heap_op list \<Rightarrow> heap_allocator \<times> handles list \<Rightarrow> (heap_allocator \<times> handles list) option" where
  "heap_run asserts [] s = Some s"
| "heap_run asserts (Op_alloc # ops) (a, held) =
     (case heap_alloc a of None \<Rightarrow> None | Some (a', p) \<Rightarrow> heap_run asserts ops (a', held @ [p]))"
| "heap_run asserts (Op_free k # ops) (a, held) =
     (if k < length held
      then (case heap_free asserts (held ! k) a of
              None \<Rightarrow> None
            | Some a' \<Rightarrow> heap_run asserts ops (a', take k held @ drop (Suc k) held))
      else None)"

lemma set_create_indices [simp]: "set (create_indices n) = {0..<n}"
  by (induction n rule: create_indices.induct) (subst create_indices.simps, auto)

lemma distinct_create_indices [simp]: "distinct (create_indices n)"
  by (induction n rule: create_indices.induct) (subst create_indices.simps, auto)

lemma length_create_indices [simp]: "length (create_indices n) = nat n"
  by (induction n rule: create_indices.induct) (subst create_indices.simps, auto)

text \<open>A heap whose descriptors all lie in the 32-bit offsets that \<open>Alloc\<close> computes.\<close>

definition heap_fits :: "heap_allocator \<Rightarrow> int \<Rightarrow> bool" where
  "heap_fits a n \<longleftrightarrow> 0 < uint (HeapHandleIncrement a) \<and> n * uint (HeapHandleIncrement a) \<le> 2 ^ 32 \<and> n < 2 ^ 31"

lemma uint_handle_offset:
  assumes "heap_fits a n" and "0 \<le> i" and "i < n"
  shows "uint (handle_offset a i) = i * uint (HeapHandleIncrement a)"
proof -
  have i: "i < 2 ^ 31" using assms by (simp add: heap_fits_def)
  have "i * uint (HeapHandleIncrement a) < n * uint (HeapHandleIncrement a)"
    using assms by (simp add: heap_fits_def)
  also have "\<dots> \<le> 2 ^ 32" using assms(1) unfolding heap_fits_def by blast
  finally have bound: "i * uint (HeapHandleIncrement a) < 2 ^ 32" .
  have "0 \<le> i * uint (HeapHandleIncrement a)" using assms(2) by simp
  moreover have "uint (word_of_int i :: u32) = i"
    using assms(2) i by (simp add: uint_word_of_int take_bit_int_eq_self)
  ultimately have "uint (word_of_int i * HeapHandleIncrement a) = i * uint (HeapHandleIncrement a)"
    using bound by (simp add: uint_word_ariths)
  then show ?thesis
    using bound \<open>0 \<le> i * _\<close> by (simp add: handle_offset_def unsigned_ucast_eq take_bit_int_eq_self)
qed

lemma handle_index_offset:
  assumes "heap_fits a n" and "0 \<le> i" and "i < n"
  shows "handle_index (HeapHandleIncrement a) start (start + handle_offset a i) = i"
proof -
  let ?c = "HeapHandleIncrement a"
  have i: "i < 2 ^ 31" and c: "0 < uint ?c" using assms by (simp_all add: heap_fits_def)
  have cast: "uint (ucast ?c :: u64) = uint ?c"
    using unsigned_less [where ?'a = int and w = ?c] by (simp add: unsigned_ucast_eq take_bit_int_eq_self)
  have "uint (handle_offset a i div ucast ?c) = i"
    using c by (simp add: uint_div_distrib cast uint_handle_offset [OF assms])
  then have "uint (ucast (handle_offset a i div ucast ?c) :: u32) = i"
    using assms(2) i by (simp add: unsigned_ucast_eq take_bit_int_eq_self)
  then show ?thesis
    using assms(2) i by (simp add: handle_index_def sint_uint signed_take_bit_int_eq_self)
qed

text \<open>
  What holds between calls: the free indices and those of the descriptors held are the indices of the
  heap, each once, and a descriptor held is the one its index gives.
\<close>

definition handle_of :: "heap_allocator \<Rightarrow> int \<Rightarrow> handles" where
  "handle_of a i = (HeapStartCpu a + handle_offset a i, HeapStartGpu a + handle_offset a i)"

definition heap_ok :: "int \<Rightarrow> heap_allocator \<Rightarrow> int list \<Rightarrow> bool" where
  "heap_ok n a used \<longleftrightarrow> heap_fits a n \<and> distinct (FreeIndices a @ used) \<and> set (FreeIndices a @ used) = {0..<n}"

lemma heap_ok_alloc:
  assumes "heap_ok n a used" and "heap_alloc a = Some (a', p)"
  shows "\<exists>i. p = handle_of a' i \<and> heap_ok n a' (used @ [i]) \<and> handle_of a' = handle_of a"
proof -
  obtain xs x where free: "FreeIndices a = xs @ [x]"
    using assms(2) by (cases "FreeIndices a" rule: rev_cases) (auto simp: heap_alloc_def)
  have a': "a' = a\<lparr>FreeIndices := xs\<rparr>" and p: "p = handle_of a x"
    using assms(2) by (auto simp: heap_alloc_def free handle_of_def)
  have same: "handle_of a' = handle_of a"
    by (simp add: a' handle_of_def handle_offset_def fun_eq_iff)
  have "heap_ok n a' (used @ [x])"
    using assms(1) by (auto simp: heap_ok_def heap_fits_def a' free)
  then show ?thesis using p same by auto
qed

lemma heap_ok_free:
  assumes "heap_ok n a (us @ i # vs)"
  shows "\<exists>a'. heap_free asserts (handle_of a i) a = Some a' \<and> heap_ok n a' (us @ vs) \<and> handle_of a' = handle_of a"
proof -
  have fits: "heap_fits a n" and i: "0 \<le> i" "i < n"
    using assms by (auto simp: heap_ok_def)
  have "HeapHandleIncrement a \<noteq> 0" using fits by (auto simp: heap_fits_def)
  then have "heap_free asserts (handle_of a i) a = Some (a\<lparr>FreeIndices := FreeIndices a @ [i]\<rparr>)"
    by (simp add: heap_free_def handle_of_def handle_index_offset [OF fits i])
  moreover have "heap_ok n (a\<lparr>FreeIndices := FreeIndices a @ [i]\<rparr>) (us @ vs)"
    using assms by (auto simp: heap_ok_def heap_fits_def)
  moreover have "handle_of (a\<lparr>FreeIndices := FreeIndices a @ [i]\<rparr>) = handle_of a"
    by (simp add: handle_of_def handle_offset_def fun_eq_iff)
  ultimately show ?thesis by blast
qed

lemma handle_of_inj:
  assumes "heap_ok n a used" and "i \<in> set used" and "j \<in> set used"
    and "fst (handle_of a i) = fst (handle_of a j) \<or> snd (handle_of a i) = snd (handle_of a j)"
  shows "i = j"
proof -
  have fits: "heap_fits a n" and i: "0 \<le> i" "i < n" and j: "0 \<le> j" "j < n"
    using assms(1-3) by (auto simp: heap_ok_def)
  have "handle_offset a i = handle_offset a j"
    using assms(4) by (simp only: handle_of_def fst_conv snd_conv add_left_cancel disj_absorb)
  then show ?thesis
    using handle_index_offset [OF fits i, of 0] handle_index_offset [OF fits j, of 0] by metis
qed

lemma heap_ok_run:
  assumes "heap_run asserts ops (a, map (handle_of a) used) = Some (a', held)" and "heap_ok n a used"
  shows "\<exists>used'. held = map (handle_of a') used' \<and> heap_ok n a' used'"
  using assms
proof (induction ops arbitrary: a used)
  case Nil
  then show ?case by auto
next
  case (Cons op ops)
  show ?case
  proof (cases op)
    case Op_alloc
    then obtain a1 p where step: "heap_alloc a = Some (a1, p)"
        and rest: "heap_run asserts ops (a1, map (handle_of a) used @ [p]) = Some (a', held)"
      using Cons.prems(1) by (auto split: option.splits)
    obtain i where "p = handle_of a1 i" "heap_ok n a1 (used @ [i])" "handle_of a1 = handle_of a"
      using heap_ok_alloc [OF Cons.prems(2) step] by auto
    then show ?thesis using Cons.IH [of a1 "used @ [i]"] rest by simp
  next
    case (Op_free k)
    then have k: "k < length used" using Cons.prems(1) by (auto split: if_splits)
    then have "heap_ok n a (take k used @ used ! k # drop (Suc k) used)"
      using Cons.prems(2) by (simp add: id_take_nth_drop [symmetric])
    from heap_ok_free [OF this, of asserts] obtain a1
      where "heap_free asserts (handle_of a (used ! k)) a = Some a1"
        "heap_ok n a1 (take k used @ drop (Suc k) used)" "handle_of a1 = handle_of a"
      by blast
    then show ?thesis
      using Cons.IH [of a1 "take k used @ drop (Suc k) used"] Cons.prems(1) Op_free k
      by (simp add: take_map drop_map)
  qed
qed

text \<open>
  C16: However descriptors are taken and given back, no two of those in use are the same on either side
  (CPU or GPU), those in use and the free ones are as many as the heap has, one can be had exactly as
  long as not all are in use, and giving one back always succeeds.
\<close>

theorem descriptors_in_use_distinct:
  assumes "heap_create asserts increment_of h a0 = Some a" and "Heap a0 = None" and "FreeIndices a0 = []"
    and "0 < increment_of (heap_type h)"
    and "uint (num_descriptors h) * uint (increment_of (heap_type h)) \<le> 2 ^ 32"
    and "uint (num_descriptors h) < 2 ^ 31"
    and "heap_run asserts ops (a, []) = Some (a', held)"
  shows "distinct (map fst held) \<and> distinct (map snd held) \<and>
    length held + length (FreeIndices a') = unat (num_descriptors h) \<and>
    (heap_alloc a' = None \<longleftrightarrow> length held = unat (num_descriptors h)) \<and>
    (\<forall>p \<in> set held. heap_free asserts p a' \<noteq> None)"
proof -
  let ?n = "uint (num_descriptors h)"
  have "- (2 ^ 31) \<le> ?n" by (rule order_trans [of _ 0]) simp_all
  then have "sint (num_descriptors h) = ?n"
    using assms(6) signed_take_bit_int_eq_self [of 31 ?n] by (simp only: sint_uint) simp
  moreover have "0 < uint (increment_of (heap_type h))"
    using assms(4) by (simp add: word_less_alt)
  ultimately have "heap_ok ?n a []"
    using assms(1-3,5,6) by (auto simp: heap_create_def heap_ok_def heap_fits_def)
  from heap_ok_run [OF _ this, of asserts ops a' held] obtain used
    where held: "held = map (handle_of a') used" and ok: "heap_ok ?n a' used"
    using assms(7) by auto
  have used: "distinct used" using ok by (auto simp: heap_ok_def)
  then have "distinct (map fst held)" and "distinct (map snd held)"
    using handle_of_inj [OF ok] by (auto simp: held distinct_map inj_on_def)
  moreover have "length (FreeIndices a' @ used) = card {0..<?n}"
    using ok by (metis heap_ok_def distinct_card)
  then have sizes: "length held + length (FreeIndices a') = unat (num_descriptors h)"
    by (simp add: held)
  moreover have "heap_alloc a' = None \<longleftrightarrow> length held = unat (num_descriptors h)"
    using sizes by (auto simp: heap_alloc_def guarded_def)
  moreover have "heap_free asserts p a' \<noteq> None" if "p \<in> set held" for p
  proof -
    from that obtain us i vs where "used = us @ i # vs" "p = handle_of a' i"
      by (auto simp: held dest: split_list)
    with ok heap_ok_free [of ?n a' us i vs asserts] show ?thesis by auto
  qed
  ultimately show ?thesis by blast
qed

theorem descriptors_in_use_distinct_witness:
  "let h = \<lparr>heap_type = 0, num_descriptors = 3, cpu_start = 4096, gpu_start = 8192\<rparr>;
       a = \<lparr>Heap = Some h, HeapStartCpu = 4096, HeapStartGpu = 8192, HeapHandleIncrement = 32, FreeIndices = [2, 1, 0]\<rparr>;
       a' = a\<lparr>FreeIndices := [2]\<rparr>;
       held = [(4128, 8224), (4096, 8192)]
   in heap_run True [Op_alloc, Op_alloc, Op_free 0, Op_alloc] (a, []) = Some (a', held) \<and>
      length held + length (FreeIndices a') = 3 \<and> heap_alloc a' \<noteq> None"
proof -
  let ?h = "\<lparr>heap_type = 0, num_descriptors = 3, cpu_start = 4096, gpu_start = 8192\<rparr>"
  let ?empty = "\<lparr>Heap = None, HeapStartCpu = 0, HeapStartGpu = 0, HeapHandleIncrement = 0, FreeIndices = []\<rparr>"
  let ?a = "\<lparr>Heap = Some ?h, HeapStartCpu = 4096, HeapStartGpu = 8192, HeapHandleIncrement = 32, FreeIndices = [2, 1, 0]\<rparr>"
  let ?ops = "[Op_alloc, Op_alloc, Op_free 0, Op_alloc]"
  have 1: "heap_create True (\<lambda>_. 32) ?h ?empty = Some ?a"
    by (simp add: heap_create_def create_indices.simps guarded_def)
  have 2: "heap_run True ?ops (?a, []) = Some (?a\<lparr>FreeIndices := [2]\<rparr>, [(4128, 8224), (4096, 8192)])"
    by (simp add: heap_alloc_def heap_free_def guarded_def handle_offset_def handle_index_def)
  have "length [(4128 :: u64, 8224 :: u64), (4096, 8192)] + length (FreeIndices (?a\<lparr>FreeIndices := [2]\<rparr>)) =
        unat (num_descriptors ?h) \<and>
      (heap_alloc (?a\<lparr>FreeIndices := [2]\<rparr>) = None \<longleftrightarrow>
        length [(4128 :: u64, 8224 :: u64), (4096, 8192)] = unat (num_descriptors ?h))"
    using descriptors_in_use_distinct [OF 1 _ _ _ _ _ 2] by simp
  then show ?thesis using 2 by (simp add: Let_def)
qed

text \<open>
  A second \<open>Create\<close> without a \<open>Destroy\<close> in between fails its assertion; without assertions every
  descriptor becomes free twice.
\<close>

lemma create_twice:
  assumes "heap_create asserts increment_of h a0 = Some a"
  shows "heap_create True increment_of h' a = None"
    and "0 < sint (num_descriptors h) \<Longrightarrow>
      \<exists>a2. heap_create False increment_of h a = Some a2 \<and> \<not> distinct (FreeIndices a2)"
  using assms by (auto simp: heap_create_def guarded_def split: if_splits)

lemma create_after_destroy: "heap_create asserts increment_of h (heap_destroy a) \<noteq> None"
  by (simp add: heap_create_def heap_destroy_def guarded_def)

section \<open>The objects of the device\<close>

text \<open>
  What \<open>CreateDeviceD3D\<close> acquires: interfaces with a reference to give back, and handles to close. The
  globals of the file point to all but the first three, which are local variables.
\<close>

datatype dx_object =
    Dx_debug
  | Dx_factory
  | Dx_swap_chain1
  | Dx_device
  | Dx_rtv_heap
  | Dx_srv_heap
  | Dx_queue
  | Dx_allocator nat
  | Dx_command_list
  | Dx_fence
  | Dx_fence_event
  | Dx_swap_chain
  | Dx_waitable
  | Dx_back_buffer nat

text \<open>The calls whose result matters.\<close>

datatype dx_call =
    Get_debug_interface
  | Create_device
  | Create_rtv_heap
  | Create_srv_heap
  | Create_queue
  | Create_allocator nat
  | Create_list
  | Close_list
  | Create_fence
  | Create_event
  | Create_factory
  | Create_swap_chain
  | Query_swap_chain
  | Get_buffer nat

text \<open>
  The references held to each object and which globals are not null. \<open>bad_release\<close>: something was given
  back that was not held. \<open>srv_allocator\<close> is \<open>g_pd3dSrvDescHeapAlloc\<close>.
\<close>

record dx_state =
  held :: "dx_object \<Rightarrow> nat"
  not_null :: "dx_object \<Rightarrow> bool"
  bad_release :: bool
  srv_allocator :: heap_allocator

definition acquire :: "dx_object \<Rightarrow> dx_state \<Rightarrow> dx_state" where
  "acquire x s = s\<lparr>held := (held s)(x := held s x + 1)\<rparr>"

definition release_ref :: "dx_object \<Rightarrow> dx_state \<Rightarrow> dx_state" where
  "release_ref x s = s\<lparr>bad_release := (bad_release s \<or> held s x = 0), held := (held s)(x := held s x - 1)\<rparr>"

definition set_global :: "dx_object \<Rightarrow> bool \<Rightarrow> dx_state \<Rightarrow> dx_state" where
  "set_global x b s = s\<lparr>not_null := (not_null s)(x := b)\<rparr>"

text \<open>A call that stores a new object in a global, or makes \<open>CreateDeviceD3D\<close> return \<open>false\<close>.\<close>

definition create_or_fail ::
    "bool \<Rightarrow> dx_object \<Rightarrow> (dx_state \<Rightarrow> (dx_state \<times> bool) option) \<Rightarrow> dx_state \<Rightarrow> (dx_state \<times> bool) option" where
  "create_or_fail succeeded x k s =
     (if succeeded then k (set_global x True (acquire x s)) else Some (s, False))"

definition check_or_fail ::
    "bool \<Rightarrow> (dx_state \<Rightarrow> (dx_state \<times> bool) option) \<Rightarrow> dx_state \<Rightarrow> (dx_state \<times> bool) option" where
  "check_or_fail succeeded k s = (if succeeded then k s else Some (s, False))"

definition get_back_buffer :: "(dx_call \<Rightarrow> bool) \<Rightarrow> nat \<Rightarrow> dx_state \<Rightarrow> dx_state" where
  "get_back_buffer ok i s =
     (if ok (Get_buffer i) then set_global (Dx_back_buffer i) True (acquire (Dx_back_buffer i) s)
      else set_global (Dx_back_buffer i) False s)"

definition CreateRenderTarget :: "(dx_call \<Rightarrow> bool) \<Rightarrow> dx_state \<Rightarrow> dx_state" where
  "CreateRenderTarget ok s = get_back_buffer ok 1 (get_back_buffer ok 0 s)"

text \<open>The factory and the swap chain.\<close>

definition create_swap_chain :: "(dx_call \<Rightarrow> bool) \<Rightarrow> dx_state \<Rightarrow> (dx_state \<times> bool) option" where
  "create_swap_chain ok s =
     check_or_fail (ok Create_factory)
       (\<lambda>s. check_or_fail (ok Create_swap_chain)
         (\<lambda>s. create_or_fail (ok Query_swap_chain) Dx_swap_chain
           (\<lambda>s. let s1 = release_ref Dx_factory (release_ref Dx_swap_chain1 s);
                    s2 = set_global Dx_waitable True (acquire Dx_waitable s1)
                in Some (CreateRenderTarget ok s2, True))
           (acquire Dx_swap_chain1 s))
         (acquire Dx_factory s)) s"

definition create_commands :: "(dx_call \<Rightarrow> bool) \<Rightarrow> dx_state \<Rightarrow> (dx_state \<times> bool) option" where
  "create_commands ok =
     create_or_fail (ok Create_queue) Dx_queue
       (create_or_fail (ok (Create_allocator 0)) (Dx_allocator 0)
         (create_or_fail (ok (Create_allocator 1)) (Dx_allocator 1)
           (create_or_fail (ok Create_list) Dx_command_list
             (check_or_fail (ok Close_list)
               (create_or_fail (ok Create_fence) Dx_fence
                 (create_or_fail (ok Create_event) Dx_fence_event (create_swap_chain ok)))))))"

definition create_heaps ::
    "bool \<Rightarrow> (nat \<Rightarrow> u32) \<Rightarrow> descriptor_heap \<Rightarrow> (dx_call \<Rightarrow> bool) \<Rightarrow> dx_state \<Rightarrow> (dx_state \<times> bool) option" where
  "create_heaps asserts increment_of h ok =
     create_or_fail (ok Create_rtv_heap) Dx_rtv_heap
       (create_or_fail (ok Create_srv_heap) Dx_srv_heap
         (\<lambda>s. case heap_create asserts increment_of h (srv_allocator s) of
                None \<Rightarrow> None
              | Some a \<Rightarrow> create_commands ok (s\<lparr>srv_allocator := a\<rparr>)))"

text \<open>\<open>debug_layer\<close>: compiled with \<open>DX12_ENABLE_DEBUG_LAYER\<close>. The information queue is given back at once.\<close>

definition CreateDeviceD3D ::
    "bool \<Rightarrow> bool \<Rightarrow> (nat \<Rightarrow> u32) \<Rightarrow> descriptor_heap \<Rightarrow> (dx_call \<Rightarrow> bool) \<Rightarrow> dx_state \<Rightarrow> (dx_state \<times> bool) option" where
  "CreateDeviceD3D debug_layer asserts increment_of h ok s =
     (let debug = debug_layer \<and> ok Get_debug_interface;
          s1 = (if debug then acquire Dx_debug s else s)
      in create_or_fail (ok Create_device) Dx_device
           (\<lambda>s2. create_heaps asserts increment_of h ok (if debug then release_ref Dx_debug s2 else s2)) s1)"

text \<open>\<open>if (p) { p->Release(); p = nullptr; }\<close>\<close>

definition release_global :: "dx_object \<Rightarrow> dx_state \<Rightarrow> dx_state" where
  "release_global x s = (if not_null s x then set_global x False (release_ref x s) else s)"

definition CleanupRenderTarget :: "dx_state \<Rightarrow> dx_state" where
  "CleanupRenderTarget s = release_global (Dx_back_buffer 1) (release_global (Dx_back_buffer 0) s)"

text \<open>The handle of the waitable object is closed, but its global is not set to null.\<close>

definition close_waitable :: "dx_state \<Rightarrow> dx_state" where
  "close_waitable s = (if not_null s Dx_waitable then release_ref Dx_waitable s else s)"

definition CleanupDeviceD3D :: "dx_state \<Rightarrow> dx_state" where
  "CleanupDeviceD3D s =
     fold release_global
       [Dx_allocator 0, Dx_allocator 1, Dx_queue, Dx_command_list, Dx_rtv_heap, Dx_srv_heap, Dx_fence,
        Dx_fence_event, Dx_device]
       (close_waitable (release_global Dx_swap_chain (CleanupRenderTarget s)))"

definition no_device :: "dx_state" where
  "no_device =
     \<lparr>held = (\<lambda>_. 0), not_null = (\<lambda>_. False), bad_release = False,
      srv_allocator = \<lparr>Heap = None, HeapStartCpu = 0, HeapStartGpu = 0, HeapHandleIncrement = 0, FreeIndices = []\<rparr>\<rparr>"

section \<open>What is held after the cleanup\<close>

lemmas dx_ops = acquire_def release_ref_def set_global_def create_or_fail_def check_or_fail_def
  get_back_buffer_def CreateRenderTarget_def release_global_def CleanupRenderTarget_def close_waitable_def

text \<open>The calls before the factory, and what a failing call leaves behind.\<close>

definition before_factory :: "dx_call list" where
  "before_factory =
     [Create_device, Create_rtv_heap, Create_srv_heap, Create_queue, Create_allocator 0, Create_allocator 1,
      Create_list, Close_list, Create_fence, Create_event]"

fun leaked :: "bool \<Rightarrow> (dx_call \<Rightarrow> bool) \<Rightarrow> dx_object \<Rightarrow> bool" where
  "leaked debug_layer ok Dx_debug = (debug_layer \<and> ok Get_debug_interface \<and> \<not> ok Create_device)"
| "leaked debug_layer ok Dx_factory =
     (list_all ok before_factory \<and> ok Create_factory \<and> \<not> (ok Create_swap_chain \<and> ok Query_swap_chain))"
| "leaked debug_layer ok Dx_swap_chain1 =
     (list_all ok before_factory \<and> ok Create_factory \<and> ok Create_swap_chain \<and> \<not> ok Query_swap_chain)"
| "leaked debug_layer ok _ = False"

text \<open>
  Between the calls: one reference for every global that is not null, and those of \<open>lost\<close>, which no
  global points to.
\<close>

definition consistent :: "(dx_object \<Rightarrow> bool) \<Rightarrow> dx_state \<Rightarrow> bool" where
  "consistent lost s \<longleftrightarrow> \<not> bad_release s \<and>
     (\<forall>x. held s x = (if not_null s x then 1 else 0) + (if lost x then 1 else 0))"

fun is_global :: "dx_object \<Rightarrow> bool" where
  "is_global Dx_debug = False"
| "is_global Dx_factory = False"
| "is_global Dx_swap_chain1 = False"
| "is_global (Dx_allocator i) = (i < 2)"
| "is_global (Dx_back_buffer i) = (i < 2)"
| "is_global _ = True"

definition globals_only :: "dx_state \<Rightarrow> bool" where
  "globals_only s \<longleftrightarrow> (\<forall>x. not_null s x \<longrightarrow> is_global x)"

lemma release_global_consistent:
  assumes "consistent lost s"
  shows "consistent lost (release_global x s)"
    and "not_null (release_global x s) = (not_null s)(x := False)"
  using assms by (auto simp: consistent_def release_global_def release_ref_def set_global_def fun_eq_iff)

lemma release_all_consistent:
  assumes "consistent lost s"
  shows "consistent lost (fold release_global xs s)"
    and "not_null (fold release_global xs s) = (\<lambda>x. not_null s x \<and> x \<notin> set xs)"
  using assms
  by (induction xs arbitrary: s) (auto simp: release_global_consistent fun_eq_iff)

lemma close_waitable_held:
  assumes "consistent lost s"
  shows "\<not> bad_release (close_waitable s)" and "not_null (close_waitable s) = not_null s"
    and "held (close_waitable s) x = (if not_null s x \<and> x \<noteq> Dx_waitable then 1 else 0) + (if lost x then 1 else 0)"
  using assms by (auto simp: consistent_def close_waitable_def release_ref_def)

text \<open>The handle counts as given up; its global does not matter for the rest.\<close>

lemma release_global_forget:
  "x \<noteq> Dx_waitable \<Longrightarrow>
    release_global x (set_global Dx_waitable b s) = set_global Dx_waitable b (release_global x s)"
  by (simp add: release_global_def set_global_def release_ref_def fun_upd_twist)

lemma release_all_forget:
  "Dx_waitable \<notin> set xs \<Longrightarrow>
    fold release_global xs (set_global Dx_waitable b s) = set_global Dx_waitable b (fold release_global xs s)"
  by (induction xs arbitrary: s) (auto simp: release_global_forget)

lemma set_global_back: "set_global x (not_null s x) (set_global x b s) = s"
  by (simp add: set_global_def)

lemma cleanup_consistent:
  assumes "consistent lost s" and "globals_only s"
  shows "\<not> bad_release (CleanupDeviceD3D s)"
    and "held (CleanupDeviceD3D s) = (\<lambda>x. if lost x then 1 else 0)"
    and "not_null (CleanupDeviceD3D s) = (\<lambda>x. x = Dx_waitable \<and> not_null s Dx_waitable)"
proof -
  let ?xs = "[Dx_allocator 0, Dx_allocator 1, Dx_queue, Dx_command_list, Dx_rtv_heap, Dx_srv_heap, Dx_fence,
    Dx_fence_event, Dx_device]"
  let ?first = "fold release_global [Dx_back_buffer 0, Dx_back_buffer 1, Dx_swap_chain] s"
  let ?closed = "close_waitable ?first"
  let ?forgot = "set_global Dx_waitable False ?closed"
  note first = release_all_consistent [OF assms(1), of "[Dx_back_buffer 0, Dx_back_buffer 1, Dx_swap_chain]"]
  note closed = close_waitable_held [OF first(1)]
  have forgot: "consistent lost ?forgot" using closed by (auto simp: consistent_def set_global_def)
  note rest = release_all_consistent [OF this, of ?xs]
  have "not_null ?closed Dx_waitable = not_null s Dx_waitable" unfolding closed(2) first(2) by simp
  then have "?closed = set_global Dx_waitable (not_null s Dx_waitable) ?forgot"
    using set_global_back [of Dx_waitable ?closed False] by metis
  then have "CleanupDeviceD3D s = set_global Dx_waitable (not_null s Dx_waitable) (fold release_global ?xs ?forgot)"
    using release_all_forget [of ?xs "not_null s Dx_waitable" ?forgot]
    by (simp add: CleanupDeviceD3D_def CleanupRenderTarget_def)
  moreover have "not_null (fold release_global ?xs ?forgot) = (\<lambda>_. False)"
  proof
    fix x
    have "x \<notin> set ?xs \<Longrightarrow> not_null ?forgot x = False"
      using assms(2) closed(2) first(2)
      by (cases x) (auto simp: globals_only_def set_global_def less_2_cases_iff)
    then show "not_null (fold release_global ?xs ?forgot) x = False" unfolding rest(2) by blast
  qed
  ultimately show "\<not> bad_release (CleanupDeviceD3D s)"
    and "held (CleanupDeviceD3D s) = (\<lambda>x. if lost x then 1 else 0)"
    and "not_null (CleanupDeviceD3D s) = (\<lambda>x. x = Dx_waitable \<and> not_null s Dx_waitable)"
    using rest(1) by (auto simp: consistent_def set_global_def fun_eq_iff)
qed

text \<open>The state while the device is created: \<open>nn\<close> are the globals set so far.\<close>

definition stage :: "(dx_object \<Rightarrow> bool) \<Rightarrow> dx_object set \<Rightarrow> dx_state \<Rightarrow> bool" where
  "stage lost nn s \<longleftrightarrow> consistent lost s \<and> (\<forall>x. not_null s x \<longleftrightarrow> x \<in> nn) \<and> (\<forall>x \<in> nn. is_global x)"

definition device_post :: "(dx_object \<Rightarrow> bool) \<Rightarrow> dx_state \<Rightarrow> bool \<Rightarrow> bool" where
  "device_post lost s r \<longleftrightarrow> consistent lost s \<and> not_null s Dx_waitable = r \<and> globals_only s"

lemma stage_global:
  "stage lost nn s \<Longrightarrow> x \<notin> nn \<Longrightarrow> is_global x \<Longrightarrow> stage lost (insert x nn) (set_global x True (acquire x s))"
  by (auto simp: stage_def consistent_def set_global_def acquire_def)

lemma stage_null: "stage lost nn s \<Longrightarrow> x \<notin> nn \<Longrightarrow> stage lost nn (set_global x False s)"
  by (auto simp: stage_def consistent_def set_global_def)

lemma stage_local: "stage lost nn s \<Longrightarrow> \<not> lost x \<Longrightarrow> stage (lost(x := True)) nn (acquire x s)"
  by (auto simp: stage_def consistent_def acquire_def)

lemma stage_give_back:
  "stage lost nn s \<Longrightarrow> lost x \<Longrightarrow> x \<notin> nn \<Longrightarrow> stage (lost(x := False)) nn (release_ref x s)"
  by (auto simp: stage_def consistent_def release_ref_def)

lemma stage_post: "stage lost nn s \<Longrightarrow> (Dx_waitable \<in> nn) = r \<Longrightarrow> device_post lost s r"
  by (auto simp: stage_def device_post_def globals_only_def)

lemma create_or_fail_post:
  assumes "create_or_fail b x k s = Some (s', r)" and "stage (\<lambda>_. False) nn s"
    and "x \<notin> nn" and "is_global x" and "Dx_waitable \<notin> nn"
    and "\<And>s1. stage (\<lambda>_. False) (insert x nn) s1 \<Longrightarrow> k s1 = Some (s', r) \<Longrightarrow> device_post lost s' r"
  shows "device_post (\<lambda>y. b \<and> lost y) s' r"
proof (cases b)
  case True
  then show ?thesis using assms(1,6) stage_global [OF assms(2-4)] by (simp add: create_or_fail_def)
next
  case False
  then show ?thesis using assms(1) stage_post [OF assms(2), of False] assms(5) by (simp add: create_or_fail_def)
qed

lemma check_or_fail_post:
  assumes "check_or_fail b k s = Some (s', r)" and "stage (\<lambda>_. False) nn s" and "Dx_waitable \<notin> nn"
    and "\<And>s1. stage (\<lambda>_. False) nn s1 \<Longrightarrow> k s1 = Some (s', r) \<Longrightarrow> device_post lost s' r"
  shows "device_post (\<lambda>y. b \<and> lost y) s' r"
  using assms stage_post [OF assms(2), of False] by (cases b) (auto simp: check_or_fail_def)

definition swap_chain_lost :: "(dx_call \<Rightarrow> bool) \<Rightarrow> dx_object \<Rightarrow> bool" where
  "swap_chain_lost ok x \<longleftrightarrow> ok Create_factory \<and>
     (x = Dx_factory \<and> \<not> (ok Create_swap_chain \<and> ok Query_swap_chain) \<or>
      x = Dx_swap_chain1 \<and> ok Create_swap_chain \<and> \<not> ok Query_swap_chain)"

lemma back_buffer_stage:
  "stage lost nn s \<Longrightarrow> Dx_back_buffer i \<notin> nn \<Longrightarrow> i < 2 \<Longrightarrow>
    \<exists>nn'. stage lost nn' (get_back_buffer ok i s) \<and> nn \<subseteq> nn' \<and> nn' \<subseteq> insert (Dx_back_buffer i) nn"
  using stage_global [of lost nn s "Dx_back_buffer i"] stage_null [of lost nn s "Dx_back_buffer i"]
  by (auto simp: get_back_buffer_def)

lemma render_target_post:
  assumes "stage lost nn s" and "Dx_back_buffer 0 \<notin> nn" and "Dx_back_buffer 1 \<notin> nn" and "Dx_waitable \<in> nn"
  shows "device_post lost (CreateRenderTarget ok s) True"
proof -
  obtain nn' where "stage lost nn' (get_back_buffer ok 0 s)" "nn \<subseteq> nn'" "nn' \<subseteq> insert (Dx_back_buffer 0) nn"
    using back_buffer_stage [OF assms(1,2), of ok] by auto
  moreover then have "Dx_back_buffer 1 \<notin> nn'" using assms(3) by auto
  ultimately obtain nn'' where "stage lost nn'' (CreateRenderTarget ok s)" "nn \<subseteq> nn''"
    using back_buffer_stage [of lost nn' _ 1 ok] unfolding CreateRenderTarget_def by fastforce
  then show ?thesis using assms(4) by (auto intro: stage_post)
qed

lemma create_swap_chain_post:
  assumes "create_swap_chain ok s = Some (s', r)" and "stage (\<lambda>_. False) nn s"
    and "Dx_waitable \<notin> nn" "Dx_swap_chain \<notin> nn" "Dx_back_buffer 0 \<notin> nn" "Dx_back_buffer 1 \<notin> nn"
    "Dx_factory \<notin> nn" "Dx_swap_chain1 \<notin> nn"
  shows "device_post (swap_chain_lost ok) s' r"
proof -
  let ?factory = "(\<lambda>_. False)(Dx_factory := True)"
  let ?both = "?factory(Dx_swap_chain1 := True)"
  have 1: "stage ?factory nn (acquire Dx_factory s)" by (rule stage_local [OF assms(2)]) simp
  have 2: "stage ?both nn (acquire Dx_swap_chain1 (acquire Dx_factory s))" by (rule stage_local [OF 1]) simp
  have 3: "stage ?both (insert Dx_swap_chain nn)
      (set_global Dx_swap_chain True (acquire Dx_swap_chain (acquire Dx_swap_chain1 (acquire Dx_factory s))))"
    (is "stage _ _ ?s3") by (rule stage_global [OF 2]) (simp_all add: assms)
  have "stage ((?both(Dx_swap_chain1 := False))(Dx_factory := False)) (insert Dx_swap_chain nn)
      (release_ref Dx_factory (release_ref Dx_swap_chain1 ?s3))"
    by (rule stage_give_back [OF stage_give_back [OF 3]]) (simp_all add: assms)
  then have 4: "stage (\<lambda>_. False) (insert Dx_swap_chain nn) (release_ref Dx_factory (release_ref Dx_swap_chain1 ?s3))"
    by (simp add: fun_upd_def stage_def consistent_def)
  have 5: "device_post (\<lambda>_. False) (CreateRenderTarget ok (set_global Dx_waitable True (acquire Dx_waitable
      (release_ref Dx_factory (release_ref Dx_swap_chain1 ?s3))))) True"
    by (rule render_target_post [OF stage_global [OF 4, of Dx_waitable]]) (use assms in auto)
  have lost: "swap_chain_lost ok =
      (if \<not> ok Create_factory then (\<lambda>_. False) else if \<not> ok Create_swap_chain then ?factory
       else if \<not> ok Query_swap_chain then ?both else (\<lambda>_. False))"
    by (auto simp: swap_chain_lost_def fun_eq_iff)
  show ?thesis
    using assms(1) stage_post [OF assms(2), of False] stage_post [OF 1, of False] stage_post [OF 2, of False] 5
    unfolding lost create_swap_chain_def create_or_fail_def check_or_fail_def
    by (auto simp: assms Let_def split: if_splits)
qed

definition commands_lost :: "(dx_call \<Rightarrow> bool) \<Rightarrow> dx_object \<Rightarrow> bool" where
  "commands_lost ok x \<longleftrightarrow>
     list_all ok [Create_queue, Create_allocator 0, Create_allocator 1, Create_list, Close_list, Create_fence, Create_event] \<and>
     swap_chain_lost ok x"

lemma create_commands_post:
  assumes "create_commands ok s = Some (s', r)" and "stage (\<lambda>_. False) {Dx_device, Dx_rtv_heap, Dx_srv_heap} s"
  shows "device_post (commands_lost ok) s' r"
proof -
  have "device_post (\<lambda>y. ok Create_queue \<and> ok (Create_allocator 0) \<and> ok (Create_allocator 1) \<and> ok Create_list \<and>
      ok Close_list \<and> ok Create_fence \<and> ok Create_event \<and> swap_chain_lost ok y) s' r"
    using assms unfolding create_commands_def
    by - ((erule (1) create_or_fail_post check_or_fail_post, (simp; fail)+)+,
          erule (1) create_swap_chain_post, simp_all)
  then show ?thesis by (simp add: commands_lost_def [abs_def])
qed

lemma create_heaps_post:
  assumes "create_heaps asserts increment_of h ok s = Some (s', r)" and "stage (\<lambda>_. False) {Dx_device} s"
  shows "device_post (\<lambda>y. ok Create_rtv_heap \<and> ok Create_srv_heap \<and> commands_lost ok y) s' r"
proof -
  have commands: "device_post (commands_lost ok) s' r"
    if st: "stage (\<lambda>_. False) {Dx_srv_heap, Dx_rtv_heap, Dx_device} s2"
      and calls: "(case heap_create asserts increment_of h (srv_allocator s2) of None \<Rightarrow> None
        | Some a \<Rightarrow> create_commands ok (s2\<lparr>srv_allocator := a\<rparr>)) = Some (s', r)" for s2
  proof -
    obtain a where "create_commands ok (s2\<lparr>srv_allocator := a\<rparr>) = Some (s', r)"
      using calls by (auto split: option.splits)
    moreover have "stage (\<lambda>_. False) {Dx_device, Dx_rtv_heap, Dx_srv_heap} (s2\<lparr>srv_allocator := a\<rparr>)"
      using st by (auto simp: stage_def consistent_def)
    ultimately show ?thesis by (rule create_commands_post)
  qed
  show ?thesis
    using assms unfolding create_heaps_def
    by - ((erule (1) create_or_fail_post, (simp; fail)+)+, erule (1) commands)
qed

lemma leaked_eq:
  "leaked debug_layer ok =
    (if ok Create_device
     then (\<lambda>y. ok Create_rtv_heap \<and> ok Create_srv_heap \<and> commands_lost ok y)
     else (\<lambda>y. debug_layer \<and> ok Get_debug_interface \<and> y = Dx_debug))"
proof
  show "leaked debug_layer ok x = (if ok Create_device
     then (\<lambda>y. ok Create_rtv_heap \<and> ok Create_srv_heap \<and> commands_lost ok y)
     else (\<lambda>y. debug_layer \<and> ok Get_debug_interface \<and> y = Dx_debug)) x" for x
    by (cases x) (auto simp: commands_lost_def swap_chain_lost_def before_factory_def)
qed

lemma no_device_stage: "stage (\<lambda>_. False) {} no_device"
  by (simp add: stage_def consistent_def no_device_def)

lemma debug_stage:
  assumes "stage (\<lambda>_. False) {} s"
  shows "stage (\<lambda>_. False) {Dx_device}
    (release_ref Dx_debug (set_global Dx_device True (acquire Dx_device (acquire Dx_debug s))))"
  using assms by (auto simp: stage_def consistent_def release_ref_def set_global_def acquire_def)

lemma create_consistent:
  assumes "CreateDeviceD3D debug_layer asserts increment_of h ok no_device = Some (s, r)"
  shows "device_post (leaked debug_layer ok) s r"
proof (cases "ok Create_device")
  case True
  let ?start = "set_global Dx_device True (acquire Dx_device no_device)"
  have "stage (\<lambda>_. False) {Dx_device} ?start" by (rule stage_global [OF no_device_stage]) simp_all
  with debug_stage [OF no_device_stage] True show ?thesis
    using assms create_heaps_post [of asserts increment_of h ok _ s r]
    by (auto simp: leaked_eq CreateDeviceD3D_def create_or_fail_def Let_def split: if_splits)
next
  case False
  have "stage (\<lambda>y. y = Dx_debug) {} (acquire Dx_debug no_device)"
    using stage_local [OF no_device_stage, of Dx_debug] by (simp add: fun_upd_def stage_def consistent_def)
  then show ?thesis
    using assms False stage_post [OF no_device_stage, of False] stage_post [of "\<lambda>y. y = Dx_debug" "{}" _ False]
    by (auto simp: leaked_eq CreateDeviceD3D_def create_or_fail_def Let_def split: if_splits)
qed


lemmas dx_calls = CreateDeviceD3D_def create_heaps_def create_commands_def create_swap_chain_def CleanupDeviceD3D_def

text \<open>The allocator of descriptors keeps its heap and its indices.\<close>

lemma create_succeeds:
  assumes "ok = (\<lambda>_. True)" and "Heap (srv_allocator s) = None" and "FreeIndices (srv_allocator s) = []"
  shows "\<exists>s'. CreateDeviceD3D debug_layer asserts increment_of h ok s = Some (s', True) \<and>
    Heap (srv_allocator s') = Some h \<and> not_null s' Dx_waitable"
  using assms by (simp add: dx_calls dx_ops Let_def heap_create_def guarded_def)

lemma cleanup_keeps_allocator: "srv_allocator (CleanupDeviceD3D s) = srv_allocator s"
proof -
  have "srv_allocator (release_global x s) = srv_allocator s" for x s
    by (simp add: release_global_def release_ref_def set_global_def)
  moreover then have "srv_allocator (fold release_global xs s) = srv_allocator s" for xs s
    by (induction xs arbitrary: s) auto
  ultimately show ?thesis
    by (simp add: CleanupDeviceD3D_def CleanupRenderTarget_def close_waitable_def release_ref_def)
qed


lemma closed_twice:
  assumes "not_null s Dx_waitable" and "held s Dx_waitable = 0"
  shows "bad_release (CleanupDeviceD3D s)"
proof -
  have "bad_release (release_global x s)" if "bad_release s" for x s
    using that by (simp add: release_global_def release_ref_def set_global_def)
  then have bad: "bad_release (fold release_global xs s)" if "bad_release s" for xs s
    using that by (induction xs arbitrary: s) auto
  have "bad_release (close_waitable (release_global Dx_swap_chain (CleanupRenderTarget s)))"
    using assms
    by (simp add: CleanupRenderTarget_def close_waitable_def release_global_def release_ref_def set_global_def)
  then show ?thesis unfolding CleanupDeviceD3D_def by (rule bad)
qed

text \<open>
  So a second \<open>start\<close> fails its assertion; and where assertions are off and its device cannot be
  created, the cleanup closes the handle of the first run a second time.
\<close>

lemma second_start:
  assumes "CreateDeviceD3D debug_layer asserts increment_of h (\<lambda>_. True) no_device = Some (s, True)"
  shows "CreateDeviceD3D debug_layer True increment_of h (\<lambda>_. True) (CleanupDeviceD3D s) = None"
    and "bad_release (CleanupDeviceD3D (CleanupDeviceD3D s))"
    and "CreateDeviceD3D False asserts increment_of h (\<lambda>_. False) (CleanupDeviceD3D s) = Some (CleanupDeviceD3D s, False)"
proof -
  have empty: "Heap (srv_allocator no_device) = None" "FreeIndices (srv_allocator no_device) = []"
    by (simp_all add: no_device_def)
  have "Heap (srv_allocator s) = Some h"
    using create_succeeds [OF refl empty, of debug_layer asserts increment_of h] assms by auto
  then have "Heap (srv_allocator (CleanupDeviceD3D s)) = Some h" by (simp add: cleanup_keeps_allocator)
  then show "CreateDeviceD3D debug_layer True increment_of h (\<lambda>_. True) (CleanupDeviceD3D s) = None"
    by (simp add: CreateDeviceD3D_def create_heaps_def Let_def heap_create_def guarded_def create_or_fail_def
        set_global_def acquire_def release_ref_def)
  show "CreateDeviceD3D False asserts increment_of h (\<lambda>_. False) (CleanupDeviceD3D s) = Some (CleanupDeviceD3D s, False)"
    by (simp add: CreateDeviceD3D_def create_or_fail_def)
  have post: "device_post (leaked debug_layer (\<lambda>_. True)) s True" by (rule create_consistent [OF assms])
  note after = cleanup_consistent [of "leaked debug_layer (\<lambda>_. True)" s]
  have "not_null (CleanupDeviceD3D s) Dx_waitable" "held (CleanupDeviceD3D s) Dx_waitable = 0"
    using post after by (auto simp: device_post_def)
  then show "bad_release (CleanupDeviceD3D (CleanupDeviceD3D s))"
    by (rule closed_twice)
qed

end
