(* ===== verification/Frames.thy ===== *)
theory Frames
  imports Prelude
begin

text \<open>
  The frames in flight of the Direct3D 12 wrapper, \<open>imgui/src/imgui_wrapper_win32_directx12.cpp\<close>: the
  main loop of \<open>start\<close>, \<open>WaitForNextFrameResources\<close>, \<open>WaitForLastSubmittedFrame\<close>, the handler of
  \<open>WM_SIZE\<close> and the release of everything at the end, against a device that works off its queue at its
  own pace. The processor must not reset a command allocator or release a back buffer while commands
  that use them are still queued.
\<close>

section \<open>The state\<close>

text \<open>
  What the queue of the device holds: the command list of a frame context drawing to a back buffer, the
  presentation of a back buffer, a signal of the fence.
\<close>

datatype gpu_command =
    Execute nat nat
  | Present_buffer nat
  | Signal_fence u64

text \<open>Who called \<open>WaitForLastSubmittedFrame\<close>, in the order of the calls.\<close>

datatype last_wait =
    Size_handler
  | Size_cleanup
  | Loop_end
  | Device_cleanup

text \<open>
  Where the thread of \<open>start\<close> is: at the top of the main loop, in one of the two waits with the value
  waited for (in \<open>WaitForNextFrameResources\<close> only if one was signalled), before the reset of the command
  allocator, after \<open>ExecuteCommandLists\<close>, after \<open>Present\<close>, or done.
\<close>

datatype frame_pc =
    Polling
  | Waiting_last last_wait u64
  | Waiting_next "u64 option"
  | Recording
  | Submitted nat
  | Presented
  | Closed

text \<open>
  The globals of the file, with the fence (its completed value and the values \<open>g_fenceEvent\<close> was
  registered for), the event (it resets itself when a wait ends), the signals of the swap chain's
  waitable object not waited for yet, and the queue of the device. \<open>hazard\<close> records that something was
  reset or released under the device, \<open>signals\<close> counts the calls of \<open>Signal\<close>.
\<close>

record frames =
  fence_values :: "u64 list"
  g_frameIndex :: u32
  g_fenceLastSignaledValue :: u64
  g_SwapChainOccluded :: bool
  buffers_held :: bool
  loop_done :: bool
  frame_pc :: frame_pc
  fence_completed :: u64
  registered :: "u64 list"
  fence_event :: bool
  waitable :: nat
  gpu_queue :: "gpu_command list"
  hazard :: bool
  signals :: nat

definition APP_NUM_FRAMES_IN_FLIGHT :: nat where "APP_NUM_FRAMES_IN_FLIGHT = 2"

text \<open>\<open>g_frameContext[g_frameIndex % APP_NUM_FRAMES_IN_FLIGHT]\<close>.\<close>

definition current_context :: "frames \<Rightarrow> nat" where
  "current_context s = unat (g_frameIndex s) mod APP_NUM_FRAMES_IN_FLIGHT"

section \<open>The device\<close>

definition set_event_on_completion :: "u64 \<Rightarrow> frames \<Rightarrow> frames" where
  "set_event_on_completion v s =
     (if v \<le> fence_completed s then s\<lparr>fence_event := True\<rparr>
      else s\<lparr>registered := registered s @ [v]\<rparr>)"

definition gpu_step :: "frames \<Rightarrow> frames option" where
  "gpu_step s =
     (case gpu_queue s of
        [] \<Rightarrow> None
      | Signal_fence v # q \<Rightarrow>
          Some (s\<lparr>gpu_queue := q, fence_completed := v,
                  fence_event := (fence_event s \<or> (\<exists>w \<in> set (registered s). w \<le> v)),
                  registered := filter (\<lambda>w. \<not> w \<le> v) (registered s)\<rparr>)
      | _ # q \<Rightarrow> Some (s\<lparr>gpu_queue := q\<rparr>))"

section \<open>The two waits\<close>

text \<open>
  \<open>WaitForLastSubmittedFrame\<close> up to \<open>WaitForSingleObject\<close>: the value to wait for, \<open>None\<close> when it returns
  at once.
\<close>

definition last_submitted :: "frames \<Rightarrow> frames \<times> u64 option" where
  "last_submitted s =
     (let i = current_context s; v = fence_values s ! i
      in if v = 0 then (s, None)
         else let s1 = s\<lparr>fence_values := (fence_values s)[i := 0]\<rparr>
              in if v \<le> fence_completed s1 then (s1, None)
                 else (set_event_on_completion v s1, Some v))"

definition wait_then :: "last_wait \<Rightarrow> (frames \<Rightarrow> frames) \<Rightarrow> frames \<Rightarrow> frames" where
  "wait_then c k s =
     (case last_submitted s of
        (s1, None) \<Rightarrow> k s1
      | (s1, Some v) \<Rightarrow> s1\<lparr>frame_pc := Waiting_last c v\<rparr>)"

text \<open>\<open>WaitForNextFrameResources\<close> up to \<open>WaitForMultipleObjects\<close>.\<close>

definition next_resources :: "frames \<Rightarrow> frames" where
  "next_resources s =
     (let s1 = s\<lparr>g_frameIndex := g_frameIndex s + 1\<rparr>;
          i = current_context s1; v = fence_values s1 ! i
      in if v \<noteq> 0
         then (set_event_on_completion v (s1\<lparr>fence_values := (fence_values s1)[i := 0]\<rparr>))
                \<lparr>frame_pc := Waiting_next (Some v)\<rparr>
         else s1\<lparr>frame_pc := Waiting_next None\<rparr>)"

section \<open>Resizing and the end\<close>

text \<open>Releasing the back buffers is only right when the device has nothing left to do.\<close>

definition release_buffers :: "frames \<Rightarrow> frames" where
  "release_buffers s = s\<lparr>buffers_held := False, hazard := (hazard s \<or> gpu_queue s \<noteq> [])\<rparr>"

text \<open>\<open>CleanupRenderTarget\<close> after its wait, \<open>ResizeBuffers\<close> and \<open>CreateRenderTarget\<close>.\<close>

definition after_size_cleanup :: "frames \<Rightarrow> frames" where
  "after_size_cleanup s = (release_buffers s)\<lparr>buffers_held := True, frame_pc := Polling\<rparr>"

definition after_size_handler :: "frames \<Rightarrow> frames" where
  "after_size_handler = wait_then Size_cleanup after_size_cleanup"

definition size_message :: "frames \<Rightarrow> frames" where
  "size_message = wait_then Size_handler after_size_handler"

text \<open>The end: the wait after the loop, then the one in \<open>CleanupDeviceD3D\<close>.\<close>

definition after_device_cleanup :: "frames \<Rightarrow> frames" where
  "after_device_cleanup s = (release_buffers s)\<lparr>frame_pc := Closed\<rparr>"

definition after_loop_end :: "frames \<Rightarrow> frames" where
  "after_loop_end = wait_then Device_cleanup after_device_cleanup"

definition loop_end :: "frames \<Rightarrow> frames" where
  "loop_end = wait_then Loop_end after_loop_end"

definition resume :: "last_wait \<Rightarrow> frames \<Rightarrow> frames" where
  "resume c = (case c of
     Size_handler \<Rightarrow> after_size_handler
   | Size_cleanup \<Rightarrow> after_size_cleanup
   | Loop_end \<Rightarrow> after_loop_end
   | Device_cleanup \<Rightarrow> after_device_cleanup)"

section \<open>The main loop\<close>

text \<open>
  The events: a message \<open>WM_SIZE\<close> or \<open>WM_QUIT\<close>, the \<open>break\<close> once the messages are handled; an iteration that is skipped or that draws a frame,
  with what \<open>Present(0, DXGI_PRESENT_TEST)\<close> and \<open>IsIconic\<close> answer and what the iteration callback makes
  of \<open>done\<close>; the end of a wait; the recording and submission to a back buffer; \<open>Present\<close> and its
  answer; the signal; and the device or the swap chain going on.
\<close>

datatype frame_event =
    Size_message bool
  | Quit_message
  | Loop_break
  | Skip_frame bool bool
  | Begin_frame bool bool bool
  | Wait_over
  | Record_submit nat
  | Present_call bool
  | Signal_call
  | Gpu_runs
  | Waitable_signalled

definition screen_locked :: "bool \<Rightarrow> bool \<Rightarrow> frames \<Rightarrow> bool" where
  "screen_locked test_occluded iconic s \<longleftrightarrow> (g_SwapChainOccluded s \<and> test_occluded) \<or> iconic"

definition wait_over :: "frames \<Rightarrow> frames option" where
  "wait_over s =
     (case frame_pc s of
        Waiting_last c v \<Rightarrow> guarded (fence_event s) (resume c (s\<lparr>fence_event := False\<rparr>))
      | Waiting_next None \<Rightarrow>
          guarded (0 < waitable s) (s\<lparr>waitable := waitable s - 1, frame_pc := Recording\<rparr>)
      | Waiting_next (Some v) \<Rightarrow>
          guarded (0 < waitable s \<and> fence_event s)
            (s\<lparr>waitable := waitable s - 1, fence_event := False, frame_pc := Recording\<rparr>)
      | _ \<Rightarrow> None)"

text \<open>\<open>CommandAllocator->Reset()\<close>, the recording and \<open>ExecuteCommandLists\<close>.\<close>

definition uses_allocator :: "nat \<Rightarrow> gpu_command list \<Rightarrow> bool" where
  "uses_allocator i q \<longleftrightarrow> (\<exists>c \<in> set q. case c of Execute j b \<Rightarrow> i = j | _ \<Rightarrow> False)"

definition record_submit :: "nat \<Rightarrow> frames \<Rightarrow> frames" where
  "record_submit b s =
     s\<lparr>hazard := (hazard s \<or> uses_allocator (current_context s) (gpu_queue s) \<or> \<not> buffers_held s),
       gpu_queue := gpu_queue s @ [Execute (current_context s) b], frame_pc := Submitted b\<rparr>"

definition signal_call :: "frames \<Rightarrow> frames" where
  "signal_call s =
     (let fenceValue = g_fenceLastSignaledValue s + 1;
          s1 = s\<lparr>gpu_queue := gpu_queue s @ [Signal_fence fenceValue],
                 g_fenceLastSignaledValue := fenceValue,
                 fence_values := (fence_values s)[current_context s := fenceValue],
                 signals := signals s + 1\<rparr>
      in if loop_done s1 then loop_end s1 else s1\<lparr>frame_pc := Polling\<rparr>)"

fun frame_exec :: "frame_event \<Rightarrow> frames \<Rightarrow> frames option" where
  "frame_exec (Size_message minimised) s =
     guarded (frame_pc s = Polling) (if minimised then s else size_message s)"
| "frame_exec Quit_message s = guarded (frame_pc s = Polling) (s\<lparr>loop_done := True\<rparr>)"
| "frame_exec Loop_break s = guarded (frame_pc s = Polling \<and> loop_done s) (loop_end s)"
| "frame_exec (Skip_frame test_occluded iconic) s =
     guarded (frame_pc s = Polling \<and> \<not> loop_done s \<and> screen_locked test_occluded iconic s) s"
| "frame_exec (Begin_frame test_occluded iconic d) s =
     guarded (frame_pc s = Polling \<and> \<not> loop_done s \<and> \<not> screen_locked test_occluded iconic s)
       (next_resources (s\<lparr>g_SwapChainOccluded := False, loop_done := d\<rparr>))"
| "frame_exec Wait_over s = wait_over s"
| "frame_exec (Record_submit b) s = guarded (frame_pc s = Recording) (record_submit b s)"
| "frame_exec (Present_call occluded) s =
     (case frame_pc s of
        Submitted b \<Rightarrow> Some (s\<lparr>gpu_queue := gpu_queue s @ [Present_buffer b],
                              g_SwapChainOccluded := occluded, frame_pc := Presented\<rparr>)
      | _ \<Rightarrow> None)"
| "frame_exec Signal_call s = guarded (frame_pc s = Presented) (signal_call s)"
| "frame_exec Gpu_runs s = gpu_step s"
| "frame_exec Waitable_signalled s = Some (s\<lparr>waitable := waitable s + 1\<rparr>)"

inductive frame_step :: "frames \<Rightarrow> frame_event \<Rightarrow> frames \<Rightarrow> bool" where
  frame_step: "frame_exec e s = Some s' \<Longrightarrow> frame_step s e s'"

inductive_cases frame_stepE: "frame_step s e s'"

text \<open>
  The globals as \<open>CreateDeviceD3D\<close> leaves them: the fence, the queue and the event are new; the frame
  contexts, the index and the last value signalled keep what they have, which the first time is the
  zeros they are initialised with.
\<close>

definition create_frames :: "frames \<Rightarrow> frames" where
  "create_frames s =
     s\<lparr>buffers_held := True, loop_done := False, frame_pc := Polling, fence_completed := 0,
       registered := [], fence_event := False, gpu_queue := []\<rparr>"

definition initial_frames :: "nat \<Rightarrow> frames" where
  "initial_frames n = create_frames
     \<lparr>fence_values = [0, 0], g_frameIndex = 0, g_fenceLastSignaledValue = 0,
      g_SwapChainOccluded = False, buffers_held = False, loop_done = False, frame_pc = Closed,
      fence_completed = 0, registered = [], fence_event = False, waitable = n, gpu_queue = [],
      hazard = False, signals = 0\<rparr>"

definition frames_init :: "frames \<Rightarrow> bool" where
  "frames_init s \<longleftrightarrow> (\<exists>n. s = initial_frames n)"

section \<open>What holds in every state\<close>

text \<open>The values the queue will signal, and the frames a value covers.\<close>

fun signals_of :: "gpu_command list \<Rightarrow> u64 list" where
  "signals_of [] = []"
| "signals_of (Signal_fence v # q) = v # signals_of q"
| "signals_of (_ # q) = signals_of q"

fun covered :: "u64 \<Rightarrow> nat \<Rightarrow> gpu_command list \<Rightarrow> bool" where
  "covered v i [] = True"
| "covered v i (Execute j b # q) = ((i = j \<longrightarrow> v \<in> set (signals_of q)) \<and> covered v i q)"
| "covered v i (_ # q) = covered v i q"

lemma signals_of_append [simp]: "signals_of (p @ q) = signals_of p @ signals_of q"
  by (induction p rule: signals_of.induct) auto

lemma covered_append_signal [simp]: "covered v i (q @ [Signal_fence v])"
  by (induction q rule: covered.induct [of _ v i]) auto

lemma covered_append:
  "covered v i q \<Longrightarrow> covered v i p \<Longrightarrow> covered v i (q @ p)"
  by (induction q rule: covered.induct [of _ v i]) auto

lemma covered_unused:
  "covered v i q \<Longrightarrow> v \<notin> set (signals_of q) \<Longrightarrow> \<not> uses_allocator i q"
  by (induction q rule: covered.induct [of _ v i]) (auto simp: uses_allocator_def)

lemma unused_covered: "\<not> uses_allocator i q \<Longrightarrow> covered v i q"
  by (induction q rule: covered.induct [of _ v i]) (auto simp: uses_allocator_def)

lemma covered_tl: "covered v i (c # q) \<Longrightarrow> covered v i q"
  by (cases c) auto

text \<open>The value that stands for the frame of context \<open>i\<close>: a wait that has cleared it holds it itself.\<close>

definition fence_of :: "frames \<Rightarrow> nat \<Rightarrow> u64" where
  "fence_of s i =
     (case frame_pc s of
        Waiting_last c v \<Rightarrow> if i = current_context s then v else fence_values s ! i
      | Waiting_next (Some v) \<Rightarrow> if i = current_context s then v else fence_values s ! i
      | _ \<Rightarrow> fence_values s ! i)"

definition in_flight :: "frame_pc \<Rightarrow> bool" where
  "in_flight p \<longleftrightarrow> p = Presented \<or> (\<exists>b. p = Submitted b)"

definition waits_for :: "frame_pc \<Rightarrow> u64 option" where
  "waits_for p = (case p of Waiting_last c v \<Rightarrow> Some v | Waiting_next w \<Rightarrow> w | _ \<Rightarrow> None)"

text \<open>The fence: what is queued to be signalled is the next values, up to the last one handed out.\<close>

definition fence_ok :: "frames \<Rightarrow> bool" where
  "fence_ok s \<longleftrightarrow> unat (g_fenceLastSignaledValue s) = signals s \<and>
     unat (fence_completed s) \<le> signals s \<and>
     map unat (signals_of (gpu_queue s)) = [Suc (unat (fence_completed s))..<Suc (signals s)]"

definition event_ok :: "frames \<Rightarrow> bool" where
  "event_ok s \<longleftrightarrow>
     (case waits_for (frame_pc s) of
        None \<Rightarrow> \<not> fence_event s \<and> registered s = []
      | Some v \<Rightarrow> unat v \<le> signals s \<and>
          (if fence_event s then v \<le> fence_completed s \<and> registered s = []
           else registered s = [v] \<and> \<not> v \<le> fence_completed s))"

definition contexts_ok :: "frames \<Rightarrow> bool" where
  "contexts_ok s \<longleftrightarrow> length (fence_values s) = APP_NUM_FRAMES_IN_FLIGHT \<and>
     (\<forall>i < APP_NUM_FRAMES_IN_FLIGHT. unat (fence_values s ! i) \<le> signals s \<and>
        (in_flight (frame_pc s) \<and> i = current_context s \<or> covered (fence_of s i) i (gpu_queue s)))"

definition queue_ok :: "frames \<Rightarrow> bool" where
  "queue_ok s \<longleftrightarrow>
     (in_flight (frame_pc s) \<or> gpu_queue s = [] \<or> last (gpu_queue s) = Signal_fence (g_fenceLastSignaledValue s)) \<and>
     (frame_pc s = Polling \<or> (\<exists>c v. frame_pc s = Waiting_last c v) \<longrightarrow>
        fence_of s (current_context s) = g_fenceLastSignaledValue s \<or>
        fence_completed s = g_fenceLastSignaledValue s) \<and>
     (frame_pc s = Recording \<or> frame_pc s = Waiting_next None \<longrightarrow>
        \<not> uses_allocator (current_context s) (gpu_queue s)) \<and>
     (if frame_pc s = Closed then gpu_queue s = [] else buffers_held s)"

definition frames_good :: "frames \<Rightarrow> bool" where
  "frames_good s \<longleftrightarrow> fence_ok s \<and> event_ok s \<and> contexts_ok s \<and> queue_ok s \<and> \<not> hazard s"

definition calm :: "frames \<Rightarrow> bool" where
  "calm s \<longleftrightarrow> frames_good (s\<lparr>frame_pc := Polling\<rparr>)"

lemmas frames_good_defs = frames_good_def fence_ok_def event_ok_def contexts_ok_def queue_ok_def

lemma current_context_less [simp]: "current_context s < APP_NUM_FRAMES_IN_FLIGHT"
  by (simp add: current_context_def APP_NUM_FRAMES_IN_FLIGHT_def)

lemma current_context_simps [simp]:
  "current_context (s\<lparr>frame_pc := p\<rparr>) = current_context s"
  "current_context (s\<lparr>fence_values := vs\<rparr>) = current_context s"
  "current_context (s\<lparr>fence_event := e\<rparr>) = current_context s"
  "current_context (s\<lparr>registered := r\<rparr>) = current_context s"
  "current_context (s\<lparr>gpu_queue := q\<rparr>) = current_context s"
  "current_context (s\<lparr>fence_completed := v\<rparr>) = current_context s"
  "current_context (s\<lparr>g_fenceLastSignaledValue := v\<rparr>) = current_context s"
  "current_context (s\<lparr>signals := n\<rparr>) = current_context s"
  "current_context (s\<lparr>hazard := h\<rparr>) = current_context s"
  "current_context (s\<lparr>buffers_held := h\<rparr>) = current_context s"
  "current_context (s\<lparr>waitable := n\<rparr>) = current_context s"
  "current_context (s\<lparr>loop_done := h\<rparr>) = current_context s"
  "current_context (s\<lparr>g_SwapChainOccluded := h\<rparr>) = current_context s"
  by (simp_all add: current_context_def)

text \<open>A value the device has reached is not going to be signalled any more.\<close>

lemma reached_not_queued:
  assumes "fence_ok s" and "v \<le> fence_completed s"
  shows "v \<notin> set (signals_of (gpu_queue s))"
proof
  assume "v \<in> set (signals_of (gpu_queue s))"
  then have "unat v \<in> set (map unat (signals_of (gpu_queue s)))" by simp
  then have "unat v \<in> set [Suc (unat (fence_completed s))..<Suc (signals s)]"
    using assms(1) by (simp only: fence_ok_def)
  then have "unat (fence_completed s) < unat v" by (simp only: set_upt atLeastLessThan_iff Suc_le_eq)
  then show False using assms(2) by (simp add: word_le_nat_alt)
qed

lemma drained:
  assumes "fence_ok s" and "fence_completed s = g_fenceLastSignaledValue s"
    and "gpu_queue s = [] \<or> last (gpu_queue s) = Signal_fence (g_fenceLastSignaledValue s)"
  shows "gpu_queue s = []"
proof (rule ccontr)
  assume "gpu_queue s \<noteq> []"
  then obtain q where "gpu_queue s = q @ [Signal_fence (g_fenceLastSignaledValue s)]"
    using assms(3) by (metis append_butlast_last_id)
  then show False using reached_not_queued [OF assms(1), of "g_fenceLastSignaledValue s"] assms(2) by simp
qed

lemma all_reached:
  assumes "fence_ok s" and "g_fenceLastSignaledValue s \<le> fence_completed s"
  shows "fence_completed s = g_fenceLastSignaledValue s"
  using assms by (simp add: fence_ok_def word_le_nat_alt word_unat_eq_iff)

text \<open>When nothing is queued a context may have any value.\<close>

lemma calm_idle:
  assumes "calm s" and "gpu_queue s = []" and "fence_completed s = g_fenceLastSignaledValue s"
  shows "calm (s\<lparr>fence_values := (fence_values s)[current_context s := 0]\<rparr>)"
  using assms
  by (simp add: calm_def frames_good_defs fence_of_def in_flight_def waits_for_def nth_list_update)

lemma last_submitted_None:
  assumes "calm s" and "last_submitted s = (s1, None)"
  shows "calm s1 \<and> gpu_queue s1 = []"
proof -
  let ?v = "fence_values s ! current_context s"
  have ok: "fence_ok s" and last: "gpu_queue s = [] \<or> last (gpu_queue s) = Signal_fence (g_fenceLastSignaledValue s)"
    and v: "?v = g_fenceLastSignaledValue s \<or> fence_completed s = g_fenceLastSignaledValue s"
    using assms(1) by (auto simp: calm_def frames_good_defs fence_of_def in_flight_def)
  have "?v = 0 \<or> ?v \<le> fence_completed s" and s1: "s1 = s \<or> s1 = s\<lparr>fence_values := (fence_values s)[current_context s := 0]\<rparr>"
    using assms(2) by (auto simp: last_submitted_def Let_def split: if_splits)
  then have "g_fenceLastSignaledValue s \<le> fence_completed s" using v by auto
  then have all: "fence_completed s = g_fenceLastSignaledValue s" by (rule all_reached [OF ok])
  then have "gpu_queue s = []" by (rule drained [OF ok _ last])
  then show ?thesis using s1 calm_idle [OF assms(1) _ all] assms(1) by auto
qed

lemma last_submitted_Some:
  assumes "calm s" and "last_submitted s = (s1, Some v)"
  shows "frames_good (s1\<lparr>frame_pc := Waiting_last c v\<rparr>)"
proof -
  have v: "v = fence_values s ! current_context s" "\<not> v \<le> fence_completed s"
    and s1: "s1 = s\<lparr>fence_values := (fence_values s)[current_context s := 0], registered := registered s @ [v]\<rparr>"
    using assms(2) by (auto simp: last_submitted_def Let_def set_event_on_completion_def split: if_splits)
  show ?thesis using assms(1) v
    by (simp add: s1 calm_def frames_good_defs fence_of_def in_flight_def waits_for_def nth_list_update)
qed

lemma wait_then_good:
  assumes "calm s" and "\<And>s1. calm s1 \<Longrightarrow> gpu_queue s1 = [] \<Longrightarrow> frames_good (k s1)"
  shows "frames_good (wait_then c k s)"
  using assms last_submitted_None [OF assms(1)] last_submitted_Some [OF assms(1)]
  by (auto simp: wait_then_def split: prod.splits option.splits)

lemma after_size_cleanup_good: "calm s \<Longrightarrow> gpu_queue s = [] \<Longrightarrow> frames_good (after_size_cleanup s)"
  by (simp add: after_size_cleanup_def release_buffers_def calm_def frames_good_defs fence_of_def in_flight_def waits_for_def)

lemma after_device_cleanup_good: "calm s \<Longrightarrow> gpu_queue s = [] \<Longrightarrow> frames_good (after_device_cleanup s)"
  by (simp add: after_device_cleanup_def release_buffers_def calm_def frames_good_defs fence_of_def in_flight_def waits_for_def)

lemma after_size_handler_good: "calm s \<Longrightarrow> frames_good (after_size_handler s)"
  by (simp add: after_size_handler_def wait_then_good after_size_cleanup_good)

lemma size_message_good: "calm s \<Longrightarrow> frames_good (size_message s)"
  by (simp add: size_message_def wait_then_good after_size_handler_good)

lemma after_loop_end_good: "calm s \<Longrightarrow> frames_good (after_loop_end s)"
  by (simp add: after_loop_end_def wait_then_good after_device_cleanup_good)

lemma loop_end_good: "calm s \<Longrightarrow> frames_good (loop_end s)"
  by (simp add: loop_end_def wait_then_good after_loop_end_good)

lemma resume_good: "calm s \<Longrightarrow> gpu_queue s = [] \<Longrightarrow> frames_good (resume c s)"
  by (cases c)
    (simp_all add: resume_def after_size_handler_good after_size_cleanup_good after_loop_end_good after_device_cleanup_good)

lemma next_resources_good:
  assumes "calm s"
  shows "frames_good (next_resources s)"
proof -
  let ?s = "s\<lparr>g_frameIndex := g_frameIndex s + 1\<rparr>"
  let ?i = "current_context ?s"
  have ok: "fence_ok s" using assms by (simp add: calm_def frames_good_defs)
  have i: "?i < APP_NUM_FRAMES_IN_FLIGHT" by simp
  have cover: "covered (fence_values s ! ?i) ?i (gpu_queue s)"
    using assms i by (simp add: calm_def frames_good_def contexts_ok_def fence_of_def in_flight_def)
  have zero: "\<not> uses_allocator ?i (gpu_queue s)" if "fence_values s ! ?i = 0"
    using covered_unused [OF cover] reached_not_queued [OF ok, of 0] that by simp
  show ?thesis using assms zero i
    by (simp add: next_resources_def Let_def set_event_on_completion_def calm_def frames_good_defs
        fence_of_def in_flight_def waits_for_def nth_list_update del: current_context_less)
qed

lemma wait_last_over_good:
  assumes "frames_good s" and "frame_pc s = Waiting_last c v" and "fence_event s"
  shows "calm (s\<lparr>fence_event := False\<rparr>) \<and> gpu_queue s = []"
proof -
  have ok: "fence_ok s" and v: "v \<le> fence_completed s"
    and last: "gpu_queue s = [] \<or> last (gpu_queue s) = Signal_fence (g_fenceLastSignaledValue s)"
    and cur: "v = g_fenceLastSignaledValue s \<or> fence_completed s = g_fenceLastSignaledValue s"
    using assms by (auto simp: frames_good_defs waits_for_def fence_of_def in_flight_def)
  have "g_fenceLastSignaledValue s \<le> fence_completed s" using cur v by auto
  then have all: "fence_completed s = g_fenceLastSignaledValue s" by (rule all_reached [OF ok])
  then have "gpu_queue s = []" by (rule drained [OF ok _ last])
  with all show ?thesis using assms
    by (simp add: calm_def frames_good_defs waits_for_def fence_of_def in_flight_def)
qed

lemma wait_next_over_good:
  assumes "frames_good s" and "frame_pc s = Waiting_next w" and "fence_event s = (w \<noteq> None)"
  shows "frames_good (s\<lparr>waitable := n, fence_event := False, frame_pc := Recording\<rparr>)"
proof -
  let ?i = "current_context s"
  have ok: "fence_ok s" using assms by (simp add: frames_good_def)
  have unused: "\<not> uses_allocator ?i (gpu_queue s)"
  proof (cases w)
    case None
    then show ?thesis using assms by (simp add: frames_good_def queue_ok_def)
  next
    case (Some v)
    then have "fence_of s ?i = v" and "\<not> in_flight (frame_pc s)" and "v \<le> fence_completed s"
      using assms by (auto simp: frames_good_def event_ok_def waits_for_def fence_of_def in_flight_def)
    then have "covered v ?i (gpu_queue s)" and "v \<le> fence_completed s"
      using assms(1) current_context_less [of s] by (auto simp: frames_good_def contexts_ok_def)
    then show ?thesis using covered_unused reached_not_queued [OF ok] by blast
  qed
  show ?thesis using assms unused unused_covered [OF unused]
    by (cases w) (auto simp: frames_good_defs waits_for_def fence_of_def in_flight_def split: if_splits)
qed

lemma wait_over_good:
  assumes "frames_good s" and "wait_over s = Some s'"
  shows "frames_good s'"
proof (cases "frame_pc s")
  case (Waiting_last c v)
  then show ?thesis
    using wait_last_over_good [OF assms(1) Waiting_last] resume_good assms(2) by (auto simp: wait_over_def)
next
  case (Waiting_next w)
  have "fence_event s = (w \<noteq> None)"
    using assms Waiting_next
    by (cases w) (auto simp: wait_over_def frames_good_def event_ok_def waits_for_def split: if_splits)
  note good = wait_next_over_good [OF assms(1) Waiting_next this]
  show ?thesis
  proof (cases w)
    case None
    then have "s\<lparr>waitable := waitable s - 1, fence_event := False, frame_pc := Recording\<rparr> =
        s\<lparr>waitable := waitable s - 1, frame_pc := Recording\<rparr>"
      using \<open>fence_event s = (w \<noteq> None)\<close> by simp
    then show ?thesis
      using assms(2) None Waiting_next good [of "waitable s - 1"] by (auto simp: wait_over_def)
  next
    case (Some v)
    then show ?thesis using assms(2) Waiting_next good by (auto simp: wait_over_def)
  qed
qed (use assms(2) in \<open>auto simp: wait_over_def\<close>)

lemma record_submit_good:
  "frames_good s \<Longrightarrow> frame_pc s = Recording \<Longrightarrow> frames_good (record_submit b s)"
  by (auto simp: record_submit_def frames_good_defs waits_for_def fence_of_def in_flight_def intro!: covered_append)

lemma present_good:
  assumes "frames_good s" and "frame_pc s = Submitted b"
  shows "frames_good (s\<lparr>gpu_queue := gpu_queue s @ [Present_buffer b], g_SwapChainOccluded := h, frame_pc := Presented\<rparr>)"
  using assms by (auto simp: frames_good_defs waits_for_def fence_of_def in_flight_def intro!: covered_append)

lemma unat_Suc_value: "unat (v :: u64) = n \<Longrightarrow> Suc n < 2 ^ 64 \<Longrightarrow> unat (v + 1) = Suc n"
  by (simp add: unat_word_ariths)

lemma signal_call_good:
  assumes "frames_good s" and "frame_pc s = Presented" and "Suc (signals s) < 2 ^ 64"
  shows "frames_good (signal_call s)"
proof -
  let ?v = "g_fenceLastSignaledValue s + 1"
  let ?s = "s\<lparr>gpu_queue := gpu_queue s @ [Signal_fence ?v], g_fenceLastSignaledValue := ?v,
               fence_values := (fence_values s)[current_context s := ?v], signals := signals s + 1\<rparr>"
  have v: "unat ?v = Suc (signals s)"
    using assms by (intro unat_Suc_value) (auto simp: frames_good_defs)
  have "fence_ok ?s" using assms(1) v by (auto simp: frames_good_defs)
  moreover have "contexts_ok (?s\<lparr>frame_pc := Polling\<rparr>)"
    using assms(1,2) v
    by (auto simp: frames_good_defs fence_of_def in_flight_def nth_list_update intro!: covered_append)
  ultimately have "calm ?s"
    using assms by (auto simp: calm_def frames_good_defs fence_of_def in_flight_def waits_for_def)
  then show ?thesis by (simp add: signal_call_def Let_def loop_end_good) (simp add: calm_def)
qed

lemma uses_allocator_tl: "\<not> uses_allocator i (c # q) \<Longrightarrow> \<not> uses_allocator i q"
  by (simp add: uses_allocator_def)

lemma fence_of_simps [simp]:
  "fence_of (s\<lparr>gpu_queue := q\<rparr>) i = fence_of s i"
  "fence_of (s\<lparr>fence_completed := v\<rparr>) i = fence_of s i"
  "fence_of (s\<lparr>fence_event := h\<rparr>) i = fence_of s i"
  "fence_of (s\<lparr>registered := r\<rparr>) i = fence_of s i"
  "fence_of (s\<lparr>waitable := n\<rparr>) i = fence_of s i"
  "fence_of (s\<lparr>loop_done := h\<rparr>) i = fence_of s i"
  "fence_of (s\<lparr>g_SwapChainOccluded := h\<rparr>) i = fence_of s i"
  by (simp_all add: fence_of_def split: frame_pc.splits option.splits)

lemma event_ok_simps [simp]:
  "event_ok (s\<lparr>gpu_queue := q\<rparr>) = event_ok s"
  "event_ok (s\<lparr>waitable := n\<rparr>) = event_ok s"
  "event_ok (s\<lparr>loop_done := h\<rparr>) = event_ok s"
  "event_ok (s\<lparr>g_SwapChainOccluded := h\<rparr>) = event_ok s"
  by (simp_all add: event_ok_def split: option.splits)

lemma frames_good_simps [simp]:
  "frames_good (s\<lparr>waitable := n\<rparr>) = frames_good s"
  "frames_good (s\<lparr>loop_done := h\<rparr>) = frames_good s"
  "frames_good (s\<lparr>g_SwapChainOccluded := h\<rparr>) = frames_good s"
  by (simp_all add: frames_good_def fence_ok_def contexts_ok_def queue_ok_def)

lemma pop_command_good:
  assumes "frames_good s" and "gpu_queue s = c # q" and "\<And>v. c \<noteq> Signal_fence v"
  shows "frames_good (s\<lparr>gpu_queue := q\<rparr>)"
proof -
  have "signals_of (c # q) = signals_of q" using assms(3) by (cases c) auto
  moreover have "contexts_ok (s\<lparr>gpu_queue := q\<rparr>)"
    using assms(1,2) covered_tl [of _ _ c q] by (simp add: frames_good_def contexts_ok_def) blast
  moreover have "queue_ok (s\<lparr>gpu_queue := q\<rparr>)"
    using assms(1,2) uses_allocator_tl [of _ c q]
    by (simp add: frames_good_def queue_ok_def split: if_splits)
  ultimately show ?thesis
    using assms(1,2) by (simp add: frames_good_def fence_ok_def)
qed

lemma pop_signal_good:
  assumes good: "frames_good s" and q: "gpu_queue s = Signal_fence v # q"
  shows "frames_good (s\<lparr>gpu_queue := q, fence_completed := v,
    fence_event := (fence_event s \<or> (\<exists>w \<in> set (registered s). w \<le> v)),
    registered := filter (\<lambda>w. \<not> w \<le> v) (registered s)\<rparr>)" (is "frames_good ?s")
proof -
  let ?c = "unat (fence_completed s)"
  have ok: "fence_ok s" using good by (simp add: frames_good_def)
  have list: "unat v # map unat (signals_of q) = [Suc ?c..<Suc (signals s)]"
    using ok by (simp only: fence_ok_def q signals_of.simps list.map)
  have lt: "?c < signals s"
  proof (rule ccontr)
    assume "\<not> ?c < signals s"
    then have "[Suc ?c..<Suc (signals s)] = []" by simp
    then show False using list by (simp only: list.distinct)
  qed
  then have "[Suc ?c..<Suc (signals s)] = Suc ?c # [Suc (Suc ?c)..<Suc (signals s)]"
    by (subst upt_conv_Cons) auto
  then have v: "unat v = Suc ?c" and rest: "map unat (signals_of q) = [Suc (Suc ?c)..<Suc (signals s)]"
    using list by (simp_all only: list.inject)
  have "fence_ok ?s" using ok lt v rest by (simp add: fence_ok_def del: upt_Suc)
  moreover have "event_ok ?s"
    using good v by (auto simp: frames_good_def event_ok_def word_le_nat_alt split: option.splits if_splits)
  moreover have "contexts_ok ?s"
    using good by (simp add: frames_good_def contexts_ok_def q)
  moreover have "queue_ok ?s"
  proof -
    have "fence_completed s \<noteq> g_fenceLastSignaledValue s" using lt ok by (auto simp: fence_ok_def)
    then show ?thesis
      using good uses_allocator_tl [of _ "Signal_fence v" q]
      by (auto simp: frames_good_def queue_ok_def q split: if_splits)
  qed
  ultimately show ?thesis using good by (simp add: frames_good_def)
qed

lemma gpu_step_good:
  assumes "frames_good s" and "gpu_step s = Some s'"
  shows "frames_good s'"
proof (cases "gpu_queue s")
  case (Cons c q)
  then show ?thesis
    using assms pop_command_good [OF assms(1) Cons] pop_signal_good [OF assms(1)]
    by (cases c) (auto simp: gpu_step_def)
qed (use assms in \<open>simp add: gpu_step_def\<close>)

text \<open>One step, as long as the 64-bit values have not come round.\<close>

lemma next_resources_signals [simp]: "signals (next_resources s) = signals s"
  by (simp add: next_resources_def Let_def set_event_on_completion_def)

lemma wait_then_signals:
  "(\<And>s1. signals (k s1) = signals s1) \<Longrightarrow> signals (wait_then c k s) = signals s"
  by (auto simp: wait_then_def last_submitted_def Let_def set_event_on_completion_def split: prod.splits option.splits if_splits)

lemma waits_signals [simp]:
  "signals (after_size_cleanup s) = signals s" "signals (after_device_cleanup s) = signals s"
  "signals (after_size_handler s) = signals s" "signals (size_message s) = signals s"
  "signals (after_loop_end s) = signals s" "signals (loop_end s) = signals s"
  by (simp_all add: after_size_cleanup_def after_device_cleanup_def release_buffers_def after_size_handler_def
      size_message_def after_loop_end_def loop_end_def wait_then_signals)

lemma resume_signals [simp]: "signals (resume c s) = signals s"
  by (cases c) (simp_all add: resume_def)

lemma frame_step_signals:
  assumes "frame_step s e s'"
  shows "signals s' = signals s + (if e = Signal_call then 1 else 0)"
  using assms
  by (cases e; elim frame_stepE)
    (auto simp: wait_over_def record_submit_def signal_call_def gpu_step_def Let_def
      split: if_splits frame_pc.splits option.splits list.splits gpu_command.splits)

lemma polling_calm: "frames_good s \<Longrightarrow> frame_pc s = Polling \<Longrightarrow> calm s"
  by (simp add: calm_def) (metis frames.surjective frames.update_convs(7))

lemma frame_step_good:
  assumes "frame_step s e s'" and "frames_good s" and "signals s' < 2 ^ 64"
  shows "frames_good s'"
proof -
  have exec: "frame_exec e s = Some s'" using assms(1) by (auto elim: frame_stepE)
  note signals = frame_step_signals [OF assms(1)]
  show ?thesis
  proof (cases e)
    case (Size_message minimised)
    then show ?thesis using exec assms(2) by (auto simp: polling_calm size_message_good)
  next
    case Quit_message
    then have "s' = s\<lparr>loop_done := True\<rparr>" using exec by auto
    then show ?thesis using assms(2) by simp
  next
    case Loop_break
    then show ?thesis using exec assms(2) by (auto simp: polling_calm loop_end_good)
  next
    case (Begin_frame t i d)
    then have s': "s' = next_resources (s\<lparr>g_SwapChainOccluded := False, loop_done := d\<rparr>)"
      and pc: "frame_pc s = Polling"
      using exec by auto
    have "frames_good (s\<lparr>g_SwapChainOccluded := False, loop_done := d\<rparr>)"
      using assms(2) by simp
    then show ?thesis unfolding s' by (rule next_resources_good [OF polling_calm]) (simp add: pc)
  next
    case (Present_call occluded)
    then obtain b where "frame_pc s = Submitted b" using exec by (auto split: frame_pc.splits)
    then show ?thesis using exec Present_call present_good [OF assms(2)] by auto
  next
    case Signal_call
    then have "frame_pc s = Presented" "s' = signal_call s" using exec by auto
    then show ?thesis using signal_call_good [OF assms(2)] assms(3) signals Signal_call by simp
  next
    case Waitable_signalled
    then show ?thesis using exec assms(2) by auto
  qed (use exec assms(2) in \<open>auto intro: wait_over_good record_submit_good gpu_step_good\<close>)
qed

section \<open>The contract\<close>

definition frames_inv :: "frames \<Rightarrow> bool" where
  "frames_inv s \<longleftrightarrow> (signals s < 2 ^ 64 \<longrightarrow> frames_good s)"

lemma initial_frames_good: "frames_good (initial_frames n)"
  by (simp add: initial_frames_def create_frames_def frames_good_defs waits_for_def in_flight_def
      APP_NUM_FRAMES_IN_FLIGHT_def fence_of_def less_2_cases_iff)

interpretation frames_system: invariant_system frames_init frame_step frames_inv
proof
  show "frames_inv s" if "frames_init s" for s
    using that by (auto simp: frames_init_def frames_inv_def initial_frames_good)
  show "frames_inv s'" if "frames_inv s" and "frame_step s e s'" for s e s'
    using that frame_step_good [OF that(2)] frame_step_signals [OF that(2)] by (simp add: frames_inv_def)
qed

lemma reach_frames_good: "reach frames_init frame_step s \<Longrightarrow> signals s < 2 ^ 64 \<Longrightarrow> frames_good s"
  using frames_system.reach_inv by (simp add: frames_inv_def)

lemma frame_runs: "exec_run frame_exec es s = Some s' \<Longrightarrow> run frame_step s es s'"
  by (rule exec_run_sound) (rule frame_step)

text \<open>
  C13: In the first run of the main loop, however the device, the messages and the callbacks interleave
  and as long as the 64-bit fence value has not come round, no command allocator is reset and no back
  buffer released while the device may still use it, and a frame is never drawn without back buffers.
\<close>

theorem device_never_uses_reset_memory:
  assumes "reach frames_init frame_step s" and "signals s < 2 ^ 64"
  shows "\<not> hazard s \<and>
    (frame_pc s = Recording \<longrightarrow> \<not> uses_allocator (current_context s) (gpu_queue s) \<and> buffers_held s) \<and>
    (frame_pc s = Closed \<longrightarrow> gpu_queue s = [])"
  using reach_frames_good [OF assms] by (simp add: frames_good_def queue_ok_def)

text \<open>Two frames, the second one recorded while the device still draws the first; then the end.\<close>

definition example_frames :: "frame_event list" where
  "example_frames =
     [Begin_frame False False False, Wait_over, Record_submit 0, Present_call False, Signal_call,
      Begin_frame False False True, Wait_over]"

theorem device_never_uses_reset_memory_witness:
  "\<exists>s. exec_run frame_exec example_frames (initial_frames 2) = Some s \<and> frame_pc s = Recording \<and>
     length (gpu_queue s) = 3 \<and> \<not> uses_allocator (current_context s) (gpu_queue s)"
proof -
  have "exec_run frame_exec example_frames (initial_frames 2) \<noteq> None" by code_simp
  then obtain s where run: "exec_run frame_exec example_frames (initial_frames 2) = Some s" by blast
  have facts: "the (exec_run frame_exec example_frames (initial_frames 2)) = s" using run by simp
  have pc: "frame_pc s = Recording" "length (gpu_queue s) = 3" "signals s = 1"
    unfolding facts [symmetric] by code_simp+
  have reach: "reach frames_init frame_step s"
    by (rule reach_run [OF reach_init frame_runs [OF run]]) (auto simp: frames_init_def)
  have "\<not> uses_allocator (current_context s) (gpu_queue s)"
    using device_never_uses_reset_memory [OF reach] pc by simp
  with run pc show ?thesis by blast
qed

lemma drain_queue:
  assumes "frames_good s"
  shows "\<exists>s'. exec_run frame_exec (replicate (length (gpu_queue s)) Gpu_runs) s = Some s' \<and>
    frames_good s' \<and> gpu_queue s' = [] \<and> frame_pc s' = frame_pc s"
  using assms
proof (induction "gpu_queue s" arbitrary: s)
  case (Cons c q)
  have pc: "frame_pc s1 = frame_pc s \<and> gpu_queue s1 = q" if "gpu_step s = Some s1" for s1
    using that Cons.hyps(2) [symmetric] by (cases c) (auto simp: gpu_step_def)
  obtain s1 where step: "gpu_step s = Some s1"
    using Cons.hyps(2) [symmetric] by (cases c) (auto simp: gpu_step_def)
  show ?case
    using Cons.hyps(1) [of s1] pc [OF step] gpu_step_good [OF Cons.prems step] step Cons.hyps(2) [symmetric] by auto
qed auto



section \<open>Starting again\<close>

text \<open>
  A wrapper started again creates a new fence, whose value is 0, but nothing clears the frame contexts:
  the value of the context that the last run did not wait for is still there. The first frame waits for
  it, and nothing that can happen ends that wait.
\<close>

definition next_context :: "frames \<Rightarrow> nat" where
  "next_context s = unat (g_frameIndex s + 1) mod APP_NUM_FRAMES_IN_FLIGHT"

definition stuck :: "u64 \<Rightarrow> frames \<Rightarrow> bool" where
  "stuck v s \<longleftrightarrow> frame_pc s = Waiting_next (Some v) \<and> \<not> fence_event s \<and> gpu_queue s = []"

lemma stuck_step: "frame_step s e s' \<Longrightarrow> stuck v s \<Longrightarrow> stuck v s'"
  by (cases e; elim frame_stepE) (auto simp: stuck_def wait_over_def gpu_step_def)

lemma restart_waits_forever:
  assumes "fence_values s ! next_context s = v" and "v \<noteq> 0"
    and "frame_exec (Begin_frame t i d) (create_frames s) = Some s1"
    and "run frame_step s1 es s2"
  shows "stuck v s2"
proof -
  have "stuck v s1"
    using assms(1-3)
    by (auto simp: create_frames_def next_resources_def Let_def current_context_def next_context_def
        set_event_on_completion_def stuck_def)
  moreover have "stuck v a \<longrightarrow> stuck v b" if "frame_step a e b" for a e b using stuck_step that by blast
  ultimately show ?thesis
    using run_preserves [OF assms(4), of "\<lambda>a b. stuck v a \<longrightarrow> stuck v b"] by blast
qed

text \<open>It happens after any run of two frames that the user closes.\<close>

definition two_frames_closed :: "frame_event list" where
  "two_frames_closed =
     example_frames @ [Record_submit 1, Present_call False, Signal_call] @ replicate 6 Gpu_runs @ [Wait_over]"

lemma two_frames_leave_value:
  "case exec_run frame_exec two_frames_closed (initial_frames 2) of
     Some s \<Rightarrow> frame_pc s = Closed \<and> fence_values s ! next_context s = 1 \<and>
       frame_exec (Begin_frame False False False) (create_frames s) \<noteq> None
   | None \<Rightarrow> False"
  by code_simp

end
