(* ===== verification/Gui.thy ===== *)
theory Gui
  imports Complex_Main Prelude Text
begin

text \<open>
  The graphical interface: the life of a window in \<open>imgui/src/imgui_wrapper.cpp\<close>,
  \<open>imgui_wrapper_sdl2_opengl3.cpp\<close> and the \<open>start\<close> of \<open>imgui_wrapper_win32_directx12.cpp\<close>, the dialog
  boxes of \<open>dialog_box.cpp\<close>, and the helpers of \<open>utils.h\<close> and \<open>utils.cpp\<close> that are not drawing. The user's
  callbacks, the events of the window system, the buttons clicked and the calls that fail are arguments;
  what the code does is the list of its actions, in order.
\<close>

section \<open>Actions\<close>

datatype gui_action =
    Sdl_init
  | Sdl_quit
  | Register_class
  | Unregister_class
  | Create_window
  | Destroy_window
  | Create_gl_context
  | Delete_gl_context
  | Create_d3d_device
  | Cleanup_d3d_device
  | Create_imgui_context
  | Destroy_imgui_context
  | Init_platform
  | Shutdown_platform
  | Init_renderer
  | Shutdown_renderer
  | Create_implot
  | Destroy_implot
  | On_start
  | On_iteration bool
  | On_end
  | Dock_space
  | Delay
  | New_frame
  | Render_frame
  | Platform_windows
  | Swap_buffers
  | Wait_last_frame

text \<open>The actions of a call and how it ends.\<close>

type_synonym 'a traced = "gui_action list \<times> 'a res"

definition act :: "gui_action \<Rightarrow> unit traced" where
  "act a = ([a], Inr ())"

definition give :: "'a \<Rightarrow> 'a traced" where
  "give x = ([], Inr x)"

definition throw :: "exn \<Rightarrow> 'a traced" where
  "throw e = ([], Inl e)"

fun and_then :: "'a traced \<Rightarrow> ('a \<Rightarrow> 'b traced) \<Rightarrow> 'b traced" where
  "and_then (t, Inl e) f = (t, Inl e)"
| "and_then (t, Inr x) f = (case f x of (t', r) \<Rightarrow> (t @ t', r))"

definition then_do :: "unit traced \<Rightarrow> 'b traced \<Rightarrow> 'b traced" where
  "then_do m k = and_then m (\<lambda>_. k)"

definition do_if :: "bool \<Rightarrow> unit traced \<Rightarrow> unit traced" where
  "do_if b m = (if b then m else give ())"

fun acts :: "gui_action list \<Rightarrow> unit traced" where
  "acts as = (as, Inr ())"

section \<open>Flags\<close>

text \<open>\<open>ConfigFlags.h\<close>. The flags of Dear ImGui are its own: four bits.\<close>

definition flag_None :: u32 where "flag_None = push_bit 0 1"
definition flag_IncludeImPlot :: u32 where "flag_IncludeImPlot = push_bit 1 1"
definition flag_Docking :: u32 where "flag_Docking = push_bit 2 1"
definition flag_ViewPort :: u32 where "flag_ViewPort = push_bit 3 1"
definition flag_NoIni :: u32 where "flag_NoIni = push_bit 4 1"

lemmas config_flags = flag_None_def flag_IncludeImPlot_def flag_Docking_def flag_ViewPort_def flag_NoIni_def

record imgui_flags =
  NavEnableKeyboard :: u32
  NavEnableGamepad :: u32
  DockingEnable :: u32
  ViewportsEnable :: u32

record imgui_io =
  io_ConfigFlags :: u32
  IniFilename :: "string option"

definition to_imgui_configflags :: "imgui_flags \<Rightarrow> u32 \<Rightarrow> u32" where
  "to_imgui_configflags F flags =
     (let output0 = 0;
          output1 = (if enum_contains flags flag_Docking then output0 OR DockingEnable F else output0)
      in if enum_contains flags flag_ViewPort then output1 OR ViewportsEnable F else output1)"

definition setup_io :: "imgui_flags \<Rightarrow> u32 \<Rightarrow> imgui_io \<Rightarrow> imgui_io" where
  "setup_io F flags io =
     (let io1 = io\<lparr>io_ConfigFlags := io_ConfigFlags io OR to_imgui_configflags F flags\<rparr>
      in if enum_contains flags flag_NoIni then io1\<lparr>IniFilename := None\<rparr> else io1)"

text \<open>What \<open>start\<close> makes of the settings of a new context.\<close>

definition start_io :: "imgui_flags \<Rightarrow> u32 \<Rightarrow> imgui_io \<Rightarrow> imgui_io" where
  "start_io F flags io =
     setup_io F flags (io\<lparr>io_ConfigFlags := (io_ConfigFlags io OR NavEnableKeyboard F) OR NavEnableGamepad F\<rparr>)"

definition viewports_on :: "imgui_flags \<Rightarrow> imgui_io \<Rightarrow> bool" where
  "viewports_on F io \<longleftrightarrow> io_ConfigFlags io AND ViewportsEnable F \<noteq> 0"

section \<open>The callbacks\<close>

text \<open>
  A callback that is not set is \<open>None\<close>. One that is set returns or throws; that of an iteration is given
  its number and \<open>done\<close>, which it may change.
\<close>

record gui_callbacks =
  onStart :: "unit res option"
  onEnd :: "unit res option"
  onIteration :: "(nat \<Rightarrow> bool \<Rightarrow> bool res) option"

definition initalise :: "u32 \<Rightarrow> gui_callbacks \<Rightarrow> unit traced" where
  "initalise flags cb =
     then_do (do_if (enum_contains flags flag_IncludeImPlot) (act Create_implot))
       (case onStart cb of None \<Rightarrow> give () | Some r \<Rightarrow> ([On_start], r))"

definition iterate :: "u32 \<Rightarrow> gui_callbacks \<Rightarrow> nat \<Rightarrow> bool \<Rightarrow> bool traced" where
  "iterate flags cb n d =
     then_do (do_if (enum_contains flags flag_Docking) (act Dock_space))
       (case onIteration cb of None \<Rightarrow> give d | Some f \<Rightarrow> ([On_iteration d], f n d))"

definition cleanup :: "u32 \<Rightarrow> gui_callbacks \<Rightarrow> unit traced" where
  "cleanup flags cb =
     then_do (case onEnd cb of None \<Rightarrow> give () | Some r \<Rightarrow> ([On_end], r))
       (do_if (enum_contains flags flag_IncludeImPlot) (act Destroy_implot))"

section \<open>SDL and OpenGL\<close>

text \<open>
  One turn of the main loop: whether a quit or close event was polled, and whether the window is
  minimised. The loop is given the turns to come; it returns whether it ended within them.
\<close>

record sdl_turn =
  quit_event :: bool
  minimised :: bool

fun sdl_loop :: "u32 \<Rightarrow> bool \<Rightarrow> gui_callbacks \<Rightarrow> nat \<Rightarrow> bool \<Rightarrow> sdl_turn list \<Rightarrow> bool traced" where
  "sdl_loop flags viewports cb n d [] = give d"
| "sdl_loop flags viewports cb n d (turn # turns) =
     (if d then give True
      else let d1 = d \<or> quit_event turn
           in if minimised turn
              then then_do (act Delay) (sdl_loop flags viewports cb n d1 turns)
              else then_do (act New_frame)
                (and_then (iterate flags cb n d1)
                  (\<lambda>d2. then_do (act Render_frame)
                    (then_do (do_if viewports (act Platform_windows))
                      (then_do (act Swap_buffers)
                        (sdl_loop flags viewports cb (Suc n) d2 turns))))))"

text \<open>Which of the three calls that are checked succeed.\<close>

record sdl_calls =
  init_ok :: bool
  window_ok :: bool
  context_ok :: bool

definition sdl_teardown :: "unit traced" where
  "sdl_teardown =
     acts [Shutdown_renderer, Shutdown_platform, Destroy_imgui_context, Delete_gl_context, Destroy_window, Sdl_quit]"

definition sdl_init :: "sdl_calls \<Rightarrow> unit traced" where
  "sdl_init calls = (if \<not> init_ok calls then throw Runtime_error else act Sdl_init)"

definition sdl_start ::
    "imgui_flags \<Rightarrow> u32 \<Rightarrow> imgui_io \<Rightarrow> gui_callbacks \<Rightarrow> sdl_calls \<Rightarrow> sdl_turn list \<Rightarrow> bool traced" where
  "sdl_start F flags io cb calls turns =
     then_do (sdl_init calls)
     (if \<not> window_ok calls then throw Runtime_error
      else then_do (act Create_window)
     (if \<not> context_ok calls then throw Runtime_error
      else then_do (acts [Create_gl_context, Create_imgui_context, Init_platform, Init_renderer])
     (then_do (initalise flags cb)
     (and_then (sdl_loop flags (viewports_on F (start_io F flags io)) cb 0 False turns)
       (\<lambda>ended. if ended then then_do (cleanup flags cb) (then_do sdl_teardown (give True)) else give False)))))"

section \<open>Windows and Direct3D\<close>

text \<open>
  One turn: whether the user closed the window, which destroys it and posts \<open>WM_QUIT\<close>, and whether the
  screen is locked. \<open>alive\<close>: the window exists. \<open>quit_posted\<close>: the queue of the thread holds a \<open>WM_QUIT\<close>.
\<close>

record dx_turn =
  close_event :: bool
  locked :: bool

fun dx_loop ::
    "u32 \<Rightarrow> bool \<Rightarrow> gui_callbacks \<Rightarrow> nat \<Rightarrow> bool \<Rightarrow> bool \<Rightarrow> bool \<Rightarrow> dx_turn list \<Rightarrow> (bool \<times> bool \<times> bool) traced" where
  "dx_loop flags viewports cb n d alive quit_posted [] = give (d, alive, quit_posted)"
| "dx_loop flags viewports cb n d alive quit_posted (turn # turns) =
     (if d then give (True, alive, quit_posted)
      else let closing = alive \<and> close_event turn; alive1 = (alive \<and> \<not> closing)
           in if quit_posted \<or> closing then give (True, alive1, False)
              else if locked turn
              then then_do (act Delay) (dx_loop flags viewports cb n d alive1 False turns)
              else then_do (act New_frame)
                (and_then (iterate flags cb n d)
                  (\<lambda>d2. then_do (act Render_frame)
                    (then_do (do_if viewports (act Platform_windows))
                      (then_do (act Swap_buffers)
                        (dx_loop flags viewports cb (Suc n) d2 alive1 False turns))))))"

text \<open>The end of \<open>start\<close>: destroying a window that still exists posts a \<open>WM_QUIT\<close> as well.\<close>

definition dx_end :: "u32 \<Rightarrow> gui_callbacks \<Rightarrow> bool \<Rightarrow> bool \<Rightarrow> (bool \<times> bool) traced" where
  "dx_end flags cb alive quit_posted =
     then_do (act Wait_last_frame)
    (then_do (cleanup flags cb)
    (then_do (acts [Shutdown_renderer, Shutdown_platform, Destroy_imgui_context, Cleanup_d3d_device])
    (then_do (act Destroy_window)
    (then_do (act Unregister_class)
    (give (True, quit_posted \<or> alive))))))"

definition dx_start ::
    "imgui_flags \<Rightarrow> u32 \<Rightarrow> imgui_io \<Rightarrow> gui_callbacks \<Rightarrow> bool \<Rightarrow> bool \<Rightarrow> dx_turn list \<Rightarrow> (bool \<times> bool) traced" where
  "dx_start F flags io cb device_ok quit_posted turns =
     then_do (acts [Register_class, Create_window, Create_d3d_device])
     (if \<not> device_ok
      then then_do (acts [Cleanup_d3d_device, Unregister_class]) (throw Runtime_error)
      else then_do (acts [Create_imgui_context, Init_platform, Init_renderer])
     (then_do (initalise flags cb)
     (and_then (dx_loop flags (viewports_on F (start_io F flags io)) cb 0 False True quit_posted turns)
       (\<lambda>(ended, alive, posted). if ended then dx_end flags cb alive posted else give (False, posted)))))"

text \<open>The name of the window class, at most 256 characters of the title.\<close>

definition class_name :: "'c list \<Rightarrow> 'c list" where
  "class_name wtitle = (if length wtitle \<le> 256 then wtitle else take 256 wtitle)"

section \<open>What is acquired is released\<close>

text \<open>Which action undoes which; \<open>stack_run\<close> checks that this happens in the reverse order.\<close>

fun undoes :: "gui_action \<Rightarrow> gui_action option" where
  "undoes Sdl_quit = Some Sdl_init"
| "undoes Unregister_class = Some Register_class"
| "undoes Destroy_window = Some Create_window"
| "undoes Delete_gl_context = Some Create_gl_context"
| "undoes Cleanup_d3d_device = Some Create_d3d_device"
| "undoes Destroy_imgui_context = Some Create_imgui_context"
| "undoes Shutdown_platform = Some Init_platform"
| "undoes Shutdown_renderer = Some Init_renderer"
| "undoes Destroy_implot = Some Create_implot"
| "undoes _ = None"

definition acquires :: "gui_action \<Rightarrow> bool" where
  "acquires a \<longleftrightarrow> a \<in> {Sdl_init, Register_class, Create_window, Create_gl_context, Create_d3d_device,
     Create_imgui_context, Init_platform, Init_renderer, Create_implot}"

fun stack_run :: "gui_action list \<Rightarrow> gui_action list \<Rightarrow> gui_action list option" where
  "stack_run [] st = Some st"
| "stack_run (a # as) st =
     (if acquires a then stack_run as (a # st)
      else case undoes a of
        None \<Rightarrow> stack_run as st
      | Some b \<Rightarrow> (if st \<noteq> [] \<and> hd st = b then stack_run as (tl st) else None))"

fun calls_back :: "gui_action \<Rightarrow> bool" where
  "calls_back On_start = True"
| "calls_back (On_iteration d) = True"
| "calls_back On_end = True"
| "calls_back _ = False"

definition frame_action :: "gui_action \<Rightarrow> bool" where
  "frame_action a \<longleftrightarrow> a \<in> {Dock_space, Delay, New_frame, Render_frame, Platform_windows, Swap_buffers} \<or>
     (\<exists>d. a = On_iteration d)"

lemma frame_action_simps [simp]:
  "frame_action Dock_space" "frame_action Delay" "frame_action New_frame" "frame_action Render_frame"
  "frame_action Platform_windows" "frame_action Swap_buffers" "frame_action (On_iteration d)"
  by (simp_all add: frame_action_def)

lemma stack_run_append:
  "stack_run (as @ bs) st = (case stack_run as st of None \<Rightarrow> None | Some st' \<Rightarrow> stack_run bs st')"
  by (induction as st rule: stack_run.induct) (auto split: option.splits)

lemma stack_run_frames: "list_all frame_action as \<Longrightarrow> stack_run as st = Some st"
  by (induction as) (auto simp: frame_action_def acquires_def)

lemma and_then_Inr:
  "and_then m f = (t, Inr y) \<longleftrightarrow> (\<exists>t1 x t2. m = (t1, Inr x) \<and> f x = (t2, Inr y) \<and> t = t1 @ t2)"
  by (cases m; cases "snd m") (auto split: prod.splits)

lemma then_do_Inr:
  "then_do m k = (t, Inr y) \<longleftrightarrow> (\<exists>t1 t2. m = (t1, Inr ()) \<and> k = (t2, Inr y) \<and> t = t1 @ t2)"
  by (auto simp: then_do_def and_then_Inr)

lemma act_Inr [simp]: "act a = (t, r) \<longleftrightarrow> t = [a] \<and> r = Inr ()"
  by (auto simp: act_def)

lemma give_Inr [simp]: "give x = (t, r) \<longleftrightarrow> t = [] \<and> r = Inr x"
  by (auto simp: give_def)

lemma throw_Inr [simp]: "throw e = (t, r) \<longleftrightarrow> t = [] \<and> r = Inl e"
  by (auto simp: throw_def)

lemmas traced_Inr = and_then_Inr then_do_Inr

lemma iterate_frames: "iterate flags cb n d = (t, Inr d') \<Longrightarrow> list_all frame_action t"
  by (auto simp: iterate_def traced_Inr do_if_def split: option.splits if_splits)

lemma sdl_loop_frames:
  "sdl_loop flags v cb n d turns = (t, Inr b) \<Longrightarrow> list_all frame_action t"
proof (induction turns arbitrary: n d t v)
  case (Cons turn turns)
  from Cons.prems show ?case
    by (auto simp: traced_Inr Let_def do_if_def dest!: iterate_frames Cons.IH split: if_splits)
qed simp

lemma dx_loop_frames:
  "dx_loop flags v cb n d alive posted turns = (t, Inr b) \<Longrightarrow> list_all frame_action t"
proof (induction turns arbitrary: n d alive posted t v)
  case (Cons turn turns)
  from Cons.prems show ?case
    by (auto simp: traced_Inr Let_def do_if_def dest!: iterate_frames Cons.IH split: if_splits)
qed simp

lemma stack_run_initalise:
  "initalise flags cb = (t, Inr ()) \<Longrightarrow>
    stack_run t st = Some (if enum_contains flags flag_IncludeImPlot then Create_implot # st else st)"
  by (auto simp: initalise_def traced_Inr do_if_def acquires_def split: option.splits if_splits)

lemma stack_run_cleanup:
  "cleanup flags cb = (t, Inr ()) \<Longrightarrow>
    stack_run t (if enum_contains flags flag_IncludeImPlot then Create_implot # st else st) = Some st"
  by (auto simp: cleanup_def traced_Inr do_if_def acquires_def split: option.splits if_splits)

text \<open>The callbacks called: the start, iterations only, the end.\<close>

definition called :: "'a option \<Rightarrow> gui_action \<Rightarrow> gui_action list" where
  "called c a = (if c = None then [] else [a])"

definition callbacks_in_order :: "gui_callbacks \<Rightarrow> gui_action list \<Rightarrow> bool" where
  "callbacks_in_order cb t \<longleftrightarrow>
     (\<exists>ds. filter calls_back t = called (onStart cb) On_start @ map On_iteration ds @ called (onEnd cb) On_end)"

lemma initalise_calls: "initalise flags cb = (t, Inr ()) \<Longrightarrow> filter calls_back t = called (onStart cb) On_start"
  by (auto simp: initalise_def traced_Inr do_if_def called_def split: option.splits if_splits)

lemma cleanup_calls: "cleanup flags cb = (t, Inr ()) \<Longrightarrow> filter calls_back t = called (onEnd cb) On_end"
  by (auto simp: cleanup_def traced_Inr do_if_def called_def split: option.splits if_splits)

lemma frames_call: "list_all frame_action t \<Longrightarrow> \<exists>ds. filter calls_back t = map On_iteration ds"
proof (induction t)
  case (Cons a t)
  then obtain ds where "filter calls_back t = map On_iteration ds" by auto
  then have "filter calls_back (a # t) = map On_iteration ((case a of On_iteration d \<Rightarrow> [d] | _ \<Rightarrow> []) @ ds)"
    using Cons.prems by (auto simp: frame_action_def)
  then show ?case by blast
qed simp


definition one_turn_callbacks :: "gui_callbacks" where
  "one_turn_callbacks = \<lparr>onStart = Some (Inr ()), onEnd = None, onIteration = Some (\<lambda>n d. Inr (d \<or> n = 1))\<rparr>"

definition plain_io :: imgui_io where
  "plain_io = \<lparr>io_ConfigFlags = 0, IniFilename = Some ''imgui.ini''\<rparr>"

definition some_flags :: imgui_flags where
  "some_flags = \<lparr>NavEnableKeyboard = 1, NavEnableGamepad = 2, DockingEnable = 128, ViewportsEnable = 1024\<rparr>"

lemmas gui_eval = sdl_start_def sdl_init_def dx_start_def dx_end_def sdl_teardown_def initalise_def iterate_def cleanup_def
  then_do_def do_if_def act_def give_def throw_def Let_def start_io_def setup_io_def to_imgui_configflags_def
  viewports_on_def enum_contains_def enum_and_def config_flags one_turn_callbacks_def plain_io_def some_flags_def


section \<open>Exceptions and quitting\<close>

text \<open>A \<open>start\<close> of SDL that throws gives nothing back of what it has set up, unless it is \<open>onEnd\<close> that throws after all.\<close>

lemma and_then_Inl:
  "and_then m f = (t, Inl e) \<longleftrightarrow>
    m = (t, Inl e) \<or> (\<exists>t1 x t2. m = (t1, Inr x) \<and> f x = (t2, Inl e) \<and> t = t1 @ t2)"
  by (cases m; cases "snd m") (auto split: prod.splits)

lemma then_do_Inl:
  "then_do m k = (t, Inl e) \<longleftrightarrow>
    m = (t, Inl e) \<or> (\<exists>t1 t2. m = (t1, Inr ()) \<and> k = (t2, Inl e) \<and> t = t1 @ t2)"
  by (auto simp: then_do_def and_then_Inl)

definition keeps_all :: "gui_action list \<Rightarrow> bool" where
  "keeps_all t \<longleftrightarrow> list_all (\<lambda>a. undoes a = None) t"

lemma keeps_all_simps [simp]:
  "keeps_all []" "keeps_all (a # t) \<longleftrightarrow> undoes a = None \<and> keeps_all t"
  "keeps_all (t @ t') \<longleftrightarrow> keeps_all t \<and> keeps_all t'"
  by (simp_all add: keeps_all_def)

lemma iterate_keeps: "iterate flags cb n d = (t, r) \<Longrightarrow> keeps_all t"
  by (auto simp: iterate_def then_do_def do_if_def act_def give_def split: option.splits if_splits)

lemma initalise_keeps: "initalise flags cb = (t, r) \<Longrightarrow> keeps_all t"
  by (auto simp: initalise_def then_do_def do_if_def act_def give_def split: option.splits if_splits)

lemma cleanup_throws_keeps: "cleanup flags cb = (t, Inl e) \<Longrightarrow> keeps_all t"
  by (auto simp: cleanup_def then_do_Inl do_if_def split: option.splits if_splits)

lemma sdl_loop_keeps: "sdl_loop flags v cb n d turns = (t, r) \<Longrightarrow> keeps_all t"
proof (induction turns arbitrary: n d t v r)
  case (Cons turn turns)
  from Cons.prems show ?case
    by (cases r) (auto simp: traced_Inr then_do_Inl and_then_Inl Let_def do_if_def
      dest!: iterate_keeps Cons.IH split: if_splits)
qed simp

lemma sdl_exception_keeps_all:
  "sdl_start F flags io cb calls turns = (t, Inl e) \<Longrightarrow> keeps_all t"
  by (auto simp: sdl_start_def sdl_init_def sdl_teardown_def traced_Inr then_do_Inl and_then_Inl
      dest!: initalise_keeps cleanup_throws_keeps sdl_loop_keeps split: if_splits)

text \<open>Closing the window with SDL: the iteration callback still runs once, with \<open>done\<close> set, and may unset it.\<close>

lemma sdl_quit_iterates:
  assumes "quit_event turn" and "\<not> minimised turn" and "onIteration cb = Some f"
    and "sdl_loop flags v cb n False (turn # turns) = (t, r)"
  shows "On_iteration True \<in> set t"
proof -
  obtain t1 r1 where it: "iterate flags cb n True = (t1, r1)" by fastforce
  then have "On_iteration True \<in> set t1"
    using assms(3) by (auto simp: iterate_def then_do_def do_if_def act_def give_def split: if_splits)
  then show ?thesis
    using assms(1,2,4) it by (cases r1) (auto simp: then_do_def act_def split: prod.splits)
qed

text \<open>With Direct3D it does not run again.\<close>

lemma dx_quit_stops:
  "close_event turn \<Longrightarrow> dx_loop flags v cb n False True posted (turn # turns) = ([], Inr (True, False, False))"
  by (simp add: give_def)

text \<open>
  A window that the code and not the user ends leaves a \<open>WM_QUIT\<close> behind, and a \<open>start\<close> that finds one ends
  before its first iteration.
\<close>

lemma dx_loop_alive:
  "dx_loop flags v cb n d alive False turns = (t, Inr (b, alive', posted)) \<Longrightarrow>
    list_all (\<lambda>turn. \<not> close_event turn) turns \<Longrightarrow> alive' = alive \<and> \<not> posted"
proof (induction turns arbitrary: n d t v)
  case (Cons turn turns)
  from Cons.prems show ?case
    by (auto simp: traced_Inr Let_def do_if_def dest!: Cons.IH split: if_splits)
qed simp

lemma quit_left_behind:
  assumes "dx_start F flags io cb device_ok False turns = (t, Inr (True, posted))"
    and "list_all (\<lambda>turn. \<not> close_event turn) turns"
  shows "posted"
  using assms
  by (auto simp: dx_start_def dx_end_def traced_Inr dest: dx_loop_alive split: if_splits prod.splits)

lemma posted_quit_ends_start:
  assumes "dx_start F flags io cb device_ok True (turn # turns) = (t, Inr r)"
  shows "On_iteration d \<notin> set t"
  using assms
  by (auto simp: dx_start_def dx_end_def traced_Inr initalise_def cleanup_def do_if_def Let_def
      split: if_splits prod.splits option.splits)

text \<open>A device that cannot be created leaves its window, and with it the class.\<close>

lemma dx_failure_leaves_window:
  assumes "dx_start F flags io cb False quit_posted turns = (t, r)"
  shows "r = Inl Runtime_error \<and> Destroy_window \<notin> set t \<and> stack_run t [] = None"
  using assms by (auto simp: dx_start_def then_do_def throw_def acquires_def)

end
