(* ===== verification/Dialogs.thy ===== *)
theory Dialogs
  imports Complex_Main Prelude
begin

text \<open>
  Dialog boxes and controls: \<open>imgui/include/sg/imgui/dialog_box.h\<close>, \<open>imgui/src/dialog_box.cpp\<close>, and of
  \<open>imgui/include/sg/imgui/utils.h\<close> and \<open>imgui/src/utils.cpp\<close> all that is not drawing. Whether a popup is
  open, which buttons are clicked and the sizes of text and windows are arguments; lengths are real
  numbers, without the rounding of \<open>float\<close>.
\<close>

section \<open>Sizes and positions\<close>

type_synonym imvec2 = "real \<times> real"

fun vec_add :: "imvec2 \<Rightarrow> imvec2 \<Rightarrow> imvec2" where
  "vec_add (x, y) (x', y') = (x + x', y + y')"

text \<open>The style and the window in use: \<open>ImGui::GetStyle()\<close>, \<open>GetWindowSize()\<close> and \<open>CalcTextSize\<close>.\<close>

record gui_style =
  FramePadding :: imvec2
  ItemSpacing_x :: real
  window_width :: real
  text_size :: "string \<Rightarrow> imvec2"

definition dimensions_of_button :: "gui_style \<Rightarrow> string \<Rightarrow> imvec2" where
  "dimensions_of_button st msg =
     (fst (text_size st msg) + fst (FramePadding st) * 2, snd (text_size st msg) + snd (FramePadding st) * 2)"

text \<open>The position on the x axis that \<open>centre_next_control_hor\<close> sets.\<close>

definition centre_next_control_hor :: "gui_style \<Rightarrow> imvec2 \<Rightarrow> int \<Rightarrow> real" where
  "centre_next_control_hor st vec no_of_items =
     (window_width st - fst vec - ItemSpacing_x st * of_int (no_of_items - 1)) / 2"

text \<open>
  \<open>SetNextWindowPos\<close> with its pivot puts that fraction of the window at the position: the corner of a
  window of the given size.
\<close>

definition corner_of :: "imvec2 \<Rightarrow> imvec2 \<Rightarrow> imvec2 \<Rightarrow> imvec2" where
  "corner_of pos pivot sz = (fst pos - fst pivot * fst sz, snd pos - snd pivot * snd sz)"

definition centre_next_window :: "imvec2 \<Rightarrow> imvec2 \<Rightarrow> imvec2" where
  "centre_next_window viewport_centre = corner_of viewport_centre (1/2, 1/2)"

definition centre_next_window_wrt_current_window :: "imvec2 \<Rightarrow> imvec2 \<Rightarrow> imvec2 \<Rightarrow> imvec2" where
  "centre_next_window_wrt_current_window pos currSize =
     corner_of (fst pos + fst currSize * (1/2), snd pos + snd currSize * (1/2)) (1/2, 1/2)"

record viewport =
  WorkPos :: imvec2
  WorkSize :: imvec2
  vp_Pos :: imvec2
  vp_Size :: imvec2

definition maximise_next_window :: "viewport \<Rightarrow> bool \<Rightarrow> imvec2 \<times> imvec2" where
  "maximise_next_window v useWorkArea =
     (if useWorkArea then WorkPos v else vp_Pos v, if useWorkArea then WorkSize v else vp_Size v)"

section \<open>Dialog boxes\<close>

datatype dialog_box_result = NoResult | OK | Cancel | Yes | No | Abort

datatype dialog_box_buttons = Ok | YesNo | YesNoCancel | OkAbort

datatype dialog_action =
    Spacing
  | Text_line string
  | Separator
  | Cursor_x real
  | Button string imvec2
  | Same_line
  | Close_popup
  | End_popup

type_synonym dialog = "dialog_box_result \<times> dialog_action list"

definition do_action :: "dialog_action \<Rightarrow> dialog \<Rightarrow> dialog" where
  "do_action a d = (fst d, snd d @ [a])"

definition show_button :: "gui_style \<Rightarrow> (string \<Rightarrow> bool) \<Rightarrow> dialog_box_result \<Rightarrow> string \<Rightarrow> dialog \<Rightarrow> dialog" where
  "show_button st clicked resultIfClicked text d =
     (let d1 = do_action (Button text (dimensions_of_button st text)) d
      in if clicked text then (resultIfClicked, snd d1 @ [Close_popup]) else d1)"

definition centred :: "gui_style \<Rightarrow> string list \<Rightarrow> int \<Rightarrow> dialog \<Rightarrow> dialog" where
  "centred st texts n =
     do_action (Cursor_x (centre_next_control_hor st
       (fold (\<lambda>text size. vec_add size (dimensions_of_button st text)) texts (0, 0)) n))"

fun show_buttons :: "gui_style \<Rightarrow> (string \<Rightarrow> bool) \<Rightarrow> dialog_box_buttons \<Rightarrow> dialog \<Rightarrow> dialog" where
  "show_buttons st clicked Ok d =
     show_button st clicked OK ''OK'' (centred st [''OK''] 1 d)"
| "show_buttons st clicked OkAbort d =
     (let d1 = centred st [''OK'', ''Abort''] 2 d;
          d2 = do_action Same_line (show_button st clicked OK ''OK'' d1)
      in show_button st clicked Abort ''Abort'' d2)"
| "show_buttons st clicked YesNo d =
     (let d1 = centred st [''Yes'', ''No''] 2 d;
          d2 = do_action Same_line (show_button st clicked Yes ''Yes'' d1)
      in show_button st clicked No ''No'' d2)"
| "show_buttons st clicked YesNoCancel d =
     (let d1 = centred st [''Yes'', ''No'', ''Cancel''] 3 d;
          d2 = do_action Same_line (show_button st clicked Yes ''Yes'' d1);
          d3 = do_action Same_line (show_button st clicked No ''No'' d2)
      in show_button st clicked Cancel ''Cancel'' d3)"

definition dialog_box ::
    "gui_style \<Rightarrow> bool \<Rightarrow> (string \<Rightarrow> bool) \<Rightarrow> string \<Rightarrow> dialog_box_buttons \<Rightarrow> dialog" where
  "dialog_box st popup_open clicked message buttons =
     (if popup_open then
        (let d = show_buttons st clicked buttons
                   (NoResult, [Spacing, Text_line message, Spacing, Separator, Spacing]);
             d1 = (if fst d \<noteq> NoResult then do_action Close_popup d else d)
         in do_action End_popup d1)
      else (NoResult, []))"

text \<open>The buttons of a box in the order they are shown, with the result each stands for.\<close>

fun offered :: "dialog_box_buttons \<Rightarrow> (string \<times> dialog_box_result) list" where
  "offered Ok = [(''OK'', OK)]"
| "offered OkAbort = [(''OK'', OK), (''Abort'', Abort)]"
| "offered YesNo = [(''Yes'', Yes), (''No'', No)]"
| "offered YesNoCancel = [(''Yes'', Yes), (''No'', No), (''Cancel'', Cancel)]"

fun is_button :: "dialog_action \<Rightarrow> string list" where
  "is_button (Button t _) = [t]"
| "is_button _ = []"

text \<open>
  A dialog box answers with the last of its own buttons that is clicked and with \<open>NoResult\<close> if none
  is, whatever other buttons of the program are clicked; while its popup is open it shows exactly its own
  buttons, and it closes the popup if and only if it has a result.
\<close>

lemma dialog_box_answers:
  "fst (dialog_box st popup_open clicked message buttons) =
     (if popup_open
      then fold (\<lambda>(text, r) acc. if clicked text then r else acc) (offered buttons) NoResult
      else NoResult) \<and>
   concat (map is_button (snd (dialog_box st popup_open clicked message buttons))) =
     (if popup_open then map fst (offered buttons) else []) \<and>
   (Close_popup \<in> set (snd (dialog_box st popup_open clicked message buttons)) \<longleftrightarrow>
     fst (dialog_box st popup_open clicked message buttons) \<noteq> NoResult)"
  by (cases buttons)
    (simp_all add: dialog_box_def show_button_def centred_def do_action_def Let_def)

text \<open>What centring means: as much room to the left of the controls as to the right.\<close>

lemma centred_margins:
  "window_width st - (centre_next_control_hor st vec n + fst vec + ItemSpacing_x st * of_int (n - 1)) =
    centre_next_control_hor st vec n"
  by (simp add: centre_next_control_hor_def field_simps)

lemma centre_of_window:
  "fst (centre_next_window c sz) + fst sz / 2 = fst c"
  "snd (centre_next_window c sz) + snd sz / 2 = snd c"
  by (simp_all add: centre_next_window_def corner_of_def)

section \<open>Numbers and text\<close>

text \<open>
  The arithmetic types of C++. \<open>InputNumeric\<close> picks the type that Dear ImGui is told; \<open>None\<close> is the failing
  \<open>static_assert\<close>. \<open>long_size\<close> is \<open>sizeof(long)\<close>.
\<close>

datatype arithmetic_type =
    Ty_char | Ty_schar | Ty_uchar | Ty_short | Ty_ushort | Ty_int | Ty_uint | Ty_long | Ty_ulong
  | Ty_llong | Ty_ullong | Ty_float | Ty_double | Ty_long_double | Ty_bool | Ty_wchar | Ty_char8
  | Ty_char16 | Ty_char32

datatype imgui_data_type =
    Data_S8 | Data_U8 | Data_S16 | Data_U16 | Data_S32 | Data_U32 | Data_S64 | Data_U64 | Data_Float | Data_Double

fun imgui_type_of :: "nat \<Rightarrow> arithmetic_type \<Rightarrow> imgui_data_type option" where
  "imgui_type_of long_size Ty_char = Some Data_S8"
| "imgui_type_of long_size Ty_schar = Some Data_S8"
| "imgui_type_of long_size Ty_uchar = Some Data_U8"
| "imgui_type_of long_size Ty_short = Some Data_S16"
| "imgui_type_of long_size Ty_ushort = Some Data_U16"
| "imgui_type_of long_size Ty_int = Some Data_S32"
| "imgui_type_of long_size Ty_uint = Some Data_U32"
| "imgui_type_of long_size Ty_long = Some (if long_size = 8 then Data_S64 else Data_S32)"
| "imgui_type_of long_size Ty_ulong = Some (if long_size = 8 then Data_U64 else Data_U32)"
| "imgui_type_of long_size Ty_llong = Some Data_S64"
| "imgui_type_of long_size Ty_ullong = Some Data_U64"
| "imgui_type_of long_size Ty_float = Some Data_Float"
| "imgui_type_of long_size Ty_double = Some Data_Double"
| "imgui_type_of long_size _ = None"

text \<open>
  The representation of a type on the usual platforms (\<open>short\<close> of 2 bytes, \<open>int\<close> of 4, \<open>long long\<close> of 8): its
  bytes, and whether it is signed, unsigned or binary floating point.
\<close>

datatype number_kind = Signed | Unsigned | Floating

fun type_layout :: "nat \<Rightarrow> bool \<Rightarrow> arithmetic_type \<Rightarrow> (nat \<times> number_kind) option" where
  "type_layout long_size char_signed Ty_char = Some (1, if char_signed then Signed else Unsigned)"
| "type_layout long_size char_signed Ty_schar = Some (1, Signed)"
| "type_layout long_size char_signed Ty_uchar = Some (1, Unsigned)"
| "type_layout long_size char_signed Ty_short = Some (2, Signed)"
| "type_layout long_size char_signed Ty_ushort = Some (2, Unsigned)"
| "type_layout long_size char_signed Ty_int = Some (4, Signed)"
| "type_layout long_size char_signed Ty_uint = Some (4, Unsigned)"
| "type_layout long_size char_signed Ty_long = Some (long_size, Signed)"
| "type_layout long_size char_signed Ty_ulong = Some (long_size, Unsigned)"
| "type_layout long_size char_signed Ty_llong = Some (8, Signed)"
| "type_layout long_size char_signed Ty_ullong = Some (8, Unsigned)"
| "type_layout long_size char_signed Ty_float = Some (4, Floating)"
| "type_layout long_size char_signed Ty_double = Some (8, Floating)"
| "type_layout long_size char_signed _ = None"

fun data_layout :: "imgui_data_type \<Rightarrow> nat \<times> number_kind" where
  "data_layout Data_S8 = (1, Signed)"
| "data_layout Data_U8 = (1, Unsigned)"
| "data_layout Data_S16 = (2, Signed)"
| "data_layout Data_U16 = (2, Unsigned)"
| "data_layout Data_S32 = (4, Signed)"
| "data_layout Data_U32 = (4, Unsigned)"
| "data_layout Data_S64 = (8, Signed)"
| "data_layout Data_U64 = (8, Unsigned)"
| "data_layout Data_Float = (4, Floating)"
| "data_layout Data_Double = (8, Floating)"

text \<open>The number is read and written with the layout it has, except a \<open>char\<close> that is unsigned.\<close>

lemma numeric_layout:
  assumes "long_size = 4 \<or> long_size = 8" and "t \<noteq> Ty_char \<or> char_signed"
  shows "map_option data_layout (imgui_type_of long_size t) = type_layout long_size char_signed t"
  using assms by (cases t) auto

lemma unsigned_char_layout:
  "map_option data_layout (imgui_type_of long_size Ty_char) \<noteq> type_layout long_size False Ty_char"
  by simp

text \<open>
  \<open>InputTextCallback\<close>: on a resize the string takes the length that Dear ImGui asks for, filled with
  zeros, and its characters become the buffer. \<open>None\<close>: the assertion that the buffer is the string fails.
\<close>

definition InputTextCallback :: "bool \<Rightarrow> bool \<Rightarrow> nat \<Rightarrow> 'c \<Rightarrow> 'c list \<Rightarrow> ('c list \<times> int) option" where
  "InputTextCallback is_resize buf_is_str BufTextLen zero str =
     (if is_resize
      then guarded buf_is_str (take BufTextLen str @ replicate (BufTextLen - length str) zero, 0)
      else Some (str, 0))"

lemma input_text_length:
  "InputTextCallback True b n z str = Some (str', r) \<Longrightarrow> length str' = n \<and> r = 0"
  by (auto simp: InputTextCallback_def)

text \<open>\<open>disable_item\<close>: the actions of the item, between \<open>BeginDisabled\<close> and \<open>EndDisabled\<close> unless it is visible.\<close>

datatype 'a disabled_action = Begin_disabled | Item 'a | End_disabled

definition disable_item :: "bool \<Rightarrow> 'a list \<Rightarrow> 'a disabled_action list" where
  "disable_item visible func =
     (if visible then map Item func else Begin_disabled # map Item func @ [End_disabled])"

end
