(* ===== verification/Drawing.thy ===== *)
theory Drawing
  imports Complex_Main Dialogs
begin

text \<open>
  Drawing: the lines and arrows of \<open>imgui/src/utils.cpp\<close>, in exact real arithmetic, where the code
  computes with \<open>float\<close>. A draw list is its path, the points added and not drawn yet, and the shapes
  drawn. Colours and the thickness of a stroke are left out of the shapes.
\<close>

section \<open>The draw list\<close>

datatype shape = Stroke "imvec2 list" | Fill "imvec2 list"

record draw_list =
  draw_path :: "imvec2 list"
  shapes :: "shape list"

definition PathLineTo :: "imvec2 \<Rightarrow> draw_list \<Rightarrow> draw_list" where
  "PathLineTo p d = d\<lparr>draw_path := draw_path d @ [p]\<rparr>"

definition PathStroke :: "draw_list \<Rightarrow> draw_list" where
  "PathStroke d = d\<lparr>shapes := shapes d @ [Stroke (draw_path d)], draw_path := []\<rparr>"

definition PathFillConvex :: "draw_list \<Rightarrow> draw_list" where
  "PathFillConvex d = d\<lparr>shapes := shapes d @ [Fill (draw_path d)], draw_path := []\<rparr>"

section \<open>Rotation\<close>

definition rotate_point :: "real \<Rightarrow> real \<Rightarrow> imvec2 \<Rightarrow> imvec2 \<Rightarrow> imvec2" where
  "rotate_point sn cs reference p =
     (let x = fst p - fst reference; y = snd p - snd reference
      in (fst reference + x * cs - y * sn, snd reference + x * sn + y * cs))"

text \<open>All points of the vector are rotated, those that were there before as well.\<close>

definition rotate_path :: "imvec2 list \<Rightarrow> imvec2 \<Rightarrow> real \<Rightarrow> imvec2 list" where
  "rotate_path vec reference angle_deg =
     (let sn = sin (pi / 180 * angle_deg); cs = cos (pi / 180 * angle_deg)
      in map (rotate_point sn cs reference) vec)"

definition rotate_list :: "imvec2 \<Rightarrow> real \<Rightarrow> draw_list \<Rightarrow> draw_list" where
  "rotate_list reference angle_deg d = d\<lparr>draw_path := rotate_path (draw_path d) reference angle_deg\<rparr>"

section \<open>Lines and arrows\<close>

definition draw_line_angle :: "imvec2 \<Rightarrow> real \<Rightarrow> real \<Rightarrow> draw_list \<Rightarrow> draw_list \<times> imvec2" where
  "draw_line_angle from_point len angle d =
     (let d1 = PathLineTo (vec_add from_point (len, 0)) (PathLineTo from_point d);
          d2 = rotate_list from_point angle d1;
          res = last (draw_path d2)
      in (PathStroke d2, res))"

text \<open>The corners of an arrow that points along the x axis, in the order they are added.\<close>

definition arrow_points :: "imvec2 \<Rightarrow> real \<Rightarrow> real \<Rightarrow> real \<Rightarrow> imvec2 list" where
  "arrow_points from_point len thickness triangle_width =
     (let line_width = len - triangle_width;
          triangle_bottom = vec_add from_point (line_width, 1/2 * triangle_width);
          bottom_line_end = vec_add from_point (line_width, 1/2 * thickness);
          bottom_line_start = vec_add from_point (0, 1/2 * thickness);
          top_line_start = vec_add from_point (0, - (1/2) * thickness);
          top_line_end = vec_add from_point (line_width, - (1/2) * thickness);
          triangle_top = vec_add from_point (line_width, - (1/2) * triangle_width);
          triangle_endpoint = vec_add from_point (line_width + triangle_width, 0)
      in [triangle_endpoint, triangle_bottom, bottom_line_end, bottom_line_start, top_line_start,
          top_line_end, triangle_top, triangle_endpoint])"

definition draw_arrow :: "imvec2 \<Rightarrow> real \<Rightarrow> real \<Rightarrow> real \<Rightarrow> real \<Rightarrow> draw_list \<Rightarrow> draw_list \<times> imvec2" where
  "draw_arrow from_point len deg thickness triangle_width d =
     (let d1 = fold PathLineTo (arrow_points from_point len thickness triangle_width) d;
          d2 = rotate_list from_point deg d1;
          res = last (draw_path d2)
      in (PathFillConvex d2, res))"

definition draw_arrow_middle :: "imvec2 \<Rightarrow> real \<Rightarrow> real \<Rightarrow> real \<Rightarrow> real \<Rightarrow> draw_list \<Rightarrow> draw_list \<times> imvec2" where
  "draw_arrow_middle from_point len deg thickness triangle_width d =
     (let d1 = fst (draw_arrow from_point (1/2 * (len + triangle_width)) deg thickness triangle_width d)
      in draw_line_angle from_point len deg d1)"

text \<open>
  The angle of the arrow from one point to another. Dividing by a length of zero gives no number in
  floating point: \<open>None\<close>.
\<close>

definition vec_length :: "imvec2 \<Rightarrow> real" where
  "vec_length v = sqrt (fst v * fst v + snd v * snd v)"

definition vec_sub :: "imvec2 \<Rightarrow> imvec2 \<Rightarrow> imvec2" where
  "vec_sub p q = (fst p - fst q, snd p - snd q)"

definition arrow_angle :: "imvec2 \<Rightarrow> real option" where
  "arrow_angle v =
     (if vec_length v = 0 then None
      else let angle = arcsin (snd v / vec_length v) * 180 / pi
           in Some (if angle \<ge> 0 \<and> fst v < 0 then 180 - angle
                    else if angle < 0 \<and> fst v < 0 then - 180 - angle
                    else angle))"

definition draw_arrow_to :: "imvec2 \<Rightarrow> imvec2 \<Rightarrow> real \<Rightarrow> real \<Rightarrow> draw_list \<Rightarrow> (draw_list \<times> imvec2) option" where
  "draw_arrow_to from_point to_point thickness triangle_width d =
     (let v = vec_sub to_point from_point
      in case arrow_angle v of
           None \<Rightarrow> None
         | Some angle \<Rightarrow> Some (draw_arrow from_point (vec_length v) angle thickness triangle_width d))"

text \<open>The overloads that take four times the thickness for the triangle.\<close>

definition draw_arrow_default :: "imvec2 \<Rightarrow> real \<Rightarrow> real \<Rightarrow> real \<Rightarrow> draw_list \<Rightarrow> draw_list \<times> imvec2" where
  "draw_arrow_default from_point len deg thickness = draw_arrow from_point len deg thickness (4 * thickness)"

definition draw_arrow_middle_default :: "imvec2 \<Rightarrow> real \<Rightarrow> real \<Rightarrow> real \<Rightarrow> draw_list \<Rightarrow> draw_list \<times> imvec2" where
  "draw_arrow_middle_default from_point len deg thickness = draw_arrow_middle from_point len deg thickness (4 * thickness)"

definition draw_arrow_to_default :: "imvec2 \<Rightarrow> imvec2 \<Rightarrow> real \<Rightarrow> draw_list \<Rightarrow> (draw_list \<times> imvec2) option" where
  "draw_arrow_to_default from_point to_point thickness = draw_arrow_to from_point to_point thickness (4 * thickness)"

section \<open>Where they end\<close>

definition distance :: "imvec2 \<Rightarrow> imvec2 \<Rightarrow> real" where
  "distance p q = vec_length (vec_sub p q)"

text \<open>A rotation keeps distances, and with the opposite angle it is undone.\<close>

lemma rotate_point_distance:
  assumes "sn * sn + cs * cs = 1"
  shows "distance (rotate_point sn cs r p) (rotate_point sn cs r q) = distance p q"
proof -
  let ?x = "fst p - fst q" and ?y = "snd p - snd q"
  have "(?x * cs - ?y * sn) * (?x * cs - ?y * sn) + (?x * sn + ?y * cs) * (?x * sn + ?y * cs) =
      (?x * ?x + ?y * ?y) * (sn * sn + cs * cs)"
    by algebra
  moreover have "fst (rotate_point sn cs r p) - fst (rotate_point sn cs r q) = ?x * cs - ?y * sn"
    and "snd (rotate_point sn cs r p) - snd (rotate_point sn cs r q) = ?x * sn + ?y * cs"
    by (simp_all add: rotate_point_def Let_def algebra_simps)
  ultimately show ?thesis using assms by (simp add: distance_def vec_sub_def vec_length_def)
qed

lemma sin_cos_one: "sin x * sin x + cos x * cos (x :: real) = 1"
  using sin_cos_squared_add [of x] by (simp add: power2_eq_square)

lemma rotate_path_distance:
  assumes "i < length vec" and "j < length vec"
  shows "distance (rotate_path vec r a ! i) (rotate_path vec r a ! j) = distance (vec ! i) (vec ! j)"
  using assms by (simp add: rotate_path_def Let_def rotate_point_distance sin_cos_one)

lemma rotate_path_back: "rotate_path (rotate_path vec r a) r (- a) = vec"
proof -
  have "rotate_point (- sn) cs r (rotate_point sn cs r p) = p" if "sn * sn + cs * cs = 1" for sn cs p
  proof (rule prod_eqI)
    show "fst (rotate_point (- sn) cs r (rotate_point sn cs r p)) = fst p"
      using that by (simp add: rotate_point_def Let_def) algebra
    show "snd (rotate_point (- sn) cs r (rotate_point sn cs r p)) = snd p"
      using that by (simp add: rotate_point_def Let_def) algebra
  qed
  then show ?thesis by (simp add: rotate_path_def Let_def sin_cos_one o_def)
qed

text \<open>The angle found has the direction of the vector.\<close>

lemma vec_length_squared: "vec_length v * vec_length v = fst v * fst v + snd v * snd v"
  by (simp add: vec_length_def)

lemma vec_length_zero: "vec_length v = 0 \<longleftrightarrow> v = (0, 0)"
  by (cases v) (simp add: vec_length_def sum_squares_eq_zero_iff)

lemma vec_length_nonneg: "0 \<le> vec_length v"
  by (simp add: vec_length_def)

lemma abs_le_vec_length: "\<bar>snd v\<bar> \<le> vec_length v"
  unfolding vec_length_def by (rule real_le_rsqrt) (simp add: power2_eq_square)

lemma arcsin_direction:
  assumes "vec_length v \<noteq> 0"
  shows "sin (arcsin (snd v / vec_length v)) = snd v / vec_length v"
    and "cos (arcsin (snd v / vec_length v)) = \<bar>fst v\<bar> / vec_length v"
proof -
  let ?l = "vec_length v"
  have pos: "0 < ?l" using assms vec_length_nonneg [of v] by simp
  then have range: "-1 \<le> snd v / ?l" "snd v / ?l \<le> 1"
    using abs_le_vec_length [of v] by (auto simp: field_simps abs_le_iff)
  then show "sin (arcsin (snd v / ?l)) = snd v / ?l" by (rule sin_arcsin)
  have squares: "(fst v)\<^sup>2 + (snd v)\<^sup>2 = ?l\<^sup>2" by (simp add: vec_length_def power2_eq_square)
  have "(fst v / ?l)\<^sup>2 + (snd v / ?l)\<^sup>2 = ((fst v)\<^sup>2 + (snd v)\<^sup>2) / ?l\<^sup>2"
    by (simp add: power_divide add_divide_distrib)
  also have "\<dots> = 1" unfolding squares using assms by simp
  finally have "(fst v / ?l)\<^sup>2 + (snd v / ?l)\<^sup>2 = 1" .
  then have "1 - (snd v / ?l)\<^sup>2 = (fst v / ?l)\<^sup>2"
    by simp
  then show "cos (arcsin (snd v / ?l)) = \<bar>fst v\<bar> / ?l"
    using range pos by (simp add: cos_arcsin)
qed

lemma arrow_angle_direction:
  assumes "arrow_angle v = Some a"
  shows "vec_length v * cos (pi / 180 * a) = fst v" and "vec_length v * sin (pi / 180 * a) = snd v"
proof -
  let ?l = "vec_length v"
  let ?t = "arcsin (snd v / ?l)"
  have l: "?l \<noteq> 0" using assms by (auto simp: arrow_angle_def split: if_splits)
  have t: "pi / 180 * (?t * 180 / pi) = ?t" by simp
  have turn: "- pi - ?t = - (?t + pi)" by simp
  have "a = ?t * 180 / pi \<and> 0 \<le> fst v \<or> a = 180 - ?t * 180 / pi \<and> fst v < 0 \<or> a = - 180 - ?t * 180 / pi \<and> fst v < 0"
    using assms l by (auto simp: arrow_angle_def Let_def split: if_splits)
  moreover define th where "th = pi / 180 * a"
  ultimately have "th = ?t \<and> 0 \<le> fst v \<or> th = pi - ?t \<and> fst v < 0 \<or> th = - pi - ?t \<and> fst v < 0"
    using t by (auto simp: field_simps)
  moreover have "sin (- pi - ?t) = sin ?t" and "cos (- pi - ?t) = - cos ?t"
    using turn by (simp_all only: sin_minus cos_minus sin_periodic_pi cos_periodic_pi minus_minus)
  ultimately have "cos th = fst v / ?l" and "sin th = snd v / ?l"
    using arcsin_direction [OF l] by (auto simp: cos_pi_minus sin_pi_minus)
  then show "?l * cos (pi / 180 * a) = fst v" and "?l * sin (pi / 180 * a) = snd v"
    using l by (simp_all add: th_def)
qed

text \<open>Where a line or an arrow of a given angle ends.\<close>

definition polar :: "imvec2 \<Rightarrow> real \<Rightarrow> real \<Rightarrow> imvec2" where
  "polar p len deg = (fst p + len * cos (pi / 180 * deg), snd p + len * sin (pi / 180 * deg))"

lemma rotate_list_last:
  "last (draw_path (rotate_list r a (PathLineTo (vec_add r (len, 0)) d))) = polar r len a"
  by (cases r) (simp add: rotate_list_def rotate_path_def PathLineTo_def rotate_point_def polar_def Let_def)

lemma line_ends: "snd (draw_line_angle p len a d) = polar p len a"
  by (simp add: draw_line_angle_def Let_def rotate_list_last)

lemma arrow_ends: "snd (draw_arrow p len a thickness w d) = polar p len a"
  using rotate_list_last [of p a len] by (simp add: draw_arrow_def Let_def arrow_points_def)

lemma polar_distance: "distance p (polar p len a) = \<bar>len\<bar>"
proof -
  have "len * cos t * (len * cos t) + len * sin t * (len * sin t) = len\<^sup>2" for t :: real
    using sin_cos_squared_add [of t] by algebra
  then show ?thesis
    by (simp add: distance_def vec_length_def vec_sub_def polar_def)
qed



lemma no_arrow_to_itself: "draw_arrow_to p p thickness triangle_width d = None"
  by (simp add: draw_arrow_to_def Let_def vec_sub_def arrow_angle_def vec_length_def)

text \<open>
  The arrow with its head in the middle: the triangle starts half its width before the middle and ends
  half its width after it, and what is returned is the end of the line, not the tip of the triangle.
\<close>

lemma middle_returns_end: "snd (draw_arrow_middle p len a thickness w d) = polar p len a"
  by (simp add: draw_arrow_middle_def Let_def line_ends)

lemma middle_tip:
  "snd (draw_arrow p (1/2 * (len + w)) a thickness w d) = polar p (len / 2 + w / 2) a"
  by (simp add: arrow_ends add_divide_distrib)

text \<open>A path that was begun before is rotated and drawn with the line.\<close>

lemma pending_path_is_drawn:
  "shapes (fst (draw_line_angle p len a d)) =
    shapes d @ [Stroke (rotate_path (draw_path d @ [p, vec_add p (len, 0)]) p a)]"
  by (simp add: draw_line_angle_def Let_def PathStroke_def rotate_list_def PathLineTo_def)

end
