(* ===== verification/Spec2Isabelle.thy ===== *)
theory Spec2Isabelle
  imports Bytes CrcFolding Rolling Worker TcpSession TcpServer IoPool Timer StateMachine Net TcpClientSync SessionOwners FileWriter
    Channels Iterators Clock Format Text OpaqueBuffers Destruction Zstd System DirectX Frames Gui Dialogs Drawing
begin

text \<open>
  A verification development for libsg, a C++20 library of system and networking components. Paths are relative
  to \<open>src/\<close>; \<open>common/\<close> holds the components that need no network, \<open>net/\<close> those around TCP, \<open>imgui/\<close> windows and controls.

  \<^bold>\<open>The program and its model.\<close>
  A C++ class is a record with the members of the class, a member function is a function on the record under
  (nearly) its name, an exception is a value of the datatype \<open>exn\<close> (\<open>Prelude\<close>), and a function that may throw
  returns \<open>exn + 'a\<close>, beside the changed state where it changes any. Integers keep their width as words where
  they wrap; lengths of containers are natural numbers. A class that is used by several threads is a
  transition system: one function for every atomic access, critical section or stretch of a coroutine between
  two suspension points, and an inductive step relation with a rule for each, labelled with an event, whose
  rules interleave freely. User callbacks, the network, the scheduler and the operating system are arbitrary:
  the label of a rule says what they did. Fields called ghosts record what happened and influence nothing.

  \<^bold>\<open>Theories.\<close>
  \<^item> \<open>Prelude\<close>: types, exceptions, step relations (\<open>run\<close>, \<open>reach\<close>), the locale \<open>invariant_system\<close> by which an
    invariant of the initial states and of every step holds in every reachable state, and \<open>exec_run\<close>, which
    executes a list of events, so that a reachable state can be computed.
  \<^item> \<open>Bytes\<close>: \<open>common/include/sg/bytes.h\<close> and \<open>math.h\<close>. Serialised integers are read back on machines of either
    byte order; \<open>largest_power_of_two\<close>.
  \<^item> \<open>Crc\<close>, \<open>CrcFolding\<close>: \<open>common/src/crc.cpp\<close> and \<open>common/src/include/crc*\<close>. \<open>Crc\<close> has the code of all
    versions (tables, simple instruction loops, the four-way version for ARMv8 and the vector version for
    64-bit Intel) and the reference, \<open>crc_update\<close>, the division bit by bit; it proves the table code and the
    simple loops, incremental use and detection of bursts. \<open>CrcFolding\<close> proves the other two, with the
    constants computed, and that all versions agree.
  \<^item> \<open>Rolling\<close>: \<open>rolling_contiguous_buffer.h\<close> refines a log of which the last elements are kept (locale
    \<open>bounded_log\<close>), within the bounds of its vector.
  \<^item> \<open>Worker\<close>: \<open>worker.h\<close>, \<open>worker.cpp\<close>. The protocol of its callbacks, no lost wake-up, termination, the counted
    run.
  \<^item> \<open>StateMachine\<close>: \<open>state_machine.h\<close>, which runs on a worker; the two are put together below.
  \<^item> \<open>Timer\<close>: \<open>accurate_sleeper\<close>, \<open>background_timer\<close>. The period, the real-time policy, the callbacks, termination.
  \<^item> \<open>FileWriter\<close>: \<open>file_writer\<close>. \<open>stop()\<close> flushes what was accepted.
  \<^item> \<open>IoPool\<close>: \<open>net/*/asio_io_pool\<close>. The stopped callback once per cycle, and that the pool winds down.
  \<^item> \<open>TcpSession\<close>: \<open>net/*/tcp_session\<close>. The order of the bytes, the graceful stop, one disconnection callback,
    no way back from a stop, back-pressure.
  \<^item> \<open>TcpServer\<close>: \<open>net/*/tcp_server\<close>. The complete stop, the reported error, the back-off of the listeners, the
    table of sessions.
  \<^item> \<open>SessionOwners\<close>: the asynchronous client \<open>net/*/tcp_client\<close> and the server's functions by id, over the
    sessions of \<open>TcpSession\<close>.
  \<^item> \<open>TcpClientSync\<close>: the blocking client; \<open>Net\<close>: socket options, resolver and interfaces.
  \<^item> \<open>Buffers\<close>, \<open>Ownership\<close>, \<open>BufferPrograms\<close>: \<open>memory.h\<close> and \<open>buffer.h\<close> over a heap that records allocators and
    faults; whatever a program does with the buffers, every block has the owners it should have.
    \<open>OpaqueBuffers\<close>: the opaque wrappers, which refine programs with plain buffers.
  \<^item> \<open>Destruction\<close>: the destructors of the classes with threads; when one returns nothing of the object is
    active (locale \<open>destruction\<close>, an extension of \<open>invariant_system\<close>).
  \<^item> \<open>Zstd\<close>, \<open>System\<close>: compression, files, locale, processor, processes, progress, in terms of what the library
    zstd and the system answer.
  \<^item> \<open>Containers\<close>, \<open>Channels\<close>, \<open>Iterators\<close>: searching sorted data and nested ranges; \<open>uuid\<close> and the two channel classes
    under one contract (locale \<open>contiguous_channel\<close>); the iterator over contiguous memory, the access to a
    buffer through it, generated data.
  \<^item> \<open>Text\<close>, \<open>Format\<close>, \<open>Clock\<close>: versions, enumerations, the conversions of strings; the hex dump, which loses
    nothing; time points of different clocks.
  \<^item> \<open>DirectX\<close>, \<open>Frames\<close>: the Direct3D wrapper of \<open>imgui/\<close>. The allocator of descriptors, with handles computed at
    their width; the objects acquired and released whichever call fails; the frames in flight, in which
    nothing is reset or released that the device may still use and every wait for the fence ends.
  \<^item> \<open>Gui\<close>, \<open>Dialogs\<close>, \<open>Drawing\<close>: the life of a window in both wrappers, with what is set up undone in the
    reverse order; dialog boxes and controls; lines and arrows, in exact real arithmetic.
  \<^item> This theory: three properties that span components.

  \<^bold>\<open>How they interact.\<close>
  The server creates sessions and follows them through their callbacks; it runs its listeners and them on the
  pool. \<open>TcpServer\<close> sees a session by the callbacks it gets, \<open>SessionOwners\<close> by the session itself. The state
  machine is driven by the worker, the channels contain a rolling buffer or a vector, the file functions and
  zstd hand out buffers. The wrappers of \<open>imgui/\<close> share \<open>initalise\<close>, \<open>iterate\<close> and \<open>cleanup\<close>; for Direct3D,
  \<open>Gui\<close> has the order of the actions of \<open>start\<close>, \<open>Frames\<close> what its loop does to the fence, and \<open>DirectX\<close> what
  its set-up and tear-down hold.

  \<^bold>\<open>Assumptions.\<close>
  The instructions for CRC and carry-less multiplication are parameters that do what the manuals say
  (\<open>intrinsics_ok\<close>, \<open>clmul_ok\<close>), and so are zstd (\<open>zstd_documented\<close>), the multi-byte conversions of the C
  library (\<open>respects_length\<close>) and \<open>std::shuffle\<close>. The \<open>io_context\<close>, \<open>async_read\<close> and
  \<open>async_read_until\<close> of Boost.Asio, \<open>std::stoul\<close> and the searches of the standard library are modelled as
  documented. Atomics are modelled as sequentially consistent; weaker orders are not. Direct3D executes the commands of a queue in their order, and its fences and events and
  those of Windows do what their manuals say; fence values are proved right until they come round after \<open>2 ^ 64\<close>
  frames. Messages are shorter than \<open>2 ^ 64\<close>
  bytes in total; the checksum for 64-bit Intel is proved below \<open>2 ^ 61\<close> bytes and the others below \<open>2 ^ 32\<close>,
  where they stop being right.

  \<^bold>\<open>Termination and fuel.\<close>
  No function uses fuel, but for the loop over an iterator (\<open>Iterators\<close>), for which the length is enough. Recursion that is not structural has a measure: the bytes left (\<open>Crc\<close>), the value of
  the counter (\<open>xnmodp\<close>). The tight loop of the sleeper
  (\<open>Timer\<close>) runs over the readings of the clock and has no result while none of them ends it; a lemma says when
  one does. That threads end is proved by counting their own steps (\<open>worker_stops\<close>, \<open>timer_stops\<close>,
  \<open>pool_winds_down\<close>).

  \<^bold>\<open>Where the code does not do what it means to.\<close>
  Such behaviour is modelled as it is, and a lemma at the end of its theory shows it; the conditions under which
  the code is right are hypotheses of the properties.

  \<^bold>\<open>Not modelled.\<close>
  Third-party code in the tree (\<open>internal/date\<close>, \<open>internal/jthread\<close>, \<open>internal/propagate_const.h\<close>); what
  Dear ImGui, SDL, OpenGL and Direct3D do themselves, the attributes and styles they are given and the font;
  rounding of \<open>float\<close> in \<open>imgui/src/utils.cpp\<close>; texts of messages (\<open>debug.h\<close>, \<open>error.h\<close>,
  \<open>format.h\<close> where it hands its arguments to the fmt library); seconds as floating-point numbers
  (\<open>time.h\<close>); wrappers of boost and the standard library without behaviour of their own
  (\<open>callback.h\<close>, \<open>crc16\<close>); files that consist of comments.
\<close>

section \<open>A state machine on its worker\<close>

text \<open>
  \<open>state_machine::start\<close> gives its worker a start, a tick and a stop callback. Here the machine does what
  the callbacks the worker has called do, other threads requesting states in between; the result is the
  machine afterwards, if each callback ended as the worker saw it end.
\<close>

fun machine_calls :: "'s environment \<Rightarrow> 's option list \<Rightarrow> cb_call list \<Rightarrow> 's state_machine \<Rightarrow> 's state_machine option" where
  "machine_calls env reqs [] m = Some m"
| "machine_calls env reqs (Call_start r # cs) m =
     (case worker_on_start env m of (m, r') \<Rightarrow> if r' = r then machine_calls env reqs cs m else None)"
| "machine_calls env [] (Call_tick r # cs) m =
     (case tick_action env m of (m, r') \<Rightarrow> if r' = r then machine_calls env [] cs m else None)"
| "machine_calls env (q # reqs) (Call_tick r # cs) m =
     (case tick_action env (case q of None \<Rightarrow> m | Some s \<Rightarrow> set_state s m) of
        (m, r') \<Rightarrow> if r' = r then machine_calls env reqs cs m else None)"
| "machine_calls env reqs (Call_stop r # cs) m =
     (case worker_on_stop env m of (m, r') \<Rightarrow> if r' = r then machine_calls env reqs cs m else None)"

lemma machine_calls_ticks:
  "machine_calls env reqs (replicate n (Call_tick (Inr ())) @ cs) m = Some m' \<Longrightarrow>
     \<exists>qs rest m1. length qs = n \<and> machine_ticks env qs m = (m1, Inr ()) \<and> machine_calls env rest cs m1 = Some m'"
proof (induction n arbitrary: reqs m)
  case 0
  then show ?case by (metis append_Nil length_0_conv list.size(3) machine_ticks.simps(1) replicate_0)
next
  case (Suc n)
  define q where "q = (case reqs of [] \<Rightarrow> None | q # _ \<Rightarrow> q)"
  obtain m2 where t: "tick_action env (case q of None \<Rightarrow> m | Some s \<Rightarrow> set_state s m) = (m2, Inr ())"
    "machine_calls env (tl reqs) (replicate n (Call_tick (Inr ())) @ cs) m2 = Some m'"
    using Suc.prems by (cases reqs) (auto simp: q_def split: prod.splits if_splits)
  then obtain qs rest m1 where "length qs = n" "machine_ticks env qs m2 = (m1, Inr ())" "machine_calls env rest cs m1 = Some m'"
    using Suc.IH by blast
  then have "length (q # qs) = Suc n \<and> machine_ticks env (q # qs) m = (m1, Inr ()) \<and> machine_calls env rest cs m1 = Some m'"
    using t(1) by (simp add: seq_def)
  then show ?case by blast
qed

lemma complete_run_calls:
  assumes "complete_run True True n cs res" and "Call_tick r \<in> set cs" and "res = Inr ()"
  shows "cs = Call_start (Inr ()) # replicate (unat n) (Call_tick (Inr ())) @ [Call_stop (Inr ())] \<and> n \<noteq> 0"
proof -
  have not_start: "cs \<noteq> [Call_start q]" for q using assms(2) by auto
  have "\<exists>ex cs' r'. cs = cs' @ [Call_stop r'] \<and> loop_left True n ex cs' \<and>
      res = (case r' of Inl e \<Rightarrow> Inl e | Inr _ \<Rightarrow> rethrow ex)"
    using assms(1) not_start by (simp add: complete_run_def)
  then obtain ex cs' r' where c: "cs = cs' @ [Call_stop r']" "loop_left True n ex cs'"
      "res = (case r' of Inl e \<Rightarrow> Inl e | Inr _ \<Rightarrow> rethrow ex)" by blast
  have "r' = Inr ()" "rethrow ex = Inr ()" using c(3) assms(3) by (cases r'; simp)+
  then have "ex = None" by (cases ex) (simp_all add: rethrow_def)
  then have "cs' = Call_start (Inr ()) # replicate (unat n) (Call_tick (Inr ()))"
    using c(2) by (simp add: loop_left_def prologue_def)
  then show ?thesis using c(1) \<open>r' = Inr ()\<close> assms(2) by (cases "n = 0") simp_all
qed

text \<open>
  C22: A state machine on its worker, whatever the interleaving of the worker with other threads and whatever
  states the callbacks and other threads request: when the worker has finished, has ticked, and no callback
  threw, every state was entered once before it ticked and left once before the next was entered or the
  machine stopped, the start callback came before and the stop callback after all of them, and no state is
  left occupied.
\<close>

theorem machine_on_worker_orderly:
  assumes "reach worker_init worker_step w" and "pc w = Finished" and "has_start_callback w" and "has_stop_callback w"
    and "m_result_future w = Ready (Inr ())" and "Call_tick r \<in> set (calls w)"
    and "machine_calls env reqs (calls w) m = Some m'" and "machine_log m = []"
  shows "occupied None (machine_log m') = Some None"
proof -
  have "complete_run True True (m_iterations_done w) (calls w) (Inr ())"
    using worker_system.reach_inv [OF assms(1)] assms(2-5) by (simp add: calls_inv_def)
  from complete_run_calls [OF this assms(6) refl]
  have calls: "calls w = Call_start (Inr ()) # replicate (unat (m_iterations_done w)) (Call_tick (Inr ())) @ [Call_stop (Inr ())]"
    and n: "unat (m_iterations_done w) \<noteq> 0" by (auto simp: unat_eq_0)
  obtain m1 where start: "worker_on_start env m = (m1, Inr ())"
    and "machine_calls env reqs (replicate (unat (m_iterations_done w)) (Call_tick (Inr ())) @ [Call_stop (Inr ())]) m1 = Some m'"
    using assms(7) unfolding calls by (auto split: prod.splits if_splits)
  from machine_calls_ticks [OF this(2)] obtain qs rest m2 where
    ticks: "length qs = unat (m_iterations_done w)" "machine_ticks env qs m1 = (m2, Inr ())"
    and "machine_calls env rest [Call_stop (Inr ())] m2 = Some m'" by blast
  then have "worker_on_stop env m2 = (m', Inr ())" by (auto split: prod.splits if_splits)
  then have "machine_run env qs m = (m', Inr ())" using start ticks(2) by (simp add: machine_run_def seq_def)
  then show ?thesis by (rule machine_run_orderly) (use ticks(1) n assms(8) in auto)
qed


text \<open>The worker of the example ticks twice; in the first tick the machine requests its second state.\<close>

theorem machine_on_worker_orderly_witness:
  "\<exists>w m'. reach worker_init worker_step w \<and>
     calls w = [Call_start (Inr ()), Call_tick (Inr ()), Call_tick (Inr ()), Call_stop (Inr ())] \<and>
     machine_calls example_env [] (calls w) example_machine = Some m' \<and> m_current_state m' = 1 \<and>
     occupied None (machine_log m') = Some None"
proof -
  let ?calls = "[Call_start (Inr ()), Call_tick (Inr ()), Call_tick (Inr ()), Call_stop (Inr ())]"
  let ?es = "started 2 @ [worker_event.Checks_stop, Counts, Tick_callback_ends (Inr ()),
    Checks_target 0, Times_out, Drains, worker_event.Checks_stop, Counts, Tick_callback_ends (Inr ()), Checks_target 0,
    Sets_stopped, Stop_callback_ends (Inr ()), worker_event.Returns]"
  obtain w where w: "exec_run next_worker ?es (new_worker 5 True True False) = Some w" "pc w = Finished"
    "m_result_future w = Ready (Inr ())" "calls w = ?calls" "has_start_callback w" "has_stop_callback w"
    by (simp add: started_def worker_defs start_cas_def wait_for_stop_def rethrow_def word_le_nat_alt)
  have r: "reach worker_init worker_step w" by (rule worker_reach_exec [OF w(1)])
  obtain m' where m': "machine_calls example_env [] ?calls example_machine = Some m'" "m_current_state m' = 1"
    by (simp add: machine_eval)
  have "machine_log example_machine = []" by (simp add: machine_eval)
  from machine_on_worker_orderly [OF r w(2,5,6,3), of "Inr ()" example_env "[]" example_machine m'] this m' w(4) r
  show ?thesis by auto
qed

section \<open>From a session to the client at the other end\<close>

text \<open>
  C11: A session at one end and a blocking client at the other, with a connection that delivers a prefix of
  what the session's socket took: what the client's reads have returned, followed by what it has buffered, is
  the beginning of what \<open>write()\<close> accepted, in order, and what is missing is still under way or counted by
  \<open>pending_bytes()\<close>. After a graceful stop of the session, once the client has received what was sent, nothing
  is missing.
\<close>

theorem session_to_client:
  fixes ops :: "client_op list" and opts :: client_options
  defines "c \<equiv> fold client_exec ops (new_client opts)"
  assumes "reach session_init session_step s" and "prefix (received c) (wire s)"
  shows "\<exists>rest. session.accepted s = returned c @ m_read_buffer c @ rest \<and>
      length rest \<le> (length (wire s) - length (received c)) + pending_bytes s \<and>
      (reach session_init graceful_step s \<and> session.m_state s \<in> {Stopping, Stopped} \<and> received c = wire s \<longrightarrow> rest = [])"
proof -
  have d: "data_inv s" by (rule data_system.reach_inv [OF assms(2)])
  then have w: "prefix (wire s) (session.accepted s)"
    and n: "length (session.accepted s) \<le> length (wire s) + pending_bytes s"
    using data_inv_order [OF d] take_is_prefix [of "length (wire s)" "session.accepted s"] by auto
  have c: "returned c @ m_read_buffer c = received c" using stream_inv_run unfolding c_def stream_inv_def .
  obtain rest where rest: "session.accepted s = received c @ rest"
    using prefix_order.trans [OF assms(3) w] by (auto simp: prefix_def)
  then have "length rest \<le> (length (wire s) - length (received c)) + pending_bytes s"
    using n prefix_length_le [OF assms(3)] by simp
  moreover have "wire s = session.accepted s"
    if "reach session_init graceful_step s" "session.m_state s \<in> {Stopping, Stopped}"
    using graceful_system.reach_inv [OF that(1)] that(2) by (auto simp: drained_inv_def)
  then have "reach session_init graceful_step s \<and> session.m_state s \<in> {Stopping, Stopped} \<and> received c = wire s \<longrightarrow> rest = []"
    using rest by auto
  ultimately show ?thesis using rest unfolding c [symmetric] by auto
qed

text \<open>Two messages, then a graceful stop; the client reads a line and finds one more byte in its buffer.\<close>

theorem session_to_client_witness:
  "\<exists>s. reach session_init session_step s \<and> session.accepted s = [1, 13, 10, 9] \<and>
     (let c = fold client_exec
         [Op_connect (Inr ()) None False (\<lambda>_. True) default_options, Op_read_until [13, 10] ([[1, 13], [10, 9]], net_ec.Ec_timed_out)]
         (new_client default_options)
      in returned c = [1, 13, 10] \<and> m_read_buffer c = [9] \<and>
         (\<exists>rest. session.accepted s = returned c @ m_read_buffer c @ rest \<and> length rest \<le> pending_bytes s))"
proof -
  let ?es = "session_up @ [Write [1, 13, 10], Writer_swap, Write [9], Stop_async, Socket_takes 3,
    Writer_written, Writer_swap, Socket_takes 1, Writer_written]"
  let ?ops = "[Op_connect (Inr ()) None False (\<lambda>_. True) default_options, Op_read_until [13, 10] ([[1, 13], [10, 9]], net_ec.Ec_timed_out)]"
  obtain s where s: "exec_run next_session ?es plain_session = Some s" "wire s = [1, 13, 10, 9]"
    "session.accepted s = [1, 13, 10, 9]"
    by (simp add: session_eval)
  have r: "reach session_init session_step s" by (rule session_reach_exec [OF s(1)])
  let ?c = "fold client_exec ?ops (new_client default_options)"
  have c: "returned ?c = [1, 13, 10]" "m_read_buffer ?c = [9]" "received ?c = [1, 13, 10, 9]"
    by (simp_all add: client_connect_def new_client_def client_sockopt_defs read_until_def find_end.simps take_result_def
        buffer_grows_def default_options_def native_set_keepalive_def native_set_timeout_def setsockopt_def default_keepalive_def Let_def)
  then have "prefix (received ?c) (wire s)" using s(2) by simp
  from session_to_client [OF r this] show ?thesis using r s c by (auto simp: Let_def)
qed

section \<open>A compressed file\<close>

text \<open>
  C28: Data that is compressed, written to a file, read from it and decompressed comes back, whatever level and
  number of threads, if the file can be written and read, memory suffices, and the data is not empty.
\<close>

theorem compressed_file_roundtrip:
  assumes "zstd_documented z" and "zstd_compress ok ok' z level no_threads src h = (h1, Inr (p, out))"
    and "write_file (ios_binary OR ios_out) True (length out) seen out old = (now, Inr ())"
    and "src \<noteq> []" and "length src < 2 ^ 64" and "length out < 2 ^ 63"
  shows "\<exists>h2 q h3 t. read_file True (Inr (of_nat (length out))) (ios_binary OR ios_in) now True h1 =
      (h2, Inr (q, of_nat (length out), out)) \<and>
    zstd_decompress True z out h2 = (h3, Inr (t, of_nat (length src), src))"
proof -
  have "out \<noteq> []"
    using assms(1,2) unfolding zstd_documented_def zstd_compress_def zstd_compress_into_def
    by (auto split: sum.splits prod.splits if_splits option.splits)
  then obtain q h2 where "read_file True (Inr (of_nat (length out))) (ios_binary OR ios_in) now True h1 =
      (h2, Inr (q, of_nat (length out), out))"
    using file_roundtrip [OF assms(3) _ assms(6)] by blast
  then show ?thesis using zstd_roundtrip [OF assms(1,2,4,5)] by blast
qed

theorem compressed_file_roundtrip_witness:
  "\<exists>h1 p h2 q h3 t. zstd_compress True True storing_api 3 0 [1, 2] empty_heap = (h1, Inr (p, [0, 1, 2])) \<and>
     read_file True (Inr 3) (ios_binary OR ios_in) (Some [0, 1, 2]) True h1 = (h2, Inr (q, 3, [0, 1, 2])) \<and>
     zstd_decompress True storing_api [0, 1, 2] h2 = (h3, Inr (t, 2, [1, 2]))"
proof -
  obtain h1 p where c: "zstd_compress True True storing_api 3 0 [1, 2] empty_heap = (h1, Inr (p, [0, 1, 2]))"
    by (simp add: zstd_compress_def get_max_compressed_size_def zstd_compress_into_def storing_api_def
        malloc_or_throw_def realloc_or_free_and_throw_def allocate_def empty_heap_def)
  have w: "write_file (ios_binary OR ios_out) True (length [0, 1, 2 :: byte]) False [0, 1, 2] None = (Some [0, 1, 2], Inr ())"
    by (simp add: write_file_def Let_def)
  from compressed_file_roundtrip [OF storing_api_documented c w] show ?thesis using c by auto
qed

end
